theory Spec2Isabelle
  imports Main "HOL-Library.Word"
begin

section \<open>C++ integer arithmetic\<close>

text \<open>
  The chunk server's integers are modelled as \<open>int\<close>. Division and remainder of C++
  truncate towards zero; a result converted to (or computed in) the 32-bit type \<open>int\<close>
  is wrapped around where it can leave the range.
\<close>

definition c_div :: "int \<Rightarrow> int \<Rightarrow> int" where
  "c_div a b = sgn a * sgn b * (\<bar>a\<bar> div \<bar>b\<bar>)"

definition c_rem :: "int \<Rightarrow> int \<Rightarrow> int" where
  "c_rem a b = a - b * c_div a b"

definition wrap32 :: "int \<Rightarrow> int" where
  "wrap32 x = (x + 2 ^ 31) mod 2 ^ 32 - 2 ^ 31"

definition is_int32 :: "int \<Rightarrow> bool" where
  "is_int32 x = (- (2 ^ 31) \<le> x \<and> x < 2 ^ 31)"

section \<open>Constants declared outside Replicator.cc\<close>

text \<open>
  Replicator.cc uses constants whose declarations live in headers that are not part of
  the verified sources (kfsio/checksum.h, common/kfstypes.h, kfsio/IOBuffer.h, errno.h).
  They are parameters of the model.
\<close>

record constants =
  CHECKSUM_BLOCKSIZE :: int
  CHUNKSIZE :: int
  KFS_MIN_STRIPE_SIZE :: int
  KFS_MAX_STRIPE_SIZE :: int
  KFS_STRIPE_ALIGNMENT :: int
  KFS_STRIPED_FILE_TYPE_RS :: int
  EINVAL :: int
  ETIMEDOUT :: int
  DefaultBufferSize :: int \<comment> \<open>\<open>IOBufferData::GetDefaultBufferSize()\<close>\<close>

text \<open>\<open>kDefaultReplicationReadSize\<close>: 1 MiB rounded up to a checksum block.\<close>

definition kDefaultReplicationReadSize :: "constants \<Rightarrow> int" where
  "kDefaultReplicationReadSize K =
     wrap32 (c_div (2 ^ 20 + CHECKSUM_BLOCKSIZE K - 1) (CHECKSUM_BLOCKSIZE K)
             * CHECKSUM_BLOCKSIZE K)"

section \<open>The request\<close>

text \<open>
  \<open>ReplicateChunkOp\<close>, with the fields Replicator.cc reads and writes. The server
  location is kept as the result of \<open>location.IsValid()\<close> and its port.
\<close>

record ReplicateChunkOp =
  fid :: int
  chunkId :: int
  chunkVersion :: int
  location_IsValid :: bool
  location_port :: int
  chunkOffset :: int
  striperType :: int
  numStripes :: int
  numRecoveryStripes :: int
  stripeSize :: int
  fileSize :: int
  pathName :: string
  status :: int
  invalidStripeIdx :: string

section \<open>Read size of the recovery reader\<close>

function GetGcd_loop :: "int \<Rightarrow> int \<Rightarrow> int" where
  "GetGcd_loop a b = (if b \<noteq> 0 then GetGcd_loop b (c_rem a b) else a)"
  by pat_completeness auto
termination
proof (relation "measure (\<lambda>(a, b). nat \<bar>b\<bar>)")
  show "wf (measure (\<lambda>(a, b). nat \<bar>b\<bar>))" by simp
next
  fix a b :: int
  assume b: "b \<noteq> 0"
  have e: "c_rem a b = sgn a * (\<bar>a\<bar> mod \<bar>b\<bar>)"
  proof -
    have "b * (sgn a * sgn b * (\<bar>a\<bar> div \<bar>b\<bar>)) = sgn a * (\<bar>b\<bar> * (\<bar>a\<bar> div \<bar>b\<bar>))"
      by (simp add: abs_sgn mult.assoc mult.left_commute)
    moreover have "a = sgn a * \<bar>a\<bar>"
      by (simp add: mult_sgn_abs)
    ultimately have "c_rem a b = sgn a * \<bar>a\<bar> - sgn a * (\<bar>b\<bar> * (\<bar>a\<bar> div \<bar>b\<bar>))"
      by (simp add: c_rem_def c_div_def)
    also have "\<dots> = sgn a * (\<bar>a\<bar> - \<bar>b\<bar> * (\<bar>a\<bar> div \<bar>b\<bar>))"
      by (simp add: right_diff_distrib)
    also have "\<bar>a\<bar> - \<bar>b\<bar> * (\<bar>a\<bar> div \<bar>b\<bar>) = \<bar>a\<bar> mod \<bar>b\<bar>"
      by (simp add: minus_mult_div_eq_mod)
    finally show ?thesis .
  qed
  have nn: "0 \<le> \<bar>a\<bar> mod \<bar>b\<bar>"
    using b by simp
  have "\<bar>c_rem a b\<bar> = \<bar>sgn a\<bar> * \<bar>\<bar>a\<bar> mod \<bar>b\<bar>\<bar>"
    unfolding e by (rule abs_mult)
  also have "\<dots> = \<bar>sgn a\<bar> * (\<bar>a\<bar> mod \<bar>b\<bar>)"
    using nn by simp
  also have "\<dots> \<le> \<bar>a\<bar> mod \<bar>b\<bar>"
    by (cases "a = 0") (simp_all add: abs_sgn_eq)
  also have "\<dots> < \<bar>b\<bar>"
    using b by simp
  finally show "((b, c_rem a b), (a, b)) \<in> measure (\<lambda>(a, b). nat \<bar>b\<bar>)"
    by simp
qed

declare GetGcd_loop.simps [simp del]

definition GetGcd :: "int \<Rightarrow> int \<Rightarrow> int" where
  "GetGcd nl nr = GetGcd_loop nl nr"

definition GetLcm :: "int \<Rightarrow> int \<Rightarrow> int" where
  "GetLcm nl nr =
     (if nl = 0 \<or> nr = 0 then 0 else wrap32 (c_div nl (GetGcd nl nr) * nr))"

text \<open>
  The assertion at the head of \<open>GetReadSize\<close>. \<open>maxReadSize\<close> is the static
  \<open>sRSReaderMaxReadSize\<close>.
\<close>

definition GetReadSize_assert :: "constants \<Rightarrow> int \<Rightarrow> ReplicateChunkOp \<Rightarrow> bool" where
  "GetReadSize_assert K maxReadSize op =
     (maxReadSize \<ge> CHECKSUM_BLOCKSIZE K \<and>
      stripeSize op > 0 \<and>
      c_rem maxReadSize (CHECKSUM_BLOCKSIZE K) = 0 \<and>
      c_rem (CHECKSUM_BLOCKSIZE K) (DefaultBufferSize K) = 0)"

text \<open>
  \<open>GetReadSize_size\<close> is the local \<open>size\<close> of \<open>GetReadSize\<close>; \<open>quota\<close> is
  \<open>DiskIo::GetBufferManager().GetMaxClientQuota()\<close>, a 64-bit byte count. The quotient
  is computed in 64 bits and converted to \<open>int\<close>.
\<close>

definition GetReadSize_size :: "constants \<Rightarrow> int \<Rightarrow> int \<Rightarrow> ReplicateChunkOp \<Rightarrow> int" where
  "GetReadSize_size K maxReadSize quota op =
     max (CHECKSUM_BLOCKSIZE K)
       (wrap32 (min maxReadSize
          (c_div (c_div quota (max 1 (wrap32 (numStripes op + 1)))) (CHECKSUM_BLOCKSIZE K)
             * CHECKSUM_BLOCKSIZE K)))"

definition GetReadSize :: "constants \<Rightarrow> int \<Rightarrow> int \<Rightarrow> ReplicateChunkOp \<Rightarrow> int" where
  "GetReadSize K maxReadSize quota op =
     (let kChecksumBlockSize = CHECKSUM_BLOCKSIZE K;
          kIoBufferSize = DefaultBufferSize K;
          size = GetReadSize_size K maxReadSize quota op
      in if size \<le> stripeSize op then size
         else
           let lcm1 = GetLcm kChecksumBlockSize (stripeSize op)
           in if lcm1 > size then
                (let lcm2 = GetLcm kIoBufferSize (stripeSize op)
                 in if lcm2 > size then lcm2
                    else c_div size lcm2 * lcm2)
              else c_div size lcm1 * lcm1)"


text \<open>
  The request check of the dispatcher \<open>Replicator::Run\<close> on the recovery path: the
  disjunction that rejects a request.
\<close>

definition Run_invalid_request :: "constants \<Rightarrow> ReplicateChunkOp \<Rightarrow> bool" where
  "Run_invalid_request K op =
     (chunkOffset op < 0 \<or>
      c_rem (chunkOffset op) (CHUNKSIZE K) \<noteq> 0 \<or>
      striperType op \<noteq> KFS_STRIPED_FILE_TYPE_RS K \<or>
      numStripes op \<le> 0 \<or>
      numRecoveryStripes op \<le> 0 \<or>
      stripeSize op < KFS_MIN_STRIPE_SIZE K \<or>
      stripeSize op > KFS_MAX_STRIPE_SIZE K \<or>
      c_rem (CHUNKSIZE K) (stripeSize op) \<noteq> 0 \<or>
      c_rem (stripeSize op) (KFS_STRIPE_ALIGNMENT K) \<noteq> 0 \<or>
      location_port op \<le> 0)"


text \<open>The assertion of the \<open>RSReplicatorImpl\<close> constructor on its read size.\<close>

definition RSReplicatorImpl_assert :: "constants \<Rightarrow> int \<Rightarrow> bool" where
  "RSReplicatorImpl_assert K readSize = (c_rem readSize (DefaultBufferSize K) = 0)"

section \<open>Buffers\<close>

text \<open>
  \<open>IOBuffer\<close> (kfsio/IOBuffer.h, not part of the verified sources) is a queue of bytes:
  \<open>BytesConsumable\<close> is its length, \<open>Clear\<close> empties it, \<open>Move\<close> appends the
  front of another buffer and removes it there. A buffer pointer that may be null is an
  \<open>option\<close>.
\<close>

type_synonym byte = "8 word"
type_synonym IOBuffer = "byte list"

definition BytesConsumable :: "IOBuffer \<Rightarrow> int" where
  "BytesConsumable b = int (length b)"

definition BytesConsumable_ptr :: "IOBuffer option \<Rightarrow> int" where
  "BytesConsumable_ptr p = (case p of None \<Rightarrow> 0 | Some b \<Rightarrow> BytesConsumable b)"

text \<open>\<open>dst.Move(src, n)\<close>: the new \<open>dst\<close>, the new \<open>src\<close>, the number of bytes moved.\<close>

definition Move_n :: "IOBuffer \<Rightarrow> IOBuffer \<Rightarrow> int \<Rightarrow> IOBuffer \<times> IOBuffer \<times> int" where
  "Move_n dst src n =
     (dst @ take (nat n) src, drop (nat n) src, int (length (take (nat n) src)))"

section \<open>State of the replicators\<close>

datatype handler =
    NoHandler
  | H_HandleStartDone
  | H_HandleReadDone
  | H_HandleWriteDone
  | H_HandleReplicationDone

text \<open>
  One \<open>ReplicatorImpl\<close> object; \<open>isRS\<close> tells an \<open>RSReplicatorImpl\<close>, whose
  members are the last four fields. The members of the three sub-operations
  \<open>mChunkMetadataOp\<close>, \<open>mReadOp\<close> and \<open>mWriteOp\<close> carry the prefixes \<open>md_\<close>,
  \<open>rd_\<close> and \<open>wr_\<close>. \<open>handler\<close> is the handler of \<open>KfsCallbackObj\<close> set by
  \<open>SET_HANDLER\<close>, \<open>waiting\<close> is \<open>BufferManager::Client::IsWaiting()\<close>,
  \<open>refCount\<close> the count of \<open>QCRefCountedObj\<close> and \<open>deleted\<close> records that the
  destructor has run.
\<close>

record ReplicatorImpl =
  isRS :: bool
  mFileId :: int
  mChunkId :: int
  mChunkVersion :: int
  mChunkSize :: int
  mOwner :: "ReplicateChunkOp option"
  mOffset :: int
  mPeer :: bool
  md_chunkId :: int
  md_readVerifyFlag :: bool
  md_status :: int
  md_chunkSize :: int
  md_chunkVersion :: int
  rd_chunkVersion :: int
  rd_status :: int
  rd_offset :: int
  rd_numBytes :: int
  rd_numBytesIO :: int
  rd_dataBuf :: "IOBuffer option"
  wr_chunkVersion :: int
  wr_status :: int
  wr_offset :: int
  wr_numBytes :: int
  wr_numBytesIO :: int
  wr_dataBuf :: "IOBuffer option"
  wr_isFromReReplication :: bool
  mDone :: bool
  mCancelFlag :: bool
  handler :: handler
  waiting :: bool
  refCount :: int
  deleted :: bool
  mReadTail :: IOBuffer
  mReadSize :: int
  mReadInFlightFlag :: bool
  mPendingCloseFlag :: bool

text \<open>
  The calls a replicator makes to its collaborators (buffer manager, peer, chunk manager,
  striped reader, the submission of the response), in the order it makes them.
  \<open>NullOwner\<close> marks the dereference of a null \<open>mOwner\<close>.
\<close>

datatype effect =
    IsOverQuota int
  | GetForDiskIo int
  | CancelRequest
  | Enqueue_GetChunkMetadata int bool
  | Enqueue_Read int int int int
  | StaleChunk int bool
  | AllocChunk int int int bool
  | WriteChunk int int "IOBuffer"
  | ChangeChunkVers int int bool
  | ReplicationDone int int
  | SubmitOpResponse ReplicateChunkOp
  | Reader_Open int int int int int int int
  | Reader_Read int int
  | Reader_Close
  | Reader_Shutdown
  | Reader_Unregister
  | Reader_Register0
  | NullOwner
  | NullPeer

datatype caller = Dispatcher | Instance nat

text \<open>
  The statics of \<open>ReplicatorImpl\<close>: the registry \<open>sInFlightReplications\<close> (a
  \<open>std::map\<close> from chunk id to replicator, kept as the list of its entries in key
  order), \<open>sReplicationCount\<close> and the counters, with the log of the calls made.
\<close>

record globals =
  sInFlightReplications :: "(int \<times> nat) list"
  sReplicationCount :: int
  mReplicatorCount :: int
  mReplicationCount :: int
  mRecoveryCount :: int
  mReplicationErrorCount :: int
  mRecoveryErrorCount :: int
  mReplicationCanceledCount :: int
  mRecoveryCanceledCount :: int
  trace :: "(caller \<times> effect) list"

text \<open>
  What the collaborators answer to the synchronous calls made while one event is handled,
  and the values read from them.
\<close>

record environment =
  env_IsOverQuota :: bool
  env_GetForDiskIo :: bool
  env_AllocChunk :: int
  env_WriteChunk :: int
  env_ChangeChunkVers :: int
  env_Reader_Open :: int
  env_Reader_Read :: int
  env_Reader_IsActive :: bool
  env_peer :: bool
  env_MaxClientQuota :: int
  env_sRSReaderMaxReadSize :: int
  env_uninitialized :: int

definition emit :: "caller \<Rightarrow> effect \<Rightarrow> globals \<Rightarrow> globals" where
  "emit c e g = g\<lparr>trace := trace g @ [(c, e)]\<rparr>"

subsection \<open>The registry\<close>

definition registry_find :: "(int \<times> nat) list \<Rightarrow> int \<Rightarrow> nat option" where
  "registry_find reg k = map_of reg k"

text \<open>\<open>std::map::insert\<close>: the entries afterwards, and whether the pair was inserted.\<close>

definition registry_insert :: "(int \<times> nat) list \<Rightarrow> int \<Rightarrow> nat \<Rightarrow> (int \<times> nat) list \<times> bool" where
  "registry_insert reg k v =
     (case map_of reg k of
        None \<Rightarrow> (insort_key fst (k, v) reg, True)
      | Some _ \<Rightarrow> (reg, False))"

text \<open>\<open>it->second = v\<close> for the entry of key \<open>k\<close>.\<close>

definition registry_assign :: "(int \<times> nat) list \<Rightarrow> int \<Rightarrow> nat \<Rightarrow> (int \<times> nat) list" where
  "registry_assign reg k v = map (\<lambda>(k', v'). if k' = k then (k', v) else (k', v')) reg"

definition registry_erase :: "(int \<times> nat) list \<Rightarrow> int \<Rightarrow> (int \<times> nat) list" where
  "registry_erase reg k = filter (\<lambda>(k', v'). k' \<noteq> k) reg"

subsection \<open>Construction, reference counting, destruction\<close>

definition ReplicatorImpl_new :: "environment \<Rightarrow> ReplicateChunkOp \<Rightarrow> bool \<Rightarrow> ReplicatorImpl" where
  "ReplicatorImpl_new E op peer =
     \<lparr>isRS = False, mFileId = fid op, mChunkId = chunkId op, mChunkVersion = chunkVersion op,
      mChunkSize = env_uninitialized E, mOwner = Some op, mOffset = 0, mPeer = peer,
      md_chunkId = 0, md_readVerifyFlag = False, md_status = 0, md_chunkSize = 0,
      md_chunkVersion = 0,
      rd_chunkVersion = chunkVersion op, rd_status = 0, rd_offset = 0, rd_numBytes = 0,
      rd_numBytesIO = 0, rd_dataBuf = None,
      wr_chunkVersion = chunkVersion op, wr_status = 0, wr_offset = 0, wr_numBytes = 0,
      wr_numBytesIO = 0, wr_dataBuf = None, wr_isFromReReplication = True,
      mDone = False, mCancelFlag = False, handler = NoHandler, waiting = False,
      refCount = 0, deleted = False,
      mReadTail = [], mReadSize = 0, mReadInFlightFlag = False, mPendingCloseFlag = False\<rparr>"

definition RSReplicatorImpl_new :: "constants \<Rightarrow> environment \<Rightarrow> ReplicateChunkOp \<Rightarrow> ReplicatorImpl" where
  "RSReplicatorImpl_new K E op =
     (ReplicatorImpl_new E op False)
       \<lparr>isRS := True,
        mReadSize := GetReadSize K (env_sRSReaderMaxReadSize E) (env_MaxClientQuota E) op\<rparr>"

definition Ref :: "ReplicatorImpl \<Rightarrow> ReplicatorImpl" where
  "Ref r = r\<lparr>refCount := refCount r + 1\<rparr>"

text \<open>
  \<open>~ReplicatorImpl\<close>, after \<open>~RSReplicatorImpl\<close> for a recovery: the entry of the
  registry is erased when it is this object's.
\<close>

definition destroy :: "nat \<Rightarrow> ReplicatorImpl \<times> globals \<Rightarrow> ReplicatorImpl \<times> globals" where
  "destroy this = (\<lambda>(r, g).
     let g0 = (if isRS r
               then emit (Instance this) Reader_Shutdown (emit (Instance this) Reader_Register0 g)
               else g);
         g1 = (if registry_find (sInFlightReplications g0) (mChunkId r) = Some this
               then g0\<lparr>sReplicationCount :=
                          (if \<not> mCancelFlag r \<and> sReplicationCount g0 > 0
                           then sReplicationCount g0 - 1 else sReplicationCount g0),
                        sInFlightReplications :=
                          registry_erase (sInFlightReplications g0) (mChunkId r)\<rparr>
               else g0)
     in (r\<lparr>deleted := True\<rparr>, g1\<lparr>mReplicatorCount := mReplicatorCount g1 - 1\<rparr>))"

definition UnRef :: "nat \<Rightarrow> ReplicatorImpl \<times> globals \<Rightarrow> ReplicatorImpl \<times> globals" where
  "UnRef this = (\<lambda>(r, g).
     let r1 = r\<lparr>refCount := refCount r - 1\<rparr>
     in if refCount r1 = 0 then destroy this (r1, g) else (r1, g))"

subsection \<open>Termination of a replication\<close>

text \<open>
  \<open>HandleReplicationDone(code, data)\<close>; \<open>dat\<close> is the status \<open>data\<close> points to, if
  \<open>data\<close> is not null.
\<close>

definition HandleReplicationDone ::
  "nat \<Rightarrow> int option \<Rightarrow> ReplicatorImpl \<times> globals \<Rightarrow> ReplicatorImpl \<times> globals" where
  "HandleReplicationDone this dat = (\<lambda>(r, g).
     case mOwner r of
       None \<Rightarrow> (r, emit (Instance this) NullOwner g)
     | Some owner \<Rightarrow>
         let st = (case dat of Some v \<Rightarrow> v | None \<Rightarrow> 0);
             owner1 = owner\<lparr>status := (if st \<ge> 0 then 0 else - 1)\<rparr>;
             notifyFlag =
               (if mCancelFlag r
                then registry_find (sInFlightReplications g) (mChunkId r) = Some this
                else True);
             g1 = (if notifyFlag
                   then emit (Instance this) (ReplicationDone (mChunkId r) st) g else g);
             owner2 = owner1\<lparr>chunkVersion :=
                        (if \<not> mCancelFlag r \<and> st \<ge> 0 then mChunkVersion r else - 1)\<rparr>;
             g2 = (if status owner2 < 0 \<or> mCancelFlag r
                   then (if location_IsValid owner2
                         then (if mCancelFlag r
                               then g1\<lparr>mReplicationCanceledCount :=
                                          mReplicationCanceledCount g1 + 1\<rparr>
                               else g1\<lparr>mReplicationErrorCount :=
                                          mReplicationErrorCount g1 + 1\<rparr>)
                         else (if mCancelFlag r
                               then g1\<lparr>mRecoveryCanceledCount :=
                                          mRecoveryCanceledCount g1 + 1\<rparr>
                               else g1\<lparr>mRecoveryErrorCount :=
                                          mRecoveryErrorCount g1 + 1\<rparr>))
                   else g1);
             (r3, g3) = UnRef this (r\<lparr>mOwner := None\<rparr>, g2)
         in (r3, emit (Instance this) (SubmitOpResponse owner2) g3))"

definition Terminate ::
  "environment \<Rightarrow> nat \<Rightarrow> ReplicatorImpl \<times> globals \<Rightarrow> ReplicatorImpl \<times> globals" where
  "Terminate E this = (\<lambda>(r, g).
     if mDone r \<and> \<not> mCancelFlag r then
       (let r1 = r\<lparr>handler := H_HandleReplicationDone\<rparr>;
            g1 = emit (Instance this) (ChangeChunkVers (mChunkId r) (mChunkVersion r) True) g;
            res = env_ChangeChunkVers E
        in if res = 0 then (r1, g1)
           else HandleReplicationDone this (Some res) (r1, g1))
     else HandleReplicationDone this (Some (- 1)) (r, g))"

subsection \<open>Reading and writing\<close>

text \<open>
  \<open>HandleReadDone\<close>, in three parts. \<open>HandleReadDone_status\<close> is its beginning: a
  short read that does not reach the end of the chunk becomes the status \<open>-EINVAL\<close>.
\<close>

definition HandleReadDone_status :: "constants \<Rightarrow> ReplicatorImpl \<Rightarrow> ReplicatorImpl" where
  "HandleReadDone_status K r =
     (let numRd = BytesConsumable_ptr (rd_dataBuf r)
      in if rd_status r < 0 then r
         else if \<not> mCancelFlag r \<and> numRd < rd_numBytes r \<and> mOffset r + numRd < mChunkSize r
         then r\<lparr>rd_status := - EINVAL K\<rparr>
         else r)"

text \<open>
  \<open>HandleReadDone_swap\<close> is the part that prepares the write: the buffers of the read
  and of the write are swapped, the write is cut down to whole checksum blocks, and a
  tail that ends the chunk is moved back into the read operation. \<open>WriteOp::Reset\<close>
  clears the status and the byte count of the write.
\<close>

definition HandleReadDone_swap :: "constants \<Rightarrow> ReplicatorImpl \<Rightarrow> ReplicatorImpl" where
  "HandleReadDone_swap K r1 =
     (let numRd = BytesConsumable_ptr (rd_dataBuf r1);
          kChecksumBlockSize = CHECKSUM_BLOCKSIZE K;
          dataBuf = map_option (\<lambda>b. []) (wr_dataBuf r1);
          r2 = r1\<lparr>wr_status := 0, wr_numBytesIO := 0,
                  wr_dataBuf := rd_dataBuf r1, wr_numBytes := numRd,
                  wr_offset := mOffset r1, wr_isFromReReplication := True,
                  rd_dataBuf := dataBuf\<rparr>;
          r3 = (if numRd > kChecksumBlockSize then
                  (let numBytes = c_rem numRd kChecksumBlockSize;
                       endPos = mOffset r2 + numRd;
                       r2' = r2\<lparr>wr_numBytes := numRd - numBytes\<rparr>
                   in if numBytes > 0 \<and> endPos = mChunkSize r2' then
                        (let fresh = (case rd_dataBuf r2' of Some b \<Rightarrow> b | None \<Rightarrow> []);
                             whole = (case wr_dataBuf r2' of Some b \<Rightarrow> b | None \<Rightarrow> []);
                             (wbuf, rbuf, moved) = Move_n fresh whole (wr_numBytes r2')
                         in r2'\<lparr>rd_dataBuf := Some rbuf, wr_dataBuf := Some wbuf,
                                rd_offset := mOffset r2' + wr_numBytes r2',
                                rd_numBytesIO := numBytes, rd_numBytes := numBytes\<rparr>)
                      else r2')
                else r2)
      in r3\<lparr>handler := H_HandleWriteDone\<rparr>)"

definition HandleReadDone ::
  "constants \<Rightarrow> environment \<Rightarrow> nat \<Rightarrow> ReplicatorImpl \<times> globals \<Rightarrow> ReplicatorImpl \<times> globals" where
  "HandleReadDone K E this = (\<lambda>(r, g).
     let r1 = HandleReadDone_status K r
     in if mCancelFlag r1 \<or> rd_status r1 < 0 \<or> mOffset r1 = mChunkSize r1 then
          Terminate E this
            (r1\<lparr>mDone := (mOffset r1 = mChunkSize r1 \<and> rd_status r1 \<ge> 0 \<and>
                           \<not> mCancelFlag r1)\<rparr>, g)
        else
          (let r4 = HandleReadDone_swap K r1;
               g1 = emit (Instance this)
                      (WriteChunk (wr_offset r4) (wr_numBytes r4)
                         (case wr_dataBuf r4 of Some b \<Rightarrow> b | None \<Rightarrow> [])) g
           in if env_WriteChunk E < 0 then Terminate E this (r4, g1) else (r4, g1)))"

text \<open>
  \<open>ReplicatorImpl::Read\<close>. With no peer (a recovery has none) \<open>mPeer->Enqueue\<close>
  dereferences a null pointer: the log gets \<open>NullPeer\<close> in place of the request.
\<close>

definition ReplicatorImpl_Read ::
  "constants \<Rightarrow> environment \<Rightarrow> nat \<Rightarrow> ReplicatorImpl \<times> globals \<Rightarrow> ReplicatorImpl \<times> globals" where
  "ReplicatorImpl_Read K E this = (\<lambda>(r0, g).
     let r = Ref r0
     in UnRef this
          (if mOffset r \<ge> mChunkSize r then
             Terminate E this (r\<lparr>mDone := (mOffset r = mChunkSize r)\<rparr>, g)
           else
             (let r1 = r\<lparr>handler := H_HandleReadDone, rd_status := 0, rd_offset := mOffset r,
                         rd_numBytesIO := 0,
                         rd_numBytes := wrap32 (min (mChunkSize r - mOffset r)
                                                    (kDefaultReplicationReadSize K))\<rparr>
              in (r1, if mPeer r1
                      then emit (Instance this)
                             (Enqueue_Read (mChunkId r1) (rd_chunkVersion r1) (rd_offset r1)
                                (rd_numBytes r1)) g
                      else emit (Instance this) NullPeer g))))"

text \<open>\<open>RSReplicatorImpl::Read\<close>.\<close>

definition RSReplicatorImpl_Read ::
  "constants \<Rightarrow> environment \<Rightarrow> nat \<Rightarrow> ReplicatorImpl \<times> globals \<Rightarrow> ReplicatorImpl \<times> globals" where
  "RSReplicatorImpl_Read K E this = (\<lambda>(r0, g).
     if mOffset r0 \<ge> mChunkSize r0 \<or> rd_status r0 < 0 then ReplicatorImpl_Read K E this (r0, g)
     else
       (let r = Ref r0;
            r1 = r\<lparr>rd_dataBuf := Some [], rd_status := 0, rd_numBytes := mReadSize r,
                    rd_numBytesIO := 0, rd_offset := mOffset r, mReadInFlightFlag := True\<rparr>;
            g1 = emit (Instance this)
                   (Reader_Read (mReadSize r1) (mOffset r1 + BytesConsumable (mReadTail r1))) g;
            st = env_Reader_Read E
        in UnRef this
             (if st \<noteq> 0 \<and> mReadInFlightFlag r1
              then HandleReadDone K E this (r1\<lparr>mReadInFlightFlag := False, rd_status := st\<rparr>, g1)
              else (r1, g1))))"

text \<open>The virtual call \<open>Read()\<close>.\<close>

definition Read ::
  "constants \<Rightarrow> environment \<Rightarrow> nat \<Rightarrow> ReplicatorImpl \<times> globals \<Rightarrow> ReplicatorImpl \<times> globals" where
  "Read K E this = (\<lambda>(r, g).
     if isRS r then RSReplicatorImpl_Read K E this (r, g)
     else ReplicatorImpl_Read K E this (r, g))"

text \<open>\<open>HandleStartDone\<close>; its return value, which no caller reads, is left out.\<close>

definition HandleStartDone ::
  "constants \<Rightarrow> environment \<Rightarrow> nat \<Rightarrow> ReplicatorImpl \<times> globals \<Rightarrow> ReplicatorImpl \<times> globals" where
  "HandleStartDone K E this = (\<lambda>(r, g).
     if mCancelFlag r \<or> md_status r < 0 then Terminate E this (r, g)
     else
       (let r1 = r\<lparr>mChunkSize := md_chunkSize r, mChunkVersion := md_chunkVersion r\<rparr>
        in if mChunkSize r1 < 0 \<or> mChunkSize r1 > CHUNKSIZE K then Terminate E this (r1, g)
           else
             (let r2 = r1\<lparr>rd_chunkVersion := mChunkVersion r1, wr_chunkVersion := 0\<rparr>;
                  g1 = emit (Instance this) (StaleChunk (mChunkId r2) True) g;
                  g2 = emit (Instance this) (AllocChunk (mFileId r2) (mChunkId r2) 0 True) g1
              in if env_AllocChunk E < 0 then Terminate E this (r2, g2)
                 else Read K E this (r2, g2))))"

definition HandleWriteDone ::
  "constants \<Rightarrow> environment \<Rightarrow> nat \<Rightarrow> ReplicatorImpl \<times> globals \<Rightarrow> ReplicatorImpl \<times> globals" where
  "HandleWriteDone K E this = (\<lambda>(r0, g).
     let r = Ref r0
     in UnRef this
          (if mCancelFlag r \<or> wr_status r < 0 then Terminate E this (r, g)
           else
             (let r1 = r\<lparr>mOffset := mOffset r + wr_numBytesIO r\<rparr>
              in if rd_offset r1 = mOffset r1 \<and>
                    (case rd_dataBuf r1 of Some b \<Rightarrow> b \<noteq> [] | None \<Rightarrow> False)
                 then HandleReadDone K E this (r1, g)
                 else Read K E this (r1, g))))"

subsection \<open>Start\<close>

definition ReplicatorImpl_Start ::
  "nat \<Rightarrow> ReplicatorImpl \<times> globals \<Rightarrow> ReplicatorImpl \<times> globals" where
  "ReplicatorImpl_Start this = (\<lambda>(r, g).
     let r1 = r\<lparr>md_chunkId := mChunkId r, md_readVerifyFlag := False,
                 handler := H_HandleStartDone\<rparr>
     in (r1, if mPeer r1
             then emit (Instance this)
                    (Enqueue_GetChunkMetadata (md_chunkId r1) (md_readVerifyFlag r1)) g
             else emit (Instance this) NullPeer g))"

definition RSReplicatorImpl_Start ::
  "constants \<Rightarrow> environment \<Rightarrow> nat \<Rightarrow> ReplicatorImpl \<times> globals \<Rightarrow> ReplicatorImpl \<times> globals" where
  "RSReplicatorImpl_Start K E this = (\<lambda>(r, g).
     case mOwner r of
       None \<Rightarrow> (r, emit (Instance this) NullOwner g)
     | Some owner \<Rightarrow>
         let r1 = r\<lparr>md_chunkSize := CHUNKSIZE K, md_chunkVersion := chunkVersion owner,
                     rd_status := 0, rd_numBytes := 0\<rparr>;
             g1 = emit (Instance this)
                    (Reader_Open (mFileId r1) (fileSize owner) (striperType owner)
                       (stripeSize owner) (numStripes owner) (numRecoveryStripes owner)
                       (chunkOffset owner)) g
         in HandleStartDone K E this (r1\<lparr>md_status := env_Reader_Open E\<rparr>, g1))"

text \<open>The virtual call \<open>Start()\<close>.\<close>

definition Start ::
  "constants \<Rightarrow> environment \<Rightarrow> nat \<Rightarrow> ReplicatorImpl \<times> globals \<Rightarrow> ReplicatorImpl \<times> globals" where
  "Start K E this = (\<lambda>(r, g).
     if isRS r then RSReplicatorImpl_Start K E this (r, g)
     else ReplicatorImpl_Start this (r, g))"

text \<open>
  \<open>Granted\<close>, the callback of the buffer manager, which has taken the client off its
  wait queue.
\<close>

definition Granted ::
  "constants \<Rightarrow> environment \<Rightarrow> nat \<Rightarrow> int \<Rightarrow> ReplicatorImpl \<times> globals \<Rightarrow> ReplicatorImpl \<times> globals" where
  "Granted K E this byteCount = (\<lambda>(r, g). Start K E this (r\<lparr>waiting := False\<rparr>, g))"

subsection \<open>Cancellation\<close>

definition ReplicatorImpl_Cancel ::
  "environment \<Rightarrow> nat \<Rightarrow> ReplicatorImpl \<times> globals \<Rightarrow> ReplicatorImpl \<times> globals" where
  "ReplicatorImpl_Cancel E this = (\<lambda>(r, g).
     let r1 = r\<lparr>mCancelFlag := True\<rparr>
     in if waiting r1
        then Terminate E this (r1\<lparr>waiting := False\<rparr>, emit (Instance this) CancelRequest g)
        else (r1, g))"

definition RSReplicatorImpl_Cancel ::
  "constants \<Rightarrow> environment \<Rightarrow> nat \<Rightarrow> ReplicatorImpl \<times> globals \<Rightarrow> ReplicatorImpl \<times> globals" where
  "RSReplicatorImpl_Cancel K E this = (\<lambda>(r0, g0).
     let r = Ref r0;
         prevRef = refCount r;
         g1 = emit (Instance this) Reader_Shutdown (emit (Instance this) Reader_Unregister g0);
         (r2, g2) = ReplicatorImpl_Cancel E this (r, g1)
     in UnRef this
          (if mReadInFlightFlag r2 \<and> prevRef \<le> refCount r2
           then HandleReadDone K E this
                  (r2\<lparr>mReadInFlightFlag := False, rd_status := - ETIMEDOUT K\<rparr>, g2)
           else (r2, g2)))"

text \<open>The virtual call \<open>Cancel()\<close>.\<close>

definition Cancel ::
  "constants \<Rightarrow> environment \<Rightarrow> nat \<Rightarrow> ReplicatorImpl \<times> globals \<Rightarrow> ReplicatorImpl \<times> globals" where
  "Cancel K E this = (\<lambda>(r, g).
     if isRS r then RSReplicatorImpl_Cancel K E this (r, g)
     else ReplicatorImpl_Cancel E this (r, g))"

subsection \<open>Run\<close>

text \<open>The virtual call \<open>GetBufferBytesRequired()\<close>.\<close>

definition GetBufferBytesRequired :: "constants \<Rightarrow> ReplicatorImpl \<Rightarrow> int" where
  "GetBufferBytesRequired K r =
     (if isRS r
      then wrap32 (mReadSize r *
             (case mOwner r of Some owner \<Rightarrow> wrap32 (numStripes owner + 1) | None \<Rightarrow> 0))
      else kDefaultReplicationReadSize K)"

text \<open>
  The second half of \<open>ReplicatorImpl::Run\<close>, from \<open>kChunkHeaderSize\<close> on: the request
  for buffers.
\<close>

definition Run_buffers ::
  "constants \<Rightarrow> environment \<Rightarrow> nat \<Rightarrow> ReplicatorImpl \<times> globals \<Rightarrow> ReplicatorImpl \<times> globals" where
  "Run_buffers K E this = (\<lambda>(r, g).
     let kChunkHeaderSize = 16 * 1024;
         bufBytes = max kChunkHeaderSize (GetBufferBytesRequired K r);
         g1 = emit (Instance this) (IsOverQuota bufBytes) g
     in if env_IsOverQuota E then Terminate E this (r, g1)
        else
          (let g2 = emit (Instance this) (GetForDiskIo bufBytes) g1
           in if env_GetForDiskIo E then Start K E this (r, g2)
              else (r\<lparr>waiting := True\<rparr>, g2)))"

section \<open>The chunk server's replicators\<close>

text \<open>
  The replicators that exist, by address, the statics, and the next free address.
  \<open>died\<close> is set when \<open>die\<close> has stopped the process, or when its behaviour has
  become undefined.
\<close>

record system =
  heap :: "nat \<Rightarrow> ReplicatorImpl option"
  glob :: globals
  nextId :: nat
  died :: bool

text \<open>Writes an object back; a deleted object leaves the heap.\<close>

definition store :: "nat \<Rightarrow> ReplicatorImpl \<times> globals \<Rightarrow> system \<Rightarrow> system" where
  "store this = (\<lambda>(r, g) s.
     s\<lparr>heap := (heap s)(this := (if deleted r then None else Some r)), glob := g\<rparr>)"

text \<open>
  The first half of \<open>ReplicatorImpl::Run\<close>, the registration, in parts.
  \<open>Run_cancel_other\<close> is \<open>other.Cancel()\<close> for the replicator the registry holds for
  the chunk, which may be this one; a replicator deleted by its cancellation leaves the
  heap.
\<close>

definition Run_cancel_other ::
  "constants \<Rightarrow> environment \<Rightarrow> nat \<Rightarrow> ReplicatorImpl \<Rightarrow> system \<Rightarrow> ReplicatorImpl \<times> system" where
  "Run_cancel_other K E this me s =
     (let other = the (registry_find (sInFlightReplications (glob s)) (mChunkId me))
      in if other = this then
           (let (me', g') = Cancel K E this (me, glob s) in (me', s\<lparr>glob := g'\<rparr>))
         else
           (case heap s other of
              None \<Rightarrow> (me, s)
            | Some otherObj \<Rightarrow> (me, store other (Cancel K E other (otherObj, glob s)) s)))"

text \<open>The second \<open>insert\<close> of \<open>Run\<close>, and the assignment to the entry when it fails.\<close>

definition registry_reinsert :: "(int \<times> nat) list \<Rightarrow> int \<Rightarrow> nat \<Rightarrow> (int \<times> nat) list" where
  "registry_reinsert reg k v =
     (let (reg2, inserted2) = registry_insert reg k v
      in if inserted2 then reg2 else registry_assign reg2 k v)"

text \<open>
  The result of \<open>Run_register\<close> tells whether \<open>Run\<close> has returned there (the
  replicator found itself registered and canceled).
\<close>

definition Run_register ::
  "constants \<Rightarrow> environment \<Rightarrow> nat \<Rightarrow> ReplicatorImpl \<Rightarrow> system \<Rightarrow> (ReplicatorImpl \<times> system) \<times> bool" where
  "Run_register K E this me s =
     (let g = glob s;
          (reg1, inserted) = registry_insert (sInFlightReplications g) (mChunkId me) this
      in if inserted then
           ((me, s\<lparr>glob := g\<lparr>sInFlightReplications := reg1,
                               sReplicationCount := sReplicationCount g + 1\<rparr>\<rparr>), False)
         else
           (let (me1, s1) = Run_cancel_other K E this me s;
                g1 = glob s1;
                s2 = s1\<lparr>glob := g1\<lparr>sInFlightReplications :=
                                   registry_reinsert (sInFlightReplications g1) (mChunkId me1) this\<rparr>\<rparr>
            in if mCancelFlag me1 then
                 (let (me2, g2) = Terminate E this (me1\<lparr>mCancelFlag := False\<rparr>, glob s2)
                  in ((me2, s2\<lparr>glob := g2\<rparr>), True))
               else ((me1, s2), False)))"

text \<open>\<open>ReplicatorImpl::Run\<close> of the replicator at \<open>this\<close>.\<close>

definition Run :: "constants \<Rightarrow> environment \<Rightarrow> nat \<Rightarrow> system \<Rightarrow> system" where
  "Run K E this s =
     (case heap s this of
        None \<Rightarrow> s
      | Some me \<Rightarrow>
          let ((me1, s1), returned) = Run_register K E this me s
          in if returned then store this (me1, glob s1) s1
             else store this (Run_buffers K E this (me1, glob s1)) s1)"

text \<open>
  The dispatcher \<open>Replicator::Run(op)\<close>. \<open>env_peer\<close> tells whether a peer was found
  or connected.
\<close>

definition Replicator_Run :: "constants \<Rightarrow> environment \<Rightarrow> ReplicateChunkOp \<Rightarrow> system \<Rightarrow> system" where
  "Replicator_Run K E op s =
     (let g = glob s in
      if location_IsValid op then
        (let g1 = g\<lparr>mReplicationCount := mReplicationCount g + 1\<rparr>
         in if \<not> env_peer E then
              s\<lparr>glob := emit Dispatcher (SubmitOpResponse (op\<lparr>status := - 1\<rparr>))
                          (g1\<lparr>mReplicationErrorCount := mReplicationErrorCount g1 + 1\<rparr>)\<rparr>
            else
              (let impl = Ref (ReplicatorImpl_new E op True);
                   this = nextId s
               in Run K E this
                    (s\<lparr>heap := (heap s)(this := Some impl),
                       glob := g1\<lparr>mReplicatorCount := mReplicatorCount g1 + 1\<rparr>,
                       nextId := Suc this\<rparr>)))
      else
        (let g1 = g\<lparr>mRecoveryCount := mRecoveryCount g + 1\<rparr>
         in if Run_invalid_request K op then
              s\<lparr>glob := emit Dispatcher (SubmitOpResponse (op\<lparr>status := - EINVAL K\<rparr>))
                          (g1\<lparr>mRecoveryErrorCount := mRecoveryErrorCount g1 + 1\<rparr>)\<rparr>
            else
              (let impl = Ref (RSReplicatorImpl_new K E op);
                   this = nextId s
               in Run K E this
                    (s\<lparr>heap := (heap s)(this := Some impl),
                       glob := g1\<lparr>mReplicatorCount := mReplicatorCount g1 + 1\<rparr>,
                       nextId := Suc this\<rparr>))))"

section \<open>Completions of the striped reader\<close>

text \<open>\<open>die\<close> (utils.h) logs its message and stops the process.\<close>

datatype fatal = Die string

text \<open>Decimal output of an integer, as \<open>ostream\<close> writes it.\<close>

definition digit_char :: "nat \<Rightarrow> char" where
  "digit_char d = char_of (48 + d)"

function show_nat :: "nat \<Rightarrow> string" where
  "show_nat n = (if n < 10 then [digit_char n] else show_nat (n div 10) @ [digit_char (n mod 10)])"
  by pat_completeness auto
termination
  by (relation "measure (\<lambda>n. n)") auto

declare show_nat.simps [simp del]

definition show_int :: "int \<Rightarrow> string" where
  "show_int i = (if i < 0 then CHR ''-'' # show_nat (nat (- i)) else show_nat (nat i))"

text \<open>
  \<open>ReadVal\<close> copies \<open>sizeof(val)\<close> bytes out of the buffer into \<open>val\<close> and consumes
  them. \<open>dec\<close> reads the object representation of a signed integer: it belongs to the
  host, and is a parameter.
\<close>

definition ReadVal :: "(byte list \<Rightarrow> int) \<Rightarrow> nat \<Rightarrow> IOBuffer \<Rightarrow> fatal + (int \<times> IOBuffer)" where
  "ReadVal dec len buf =
     (let copied = take len buf;
          rest = drop (length copied) buf
      in if length copied \<noteq> len then Inl (Die ''invalid buffer size'')
         else Inr (dec copied, rest))"

text \<open>
  The loop of \<open>Done\<close> that reports the invalid stripes: \<open>n\<close> and \<open>os\<close> are the
  count and the text so far.
\<close>

function bad_stripes_loop ::
  "(byte list \<Rightarrow> int) \<Rightarrow> int \<Rightarrow> IOBuffer \<Rightarrow> int \<Rightarrow> string \<Rightarrow> fatal + (int \<times> string)" where
  "bad_stripes_loop dec ns buf n os =
     (if buf = [] then Inr (n, os)
      else if n \<ge> ns then Inl (Die ''recovery: completion: invalid number of bad stripes'')
      else
        (case ReadVal dec 4 buf of
           Inl e \<Rightarrow> Inl e
         | Inr (idx, b1) \<Rightarrow>
             (case ReadVal dec 8 b1 of
                Inl e \<Rightarrow> Inl e
              | Inr (cid, b2) \<Rightarrow>
                  (case ReadVal dec 8 b2 of
                     Inl e \<Rightarrow> Inl e
                   | Inr (ver, b3) \<Rightarrow>
                       if idx < 0 \<or> idx \<ge> ns
                       then Inl (Die ''recovery: completion: invalid bad stripe index'')
                       else bad_stripes_loop dec ns b3 (n + 1)
                              (os @ (if n > 0 then '' '' else '''') @ show_int idx @
                               '' '' @ show_int cid @ '' '' @ show_int ver)))))"
  by pat_completeness auto
termination
proof (relation "measure (\<lambda>(dec, ns, buf, n, os). length buf)")
  show "wf (measure (\<lambda>(dec, ns, buf, n, os). length buf))" by simp
next
  fix dec :: "byte list \<Rightarrow> int" and ns n :: int and buf b1 b2 b3 :: IOBuffer and os :: string
    and x1 x2 x3 :: "int \<times> IOBuffer" and idx cid ver :: int
  assume "buf \<noteq> []"
    and r1: "ReadVal dec 4 buf = Inr x1" and x1: "(idx, b1) = x1"
    and r2: "ReadVal dec 8 b1 = Inr x2" and x2: "(cid, b2) = x2"
    and r3: "ReadVal dec 8 b2 = Inr x3" and x3: "(ver, b3) = x3"
  have sh: "\<And>len b v b'. ReadVal dec len b = Inr (v, b') \<Longrightarrow> length b' + len = length b"
    by (auto simp: ReadVal_def Let_def split: if_splits)
  from r1 x1 have "length b1 + 4 = length buf" by (intro sh[of 4 buf idx b1]) simp
  moreover from r2 x2 have "length b2 + 8 = length b1" by (intro sh[of 8 b1 cid b2]) simp
  moreover from r3 x3 have "length b3 + 8 = length b2" by (intro sh[of 8 b2 ver b3]) simp
  ultimately show "((dec, ns, b3, n + 1, os @ (if 0 < n then '' '' else '''') @ show_int idx @
       '' '' @ show_int cid @ '' '' @ show_int ver), dec, ns, buf, n, os)
      \<in> measure (\<lambda>(dec, ns, buf, n, os). length buf)"
    by simp
qed

declare bad_stripes_loop.simps [simp del]

text \<open>
  The report of the invalid stripes in the words of the specification: the bytes are
  consecutive triplets \<open>(stripeIdx, chunkId, chunkVersion)\<close>, fields of 4, 8 and 8
  bytes, and the text is their decimal rendering, separated by single spaces, in the
  order of the buffer.
\<close>

fun spec_triplets :: "(byte list \<Rightarrow> int) \<Rightarrow> IOBuffer \<Rightarrow> (int \<times> int \<times> int) list" where
  "spec_triplets dec buf =
     (if length buf < 20 then []
      else (dec (take 4 buf), dec (take 8 (drop 4 buf)), dec (take 8 (drop 12 buf))) #
           spec_triplets dec (drop 20 buf))"

declare spec_triplets.simps [simp del]

fun join_spaces :: "string list \<Rightarrow> string" where
  "join_spaces [] = []"
| "join_spaces [x] = x"
| "join_spaces (x # y # zs) = x @ '' '' @ join_spaces (y # zs)"

definition spec_rendering :: "(int \<times> int \<times> int) list \<Rightarrow> string" where
  "spec_rendering ts =
     join_spaces (concat (map (\<lambda>(idx, cid, ver). [show_int idx, show_int cid, show_int ver]) ts))"

text \<open>
  \<open>RSReplicatorImpl::Done\<close>, the completion of the striped reader, in parts.
  \<open>inReaderIsMine\<close> is \<open>&inReader == &mReader\<close>, \<open>inRequestIdIsThis\<close> is
  \<open>inRequestId.mPtr == this\<close>. \<open>Done_invalid\<close> is the condition under which
  \<open>Done\<close> calls \<open>die\<close>.
\<close>

definition Done_invalid ::
  "ReplicatorImpl \<Rightarrow> bool \<Rightarrow> int \<Rightarrow> int \<Rightarrow> IOBuffer option \<Rightarrow> bool \<Rightarrow> bool" where
  "Done_invalid r inReaderIsMine inOffset inSize inBufferPtr inRequestIdIsThis =
     (\<not> inReaderIsMine \<or>
      (inBufferPtr \<noteq> None \<and>
        (\<not> inRequestIdIsThis \<or> inOffset < 0 \<or>
         (case mOwner r of Some owner \<Rightarrow> chunkOffset owner + mOffset r \<noteq> inOffset
                         | None \<Rightarrow> False) \<or>
         inSize > rd_numBytes r \<or> \<not> mReadInFlightFlag r)))"

text \<open>
  The end of the chunk: the tail kept from the reads before and the buffer become the
  data of the read operation, and the chunk size is set to where they end.
\<close>

definition Done_end_of_chunk :: "ReplicatorImpl \<Rightarrow> IOBuffer \<Rightarrow> ReplicatorImpl" where
  "Done_end_of_chunk r2 inBuf =
     (let buf = mReadTail r2 @ inBuf
      in r2\<lparr>rd_dataBuf := Some buf, mReadTail := [],
             rd_numBytes := BytesConsumable buf, rd_numBytesIO := BytesConsumable buf,
             mChunkSize := mOffset r2 + BytesConsumable buf\<rparr>)"

text \<open>
  Before the end of the chunk: \<open>nmv\<close> bytes, whole checksum blocks, of the tail and the
  buffer become the data of the read operation; the rest is the new tail.
\<close>

definition Done_move_blocks :: "ReplicatorImpl \<Rightarrow> IOBuffer \<Rightarrow> int \<Rightarrow> ReplicatorImpl" where
  "Done_move_blocks r2 inBuf nmv =
     (let (buf1, tail1, moved) = Move_n [] (mReadTail r2) nmv;
          (buf2, in1, moved2) = Move_n buf1 inBuf (nmv - moved)
      in r2\<lparr>rd_dataBuf := Some buf2, mReadTail := tail1 @ in1,
             rd_numBytes := BytesConsumable buf2, rd_numBytesIO := BytesConsumable buf2\<rparr>)"

text \<open>
  The part of \<open>Done\<close> after \<open>mReadOp.status = inStatusCode\<close>, for a read that was in
  flight; \<open>owner\<close> is \<open>mOwner\<close>, which is not null there.
\<close>

definition Done_completion ::
  "constants \<Rightarrow> environment \<Rightarrow> (byte list \<Rightarrow> int) \<Rightarrow> nat \<Rightarrow> int \<Rightarrow> IOBuffer option \<Rightarrow>
   ReplicateChunkOp \<Rightarrow> ReplicatorImpl \<times> globals \<Rightarrow> fatal + (ReplicatorImpl \<times> globals)" where
  "Done_completion K E dec this inStatusCode inBufferPtr owner = (\<lambda>(r2, g).
     case inBufferPtr of
       Some inBuf \<Rightarrow>
         if rd_status r2 = 0 then
           (let endOfChunk =
                  (mReadSize r2 > BytesConsumable inBuf \<or>
                   mOffset r2 + mReadSize r2 \<ge> mChunkSize r2)
            in if endOfChunk then
                 (let r3 = Done_end_of_chunk r2 inBuf;
                      g1 = emit (Instance this) Reader_Close g;
                      r4 = (if env_Reader_IsActive E
                            then Ref (r3\<lparr>mPendingCloseFlag := True\<rparr>) else r3)
                  in Inr (HandleReadDone K E this (r4, g1)))
               else
                 (let kChecksumBlockSize = CHECKSUM_BLOCKSIZE K;
                      nmv = c_div (BytesConsumable (mReadTail r2) + BytesConsumable inBuf)
                              kChecksumBlockSize * kChecksumBlockSize
                  in if nmv \<le> 0 then
                       Inr (Read K E this
                              (r2\<lparr>rd_dataBuf := Some [], mReadTail := mReadTail r2 @ inBuf\<rparr>, g))
                     else Inr (HandleReadDone K E this (Done_move_blocks r2 inBuf nmv, g))))
         else if inStatusCode < 0 \<and> inBuf \<noteq> [] then
           (let ns = wrap32 (numStripes owner + numRecoveryStripes owner)
            in case bad_stripes_loop dec ns inBuf 0 [] of
                 Inl e \<Rightarrow> Inl e
               | Inr (n, os) \<Rightarrow>
                   Inr (HandleReadDone K E this
                          (if n > 0
                           then r2\<lparr>mOwner := Some (owner\<lparr>invalidStripeIdx := os\<rparr>)\<rparr>
                           else r2, g)))
         else Inr (HandleReadDone K E this (r2, g))
     | None \<Rightarrow> Inr (HandleReadDone K E this (r2, g)))"

text \<open>
  \<open>Done_body\<close> is \<open>Done\<close> inside the scope of its \<open>StRef\<close>. The result is \<open>Inl\<close>
  when \<open>die\<close> is called.
\<close>

definition Done_body ::
  "constants \<Rightarrow> environment \<Rightarrow> (byte list \<Rightarrow> int) \<Rightarrow> nat \<Rightarrow> bool \<Rightarrow> int \<Rightarrow> int \<Rightarrow> int \<Rightarrow>
   IOBuffer option \<Rightarrow> bool \<Rightarrow> ReplicatorImpl \<times> globals \<Rightarrow> fatal + (ReplicatorImpl \<times> globals)" where
  "Done_body K E dec this inReaderIsMine inStatusCode inOffset inSize inBufferPtr
       inRequestIdIsThis = (\<lambda>(r, g).
     if Done_invalid r inReaderIsMine inOffset inSize inBufferPtr inRequestIdIsThis
     then Inl (Die ''recovery: invalid read completion'')
     else if mPendingCloseFlag r then
       (if \<not> env_Reader_IsActive E
        then Inr (UnRef this (r\<lparr>mPendingCloseFlag := False\<rparr>, g))
        else Inr (r, g))
     else if \<not> mReadInFlightFlag r then
       Inr (if rd_status r \<ge> 0 \<and> inStatusCode < 0 then r\<lparr>rd_status := inStatusCode\<rparr> else r, g)
     else
       (let r1 = r\<lparr>mReadInFlightFlag := False\<rparr>
        in case mOwner r1 of
             None \<Rightarrow> Inr (r1, g)
           | Some owner \<Rightarrow>
               if rd_status r1 \<noteq> 0 \<or> (inBufferPtr = None \<and> inStatusCode = 0) then Inr (r1, g)
               else Done_completion K E dec this inStatusCode inBufferPtr owner
                      (r1\<lparr>rd_status := inStatusCode\<rparr>, g)))"

definition Done ::
  "constants \<Rightarrow> environment \<Rightarrow> (byte list \<Rightarrow> int) \<Rightarrow> nat \<Rightarrow> bool \<Rightarrow> int \<Rightarrow> int \<Rightarrow> int \<Rightarrow>
   IOBuffer option \<Rightarrow> bool \<Rightarrow> ReplicatorImpl \<times> globals \<Rightarrow> fatal + (ReplicatorImpl \<times> globals)" where
  "Done K E dec this inReaderIsMine inStatusCode inOffset inSize inBufferPtr
       inRequestIdIsThis = (\<lambda>(r, g).
     case Done_body K E dec this inReaderIsMine inStatusCode inOffset inSize inBufferPtr
            inRequestIdIsThis (Ref r, g) of
       Inl e \<Rightarrow> Inl e
     | Inr rg \<Rightarrow> Inr (UnRef this rg))"

section \<open>Events of the chunk server\<close>

text \<open>
  \<open>ReplicatorImpl::CancelAll\<close> walks the map with an iterator and calls \<open>Cancel\<close> on
  each replicator. A replicator that \<open>Cancel\<close> ends and destroys (one that waits for
  buffers) erases, in its destructor, the node the iterator is at; the \<open>++it\<close> that
  follows is undefined. \<open>CancelAll_loop\<close> goes on to the next entry while the entry it
  has just visited is still in the map, and ends the run of the process otherwise
  (\<open>died\<close>), nothing being known of what follows.
\<close>

definition on_instance ::
  "nat \<Rightarrow> (ReplicatorImpl \<Rightarrow> bool) \<Rightarrow> (ReplicatorImpl \<times> globals \<Rightarrow> ReplicatorImpl \<times> globals) \<Rightarrow>
   system \<Rightarrow> system" where
  "on_instance this guard f s =
     (case heap s this of
        None \<Rightarrow> s
      | Some r \<Rightarrow> if guard r then store this (f (r, glob s)) s else s)"

fun CancelAll_loop ::
  "constants \<Rightarrow> environment \<Rightarrow> (int \<times> nat) list \<Rightarrow> system \<Rightarrow> system" where
  "CancelAll_loop K E [] s = s"
| "CancelAll_loop K E ((k, a) # es) s =
     (let s1 = on_instance a (\<lambda>r. True) (Cancel K E a) s
      in if registry_find (sInFlightReplications (glob s1)) k = Some a
         then CancelAll_loop K E es s1
         else s1\<lparr>died := True\<rparr>)"

definition CancelAll :: "constants \<Rightarrow> environment \<Rightarrow> system \<Rightarrow> system" where
  "CancelAll K E s =
     (let s1 = CancelAll_loop K E (sInFlightReplications (glob s)) s
      in if died s1 then s1 else s1\<lparr>glob := (glob s1)\<lparr>sReplicationCount := 0\<rparr>\<rparr>)"

text \<open>
  What reaches the replicators: a request of the meta server, the grant of the buffer
  manager, the completion of the operation a replicator waits for (with what the
  collaborator has written into the operation), a completion of the striped reader, and
  \<open>CancelAll\<close>. A completion is delivered to the replicator that exists at the address
  and has the operation outstanding: its handler is the one \<open>SET_HANDLER\<close> has set for
  that operation, and it still has its owner.
\<close>

datatype event =
    Ev_Run ReplicateChunkOp
  | Ev_Granted nat int
  | Ev_MetadataDone nat int int int
  | Ev_ReadDone nat int "IOBuffer option"
  | Ev_WriteDone nat int int
  | Ev_ChangeChunkVersDone nat "int option"
  | Ev_ReaderDone nat bool int int int "IOBuffer option" bool
  | Ev_CancelAll

definition deliver ::
  "constants \<Rightarrow> (byte list \<Rightarrow> int) \<Rightarrow> system \<Rightarrow> environment \<times> event \<Rightarrow> system" where
  "deliver K dec s = (\<lambda>(E, ev).
     if died s then s
     else
       (case ev of
          Ev_Run op \<Rightarrow> Replicator_Run K E op s
        | Ev_Granted this byteCount \<Rightarrow>
            on_instance this waiting (Granted K E this byteCount) s
        | Ev_MetadataDone this st sz ver \<Rightarrow>
            on_instance this
              (\<lambda>r. \<not> isRS r \<and> mOwner r \<noteq> None \<and> handler r = H_HandleStartDone)
              (\<lambda>(r, g). HandleStartDone K E this
                 (r\<lparr>md_status := st, md_chunkSize := sz, md_chunkVersion := ver\<rparr>, g)) s
        | Ev_ReadDone this st dat \<Rightarrow>
            on_instance this
              (\<lambda>r. \<not> isRS r \<and> mOwner r \<noteq> None \<and> handler r = H_HandleReadDone)
              (\<lambda>(r, g). HandleReadDone K E this (r\<lparr>rd_status := st, rd_dataBuf := dat\<rparr>, g)) s
        | Ev_WriteDone this st n \<Rightarrow>
            on_instance this
              (\<lambda>r. mOwner r \<noteq> None \<and> handler r = H_HandleWriteDone \<and> \<not> mReadInFlightFlag r)
              (\<lambda>(r, g). HandleWriteDone K E this (r\<lparr>wr_status := st, wr_numBytesIO := n\<rparr>, g)) s
        | Ev_ChangeChunkVersDone this dat \<Rightarrow>
            on_instance this
              (\<lambda>r. mOwner r \<noteq> None \<and> handler r = H_HandleReplicationDone)
              (HandleReplicationDone this dat) s
        | Ev_ReaderDone this mine st off sz buf req \<Rightarrow>
            (case heap s this of
               None \<Rightarrow> s
             | Some r \<Rightarrow>
                 if isRS r then
                   (case Done K E dec this mine st off sz buf req (r, glob s) of
                      Inl e \<Rightarrow> s\<lparr>died := True\<rparr>
                    | Inr rg \<Rightarrow> store this rg s)
                 else s)
        | Ev_CancelAll \<Rightarrow> CancelAll K E s))"

text \<open>The chunk server after a sequence of events, from a state \<open>s\<close>.\<close>

definition run_events ::
  "constants \<Rightarrow> (byte list \<Rightarrow> int) \<Rightarrow> system \<Rightarrow> (environment \<times> event) list \<Rightarrow> system" where
  "run_events K dec s evs = foldl (deliver K dec) s evs"

subsection \<open>Reading the log\<close>

definition calls_of :: "caller \<Rightarrow> (caller \<times> effect) list \<Rightarrow> effect list" where
  "calls_of c tr = map snd (filter (\<lambda>(c', e). c' = c) tr)"

fun is_ReplicationDone :: "effect \<Rightarrow> bool" where
  "is_ReplicationDone (ReplicationDone c st) = True"
| "is_ReplicationDone e = False"

fun is_SubmitOpResponse :: "effect \<Rightarrow> bool" where
  "is_SubmitOpResponse (SubmitOpResponse op) = True"
| "is_SubmitOpResponse e = False"

fun is_ChangeChunkVers :: "effect \<Rightarrow> bool" where
  "is_ChangeChunkVers (ChangeChunkVers c v st) = True"
| "is_ChangeChunkVers e = False"

fun is_WriteChunk :: "effect \<Rightarrow> bool" where
  "is_WriteChunk (WriteChunk off n b) = True"
| "is_WriteChunk e = False"

text \<open>
  The calls that queue the client for buffers, reach a peer or the striped reader, or
  touch the chunk store.
\<close>

fun is_io :: "effect \<Rightarrow> bool" where
  "is_io (GetForDiskIo n) = True"
| "is_io (Enqueue_GetChunkMetadata c f) = True"
| "is_io (Enqueue_Read c v off n) = True"
| "is_io (StaleChunk c f) = True"
| "is_io (AllocChunk f c v b) = True"
| "is_io (WriteChunk off n b) = True"
| "is_io (ChangeChunkVers c v st) = True"
| "is_io (Reader_Open f sz t ss n nr off) = True"
| "is_io (Reader_Read n off) = True"
| "is_io e = False"


subsection \<open>What a replicator that ends reports\<close>

text \<open>The calls \<open>UnRef\<close> adds to the log: those of the destructor of a recovery.\<close>

definition UnRef_calls :: "nat \<Rightarrow> ReplicatorImpl \<Rightarrow> (caller \<times> effect) list" where
  "UnRef_calls this r =
     (if refCount r = 1 \<and> isRS r
      then [(Instance this, Reader_Register0), (Instance this, Reader_Shutdown)] else [])"

text \<open>The request as \<open>HandleReplicationDone\<close> hands it back for a status \<open>st\<close>.\<close>

definition reply :: "ReplicatorImpl \<Rightarrow> ReplicateChunkOp \<Rightarrow> int \<Rightarrow> ReplicateChunkOp" where
  "reply r owner st =
     owner\<lparr>status := (if st \<ge> 0 then 0 else - 1),
           chunkVersion := (if \<not> mCancelFlag r \<and> st \<ge> 0 then mChunkVersion r else - 1)\<rparr>"

text \<open>Whether \<open>HandleReplicationDone\<close> calls \<open>ReplicationDone\<close>.\<close>

definition notified :: "nat \<Rightarrow> ReplicatorImpl \<Rightarrow> globals \<Rightarrow> bool" where
  "notified this r g =
     (\<not> mCancelFlag r \<or> registry_find (sInFlightReplications g) (mChunkId r) = Some this)"

text \<open>The calls logged between two states of the statics.\<close>

definition calls_since :: "globals \<Rightarrow> globals \<Rightarrow> effect list" where
  "calls_since g g' = map snd (drop (length (trace g)) (trace g'))"

subsection \<open>What every step of a replicator keeps\<close>

text \<open>
  \<open>frame this (r, g) (r', g')\<close> relates a replicator and the statics before and after
  a step of the replicator at \<open>this\<close>: the log grows by calls of that replicator, the
  registry is unchanged or loses the entry of the replicator's chunk, the replicator
  keeps its chunk and its kind and stays canceled once it is, a response is submitted
  exactly when the request is released, and \<open>ReplicationDone\<close> is called at most as
  often as a response is submitted.
\<close>

definition owned :: "ReplicatorImpl \<Rightarrow> nat" where
  "owned r = (if mOwner r = None then 0 else 1)"

definition frame :: "nat \<Rightarrow> ReplicatorImpl \<times> globals \<Rightarrow> ReplicatorImpl \<times> globals \<Rightarrow> bool" where
  "frame this = (\<lambda>(r, g) (r', g').
     take (length (trace g)) (trace g') = trace g \<and>
     (\<forall>x \<in> set (drop (length (trace g)) (trace g')). fst x = Instance this) \<and>
     (sInFlightReplications g' = sInFlightReplications g \<or>
      sInFlightReplications g' = registry_erase (sInFlightReplications g) (mChunkId r)) \<and>
     mChunkId r' = mChunkId r \<and> isRS r' = isRS r \<and>
     (mCancelFlag r \<longrightarrow> mCancelFlag r') \<and>
     owned r = owned r' + length (filter is_SubmitOpResponse (calls_since g g')) \<and>
     length (filter is_ReplicationDone (calls_since g g')) \<le>
       length (filter is_SubmitOpResponse (calls_since g g')))"

subsection \<open>The version a replicator commits\<close>

text \<open>
  \<open>commits_only c v es\<close>: every \<open>ChangeChunkVers\<close> among the calls \<open>es\<close> is for
  chunk \<open>c\<close>, version \<open>v\<close>, stable. \<open>reports_only v es\<close>: every response among them
  carries the chunk version \<open>v\<close> or -1. \<open>version_kept\<close> relates the states around a
  step that keeps \<open>mChunkVersion\<close> and commits and reports no other version.
\<close>

definition commits_only :: "int \<Rightarrow> int \<Rightarrow> effect list \<Rightarrow> bool" where
  "commits_only c v es = (\<forall>e \<in> set es. is_ChangeChunkVers e \<longrightarrow> e = ChangeChunkVers c v True)"

definition reports_only :: "int \<Rightarrow> effect list \<Rightarrow> bool" where
  "reports_only v es =
     (\<forall>e \<in> set es. case e of
                      SubmitOpResponse op \<Rightarrow> chunkVersion op = v \<or> chunkVersion op = - 1
                    | _ \<Rightarrow> True)"

definition version_kept ::
  "nat \<Rightarrow> ReplicatorImpl \<times> globals \<Rightarrow> ReplicatorImpl \<times> globals \<Rightarrow> bool" where
  "version_kept this = (\<lambda>(r, g) (r', g').
     frame this (r, g) (r', g') \<and>
     mChunkVersion r' = mChunkVersion r \<and>
     commits_only (mChunkId r) (mChunkVersion r) (calls_since g g') \<and>
     reports_only (mChunkVersion r) (calls_since g g'))"

subsection \<open>The registry holds one entry for a chunk\<close>

definition registry_distinct :: "system \<Rightarrow> bool" where
  "registry_distinct s = distinct (map fst (sInFlightReplications (glob s)))"

text \<open>The replicators of the registry were constructed: their addresses are below the next.\<close>

definition registry_fresh :: "system \<Rightarrow> bool" where
  "registry_fresh s = (\<forall>x \<in> set (sInFlightReplications (glob s)). snd x < nextId s)"

section \<open>Example values\<close>

text \<open>
  Values of the constants as the Quantcast file system sets them (64 KiB checksum
  blocks, 64 MiB chunks, 4 KiB buffers and stripe alignment), and a recovery request.
\<close>

definition example_constants :: constants where
  "example_constants =
     \<lparr>CHECKSUM_BLOCKSIZE = 65536, CHUNKSIZE = 67108864, KFS_MIN_STRIPE_SIZE = 4096,
      KFS_MAX_STRIPE_SIZE = 67108864, KFS_STRIPE_ALIGNMENT = 4096,
      KFS_STRIPED_FILE_TYPE_RS = 2, EINVAL = 22, ETIMEDOUT = 110, DefaultBufferSize = 4096\<rparr>"

definition example_recovery_op :: ReplicateChunkOp where
  "example_recovery_op =
     \<lparr>fid = 1, chunkId = 2, chunkVersion = 3, location_IsValid = False, location_port = 20000,
      chunkOffset = 0, striperType = 2, numStripes = 6, numRecoveryStripes = 3,
      stripeSize = 65536, fileSize = 67108864, pathName = ''f'', status = 0,
      invalidStripeIdx = ''''\<rparr>"

text \<open>
  A chunk server with no replicator, and collaborators that grant buffers at once and
  accept every call.
\<close>

definition initial_globals :: globals where
  "initial_globals =
     \<lparr>sInFlightReplications = [], sReplicationCount = 0, mReplicatorCount = 0,
      mReplicationCount = 0, mRecoveryCount = 0, mReplicationErrorCount = 0,
      mRecoveryErrorCount = 0, mReplicationCanceledCount = 0, mRecoveryCanceledCount = 0,
      trace = []\<rparr>"

definition initial_system :: system where
  "initial_system = \<lparr>heap = (\<lambda>a. None), glob = initial_globals, nextId = 1, died = False\<rparr>"

definition example_environment :: environment where
  "example_environment =
     \<lparr>env_IsOverQuota = False, env_GetForDiskIo = True, env_AllocChunk = 0,
      env_WriteChunk = 0, env_ChangeChunkVers = 0, env_Reader_Open = 0, env_Reader_Read = 0,
      env_Reader_IsActive = False, env_peer = True, env_MaxClientQuota = 1073741824,
      env_sRSReaderMaxReadSize = 1048576, env_uninitialized = 0\<rparr>"

text \<open>A replication request for the same chunk, and a second one that supersedes it.\<close>

definition example_replication_op :: ReplicateChunkOp where
  "example_replication_op =
     \<lparr>fid = 1, chunkId = 2, chunkVersion = 3, location_IsValid = True, location_port = 30000,
      chunkOffset = 0, striperType = 0, numStripes = 0, numRecoveryStripes = 0,
      stripeSize = 0, fileSize = 0, pathName = [], status = 0, invalidStripeIdx = []\<rparr>"

text \<open>Integers in two's complement, least significant byte first.\<close>

definition le_sint :: "byte list \<Rightarrow> int" where
  "le_sint bs =
     (let u = foldr (\<lambda>b acc. uint b + 256 * acc) bs 0
      in if 2 * u \<ge> 2 ^ (8 * length bs) then u - 2 ^ (8 * length bs) else u)"

text \<open>
  The status buffer of a failed recovery read that names the stripes 2 and 5, chunks
  1234 and 1235, both of version 7.
\<close>

definition example_status_buffer :: IOBuffer where
  "example_status_buffer =
     [2, 0, 0, 0,  210, 4, 0, 0, 0, 0, 0, 0,  7, 0, 0, 0, 0, 0, 0, 0,
      5, 0, 0, 0,  211, 4, 0, 0, 0, 0, 0, 0,  7, 0, 0, 0, 0, 0, 0, 0]"

section \<open>The writes of a replication\<close>

text \<open>
  The writes an instance has submitted, in order: the offset and the byte count of each
  \<open>WriteChunk\<close> call in the log.
\<close>

definition writes_in :: "nat \<Rightarrow> (caller \<times> effect) list \<Rightarrow> (int \<times> int) list" where
  "writes_in this tr =
     concat (map (\<lambda>(c, e). case e of
                               WriteChunk off n b \<Rightarrow> if c = Instance this then [(off, n)] else []
                             | _ \<Rightarrow> []) tr)"

definition writes_of :: "nat \<Rightarrow> globals \<Rightarrow> (int \<times> int) list" where
  "writes_of this g = writes_in this (trace g)"

text \<open>
  The completions of the read and of the write operation as one replicator sees them,
  with what the peer and the chunk manager have left in the operation: the status and
  the data of a read, the status and the byte count of a write. \<open>callback\<close> is what
  \<open>deliver\<close> does to the replicator at the address.
\<close>

datatype callback =
    Cb_ReadDone int "IOBuffer option"
  | Cb_WriteDone int int

definition callback ::
  "constants \<Rightarrow> nat \<Rightarrow> ReplicatorImpl \<times> globals \<Rightarrow> environment \<times> callback \<Rightarrow>
   ReplicatorImpl \<times> globals" where
  "callback K this = (\<lambda>(r, g) (E, cb).
     case cb of
       Cb_ReadDone st dat \<Rightarrow>
         if \<not> isRS r \<and> mOwner r \<noteq> None \<and> handler r = H_HandleReadDone
         then HandleReadDone K E this (r\<lparr>rd_status := st, rd_dataBuf := dat\<rparr>, g)
         else (r, g)
     | Cb_WriteDone st n \<Rightarrow>
         if mOwner r \<noteq> None \<and> handler r = H_HandleWriteDone \<and> \<not> mReadInFlightFlag r
         then HandleWriteDone K E this (r\<lparr>wr_status := st, wr_numBytesIO := n\<rparr>, g)
         else (r, g))"

definition run_callbacks ::
  "constants \<Rightarrow> nat \<Rightarrow> ReplicatorImpl \<times> globals \<Rightarrow> (environment \<times> callback) list \<Rightarrow>
   ReplicatorImpl \<times> globals" where
  "run_callbacks K this rg cbs = foldl (callback K this) rg cbs"

text \<open>
  What the replicator relies on: a read that succeeds brings no more bytes than were
  asked for, and a write that succeeds has written all its bytes.
\<close>

definition callback_ok :: "ReplicatorImpl \<Rightarrow> callback \<Rightarrow> bool" where
  "callback_ok r cb =
     (case cb of
        Cb_ReadDone st dat \<Rightarrow> st < 0 \<or> BytesConsumable_ptr dat \<le> rd_numBytes r
      | Cb_WriteDone st n \<Rightarrow> st < 0 \<or> n = wr_numBytes r)"

fun keeps_contract ::
  "constants \<Rightarrow> nat \<Rightarrow> ReplicatorImpl \<times> globals \<Rightarrow> (environment \<times> callback) list \<Rightarrow> bool" where
  "keeps_contract K this rg [] = True"
| "keeps_contract K this rg (c # cs) =
     (callback_ok (fst rg) (snd c) \<and> keeps_contract K this (callback K this rg c) cs)"

text \<open>
  \<open>whole_blocks\<close>: writes of whole checksum blocks, in order, that end at \<open>off\<close>.
  \<open>write_order\<close>: what holds of the writes of a replication of \<open>cs\<close> bytes at any time.
\<close>

definition whole_blocks :: "constants \<Rightarrow> (int \<times> int) list \<Rightarrow> int \<Rightarrow> bool" where
  "whole_blocks K W off =
     (sorted (map fst W) \<and>
      list_all (\<lambda>w. snd w mod CHECKSUM_BLOCKSIZE K = 0 \<and> fst w \<le> off) W \<and>
      sum_list (map snd W) = off)"

definition write_order :: "constants \<Rightarrow> int \<Rightarrow> (int \<times> int) list \<Rightarrow> bool" where
  "write_order K cs W =
     (sorted (map fst W) \<and>
      list_all (\<lambda>w. snd w mod CHECKSUM_BLOCKSIZE K = 0) (butlast W) \<and>
      list_all (\<lambda>w. snd w mod CHECKSUM_BLOCKSIZE K = 0 \<or> fst w + snd w = cs) W \<and>
      sum_list (map snd W) \<le> cs)"

text \<open>
  The states of a replication from a peer between two callbacks: it has ended, or a
  read is outstanding, or a write is; in the last case the tail of the chunk may wait in
  the read operation.
\<close>

definition ended :: "ReplicatorImpl \<Rightarrow> bool" where
  "ended r = (mOwner r = None \<or> handler r = H_HandleReplicationDone)"

definition tail_kept :: "constants \<Rightarrow> int \<Rightarrow> ReplicatorImpl \<Rightarrow> bool" where
  "tail_kept K cs r =
     (case rd_dataBuf r of
        None \<Rightarrow> False
      | Some t \<Rightarrow>
          t \<noteq> [] \<and> rd_numBytes r = BytesConsumable t \<and>
          rd_offset r = mOffset r + wr_numBytes r \<and>
          mOffset r + wr_numBytes r + BytesConsumable t = cs)"

definition no_tail :: "ReplicatorImpl \<Rightarrow> bool" where
  "no_tail r = (case rd_dataBuf r of None \<Rightarrow> True | Some t \<Rightarrow> t = [])"

definition reading :: "constants \<Rightarrow> nat \<Rightarrow> int \<Rightarrow> ReplicatorImpl \<times> globals \<Rightarrow> bool" where
  "reading K this cs = (\<lambda>(r, g).
     handler r = H_HandleReadDone \<and> \<not> mDone r \<and> mChunkSize r = cs \<and>
     whole_blocks K (writes_of this g) (mOffset r) \<and>
     mOffset r mod CHECKSUM_BLOCKSIZE K = 0 \<and> mOffset r < cs \<and>
     rd_numBytes r = min (cs - mOffset r) (kDefaultReplicationReadSize K))"

definition writing :: "constants \<Rightarrow> nat \<Rightarrow> int \<Rightarrow> ReplicatorImpl \<times> globals \<Rightarrow> bool" where
  "writing K this cs = (\<lambda>(r, g).
     handler r = H_HandleWriteDone \<and> \<not> mDone r \<and> mChunkSize r = cs \<and>
     writes_of this g \<noteq> [] \<and> last (writes_of this g) = (mOffset r, wr_numBytes r) \<and>
     whole_blocks K (butlast (writes_of this g)) (mOffset r) \<and>
     mOffset r mod CHECKSUM_BLOCKSIZE K = 0 \<and>
     0 < wr_numBytes r \<and> mOffset r + wr_numBytes r \<le> cs \<and>
     (if wr_numBytes r mod CHECKSUM_BLOCKSIZE K = 0
      then tail_kept K cs r \<or> no_tail r
      else mOffset r + wr_numBytes r = cs \<and> no_tail r))"

definition finished :: "constants \<Rightarrow> nat \<Rightarrow> int \<Rightarrow> ReplicatorImpl \<times> globals \<Rightarrow> bool" where
  "finished K this cs = (\<lambda>(r, g).
     ended r \<and> write_order K cs (writes_of this g) \<and>
     (mDone r \<longrightarrow> sum_list (map snd (writes_of this g)) = cs))"

definition phases :: "constants \<Rightarrow> nat \<Rightarrow> int \<Rightarrow> ReplicatorImpl \<times> globals \<Rightarrow> bool" where
  "phases K this cs rg =
     (finished K this cs rg \<or> reading K this cs rg \<or> writing K this cs rg)"

definition transfer_inv :: "constants \<Rightarrow> nat \<Rightarrow> int \<Rightarrow> ReplicatorImpl \<times> globals \<Rightarrow> bool" where
  "transfer_inv K this cs rg = (\<not> isRS (fst rg) \<and> phases K this cs rg)"

section \<open>The writes of a recovery\<close>

text \<open>
  The completions a recovery sees: those of the striped reader, with the parameters of
  \<open>Done\<close>, and those of its writes. \<open>recovery_callback\<close> is what \<open>deliver\<close> does to the
  replicator at the address; the result is \<open>Inl\<close> when \<open>die\<close> is called.
\<close>

datatype reader_callback =
    Rc_ReaderDone bool int int int "IOBuffer option" bool
  | Rc_WriteDone int int

definition recovery_callback ::
  "constants \<Rightarrow> (byte list \<Rightarrow> int) \<Rightarrow> nat \<Rightarrow> ReplicatorImpl \<times> globals \<Rightarrow>
   environment \<times> reader_callback \<Rightarrow> fatal + (ReplicatorImpl \<times> globals)" where
  "recovery_callback K dec this = (\<lambda>(r, g) (E, cb).
     case cb of
       Rc_ReaderDone mine st off sz buf req \<Rightarrow>
         if isRS r then Done K E dec this mine st off sz buf req (r, g) else Inr (r, g)
     | Rc_WriteDone st n \<Rightarrow> Inr (callback K this (r, g) (E, Cb_WriteDone st n)))"

fun run_recovery ::
  "constants \<Rightarrow> (byte list \<Rightarrow> int) \<Rightarrow> nat \<Rightarrow> ReplicatorImpl \<times> globals \<Rightarrow>
   (environment \<times> reader_callback) list \<Rightarrow> fatal + (ReplicatorImpl \<times> globals)" where
  "run_recovery K dec this rg [] = Inr rg"
| "run_recovery K dec this rg (c # cs) =
     (case recovery_callback K dec this rg c of
        Inl e \<Rightarrow> Inl e
      | Inr rg' \<Rightarrow> run_recovery K dec this rg' cs)"

text \<open>
  What the recovery relies on: the completion of a read in flight that reports no error
  brings a buffer of no more bytes than were asked for, and a write that succeeds has
  written all its bytes.
\<close>

definition reader_callback_ok :: "ReplicatorImpl \<Rightarrow> reader_callback \<Rightarrow> bool" where
  "reader_callback_ok r cb =
     (case cb of
        Rc_ReaderDone mine st off sz buf req \<Rightarrow>
          \<not> mReadInFlightFlag r \<or> mPendingCloseFlag r \<or> st \<noteq> 0 \<or>
          (case buf of None \<Rightarrow> False | Some b \<Rightarrow> BytesConsumable b \<le> rd_numBytes r)
      | Rc_WriteDone st n \<Rightarrow> st < 0 \<or> n = wr_numBytes r)"

fun keeps_recovery_contract ::
  "constants \<Rightarrow> (byte list \<Rightarrow> int) \<Rightarrow> nat \<Rightarrow> ReplicatorImpl \<times> globals \<Rightarrow>
   (environment \<times> reader_callback) list \<Rightarrow> bool" where
  "keeps_recovery_contract K dec this rg [] = True"
| "keeps_recovery_contract K dec this rg (c # cs) =
     (reader_callback_ok (fst rg) (snd c) \<and>
      (case recovery_callback K dec this rg c of
         Inl e \<Rightarrow> True
       | Inr rg' \<Rightarrow> keeps_recovery_contract K dec this rg' cs))"

text \<open>
  The states of a recovery between two callbacks: a read of the striped reader is in
  flight, after writes of whole blocks and with less than a block in \<open>mReadTail\<close>; or
  it is in one of the states of a replication, for its present chunk size.
  \<open>recovery_kept\<close> relates the states around a step that leaves the reader's side alone.
\<close>

definition recovering :: "constants \<Rightarrow> nat \<Rightarrow> ReplicatorImpl \<times> globals \<Rightarrow> bool" where
  "recovering K this = (\<lambda>(r, g).
     mReadInFlightFlag r \<and> \<not> mDone r \<and>
     whole_blocks K (writes_of this g) (mOffset r) \<and>
     mOffset r mod CHECKSUM_BLOCKSIZE K = 0 \<and> mOffset r < mChunkSize r \<and>
     mChunkSize r mod CHECKSUM_BLOCKSIZE K = 0 \<and>
     rd_status r = 0 \<and> rd_numBytes r = mReadSize r \<and>
     BytesConsumable_ptr (rd_dataBuf r) = 0)"

definition last_write :: "constants \<Rightarrow> ReplicatorImpl \<Rightarrow> bool" where
  "last_write K r =
     (mChunkSize r mod CHECKSUM_BLOCKSIZE K = 0 \<or> tail_kept K (mChunkSize r) r \<or>
      mOffset r + wr_numBytes r = mChunkSize r)"

definition recovery_inv :: "constants \<Rightarrow> nat \<Rightarrow> ReplicatorImpl \<times> globals \<Rightarrow> bool" where
  "recovery_inv K this = (\<lambda>(r, g).
     isRS r \<and> 0 < mReadSize r \<and> BytesConsumable (mReadTail r) < CHECKSUM_BLOCKSIZE K \<and>
     (recovering K this (r, g) \<or>
      \<not> mReadInFlightFlag r \<and>
      (finished K this (mChunkSize r) (r, g) \<or> reading K this (mChunkSize r) (r, g) \<or>
       writing K this (mChunkSize r) (r, g) \<and> last_write K r)))"

definition recovery_kept :: "ReplicatorImpl \<Rightarrow> ReplicatorImpl \<Rightarrow> bool" where
  "recovery_kept r r' =
     (isRS r' = isRS r \<and> mReadSize r' = mReadSize r \<and> mReadTail r' = mReadTail r \<and>
      mReadInFlightFlag r' = mReadInFlightFlag r \<and> mChunkSize r' = mChunkSize r)"

section \<open>Waiting for buffers\<close>

text \<open>
  \<open>queued\<close>: a replicator as \<open>Run\<close> leaves it when the buffers are not granted at
  once: on the wait queue of the buffer manager, with its request, no handler set and
  nothing outstanding, held by the one reference of the dispatcher. \<open>dormant\<close>: the
  replicator at an address is in that state or is gone. \<open>io_of\<close> are the calls of a
  replicator that queue it for buffers, reach a peer or the striped reader, or touch the
  chunk store.
\<close>

definition queued :: "ReplicatorImpl \<Rightarrow> bool" where
  "queued r =
     (waiting r \<and> handler r = NoHandler \<and> \<not> mReadInFlightFlag r \<and> \<not> mPendingCloseFlag r \<and>
      refCount r = 1 \<and> mOwner r \<noteq> None \<and> \<not> mDone r \<and> \<not> deleted r)"

definition dormant :: "nat \<Rightarrow> system \<Rightarrow> bool" where
  "dormant this s = (case heap s this of None \<Rightarrow> True | Some r \<Rightarrow> queued r)"

definition io_of :: "nat \<Rightarrow> globals \<Rightarrow> effect list" where
  "io_of this g = filter is_io (calls_of (Instance this) (trace g))"

section \<open>The entry of a replicator in the registry\<close>

text \<open>
  \<open>entry_kept this (r, g) (r', g')\<close> relates a replicator and the statics before and
  after a step of the replicator at \<open>this\<close>: the registry changes only when the
  destructor runs, which erases the entry of the chunk when it is this replicator's.
\<close>

definition entry_kept :: "nat \<Rightarrow> ReplicatorImpl \<times> globals \<Rightarrow> ReplicatorImpl \<times> globals \<Rightarrow> bool" where
  "entry_kept this = (\<lambda>(r, g) (r', g').
     mChunkId r' = mChunkId r \<and> (deleted r \<longrightarrow> deleted r') \<and>
     (sInFlightReplications g' = sInFlightReplications g \<or>
      deleted r' \<and> registry_find (sInFlightReplications g) (mChunkId r) = Some this \<and>
      sInFlightReplications g' = registry_erase (sInFlightReplications g) (mChunkId r)) \<and>
     (\<not> deleted r \<and> deleted r' \<and>
      registry_find (sInFlightReplications g) (mChunkId r) = Some this \<longrightarrow>
        registry_find (sInFlightReplications g') (mChunkId r) = None))"

section \<open>The outcome of a replicator\<close>

text \<open>
  The commits and the responses of a replicator: its \<open>ChangeChunkVers\<close> and
  \<open>SubmitOpResponse\<close> calls in the log. \<open>reported_failure\<close>: every response it has
  submitted carries the chunk version -1.
\<close>

definition commits_of :: "nat \<Rightarrow> globals \<Rightarrow> effect list" where
  "commits_of this g = filter is_ChangeChunkVers (calls_of (Instance this) (trace g))"

definition responses_of :: "nat \<Rightarrow> globals \<Rightarrow> effect list" where
  "responses_of this g = filter is_SubmitOpResponse (calls_of (Instance this) (trace g))"

definition reported_failure :: "nat \<Rightarrow> globals \<Rightarrow> bool" where
  "reported_failure this g =
     list_all (\<lambda>e. case e of SubmitOpResponse op \<Rightarrow> chunkVersion op = - 1 | _ \<Rightarrow> True)
       (responses_of this g)"

text \<open>
  What reaches one replicator once it has started: the completion of its read from the
  peer, of its write, of a read of the striped reader and of the commit, and its
  cancellation (by a replicator that supersedes it, or by \<open>CancelAll\<close>). \<open>react\<close> is
  what \<open>deliver\<close> does to the replicator at the address, \<open>Run_cancel_other\<close> and
  \<open>CancelAll\<close> to the one they cancel; a replicator that has been destroyed gets
  nothing. The result is \<open>Inl\<close> when \<open>die\<close> is called.
\<close>

datatype stimulus =
    St_ReadDone int "IOBuffer option"
  | St_WriteDone int int
  | St_ReaderDone bool int int int "IOBuffer option" bool
  | St_CommitDone "int option"
  | St_Cancel

definition react ::
  "constants \<Rightarrow> (byte list \<Rightarrow> int) \<Rightarrow> nat \<Rightarrow> ReplicatorImpl \<times> globals \<Rightarrow>
   environment \<times> stimulus \<Rightarrow> fatal + (ReplicatorImpl \<times> globals)" where
  "react K dec this = (\<lambda>(r, g) (E, x).
     if deleted r then Inr (r, g)
     else
       (case x of
          St_ReadDone st dat \<Rightarrow> Inr (callback K this (r, g) (E, Cb_ReadDone st dat))
        | St_WriteDone st n \<Rightarrow> Inr (callback K this (r, g) (E, Cb_WriteDone st n))
        | St_ReaderDone mine st off sz buf req \<Rightarrow>
            if isRS r then Done K E dec this mine st off sz buf req (r, g) else Inr (r, g)
        | St_CommitDone dat \<Rightarrow>
            if mOwner r \<noteq> None \<and> handler r = H_HandleReplicationDone
            then Inr (HandleReplicationDone this dat (r, g)) else Inr (r, g)
        | St_Cancel \<Rightarrow> Inr (Cancel K E this (r, g))))"






definition doomed :: "nat \<Rightarrow> ReplicatorImpl \<times> globals \<Rightarrow> bool" where
  "doomed this = (\<lambda>(r, g). (mCancelFlag r \<or> mOwner r = None) \<and> reported_failure this g)"

lemma c_div_nonneg: "0 \<le> a \<Longrightarrow> 0 \<le> b \<Longrightarrow> c_div a b = a div b"
  by (cases "a = 0"; cases "b = 0") (simp_all add: c_div_def)

lemma c_rem_nonneg: "0 \<le> a \<Longrightarrow> 0 \<le> b \<Longrightarrow> c_rem a b = a mod b"
  by (simp add: c_rem_def c_div_nonneg minus_mult_div_eq_mod)

lemma wrap32_id: "is_int32 x \<Longrightarrow> wrap32 x = x"
  by (simp add: wrap32_def is_int32_def)

lemma GetGcd_loop_gcd: "0 \<le> a \<Longrightarrow> 0 \<le> b \<Longrightarrow> GetGcd_loop a b = gcd a b"
proof (induction a b rule: GetGcd_loop.induct)
  case (1 a b)
  show ?case
  proof (cases "b = 0")
    case True
    with "1.prems" show ?thesis by (simp add: GetGcd_loop.simps[of a 0])
  next
    case False
    have r: "c_rem a b = a mod b" using "1.prems" by (simp add: c_rem_nonneg)
    have "0 \<le> a mod b" using False "1.prems" by simp
    with "1.IH"[OF False] "1.prems" r have "GetGcd_loop b (c_rem a b) = gcd b (a mod b)"
      by simp
    moreover have "gcd a b = gcd b (a mod b)" by (rule gcd_red_int)
    ultimately show ?thesis using False by (simp add: GetGcd_loop.simps[of a b])
  qed
qed

lemma GetLcm_lcm:
  assumes "0 < a" "0 < b" "lcm a b < 2 ^ 31"
  shows "GetLcm a b = lcm a b"
proof -
  have g: "GetGcd a b = gcd a b" using assms by (simp add: GetGcd_def GetGcd_loop_gcd)
  have gp: "0 < gcd a b" using assms by simp
  have "c_div a (gcd a b) = a div gcd a b" using assms gp by (simp add: c_div_nonneg)
  moreover have "a div gcd a b * b = lcm a b"
  proof -
    have "a div gcd a b * b = a * b div gcd a b" by (simp add: dvd_div_mult)
    also have "\<dots> = lcm a b" using assms by (simp add: lcm_altdef_int)
    finally show ?thesis .
  qed
  moreover have "wrap32 (lcm a b) = lcm a b"
  proof (rule wrap32_id)
    have "0 \<le> lcm a b" by simp
    then show "is_int32 (lcm a b)" using assms(3) unfolding is_int32_def by linarith
  qed
  ultimately show ?thesis using assms g by (simp add: GetLcm_def)
qed

lemma c_rem_dvd: "0 \<le> a \<Longrightarrow> 0 < b \<Longrightarrow> c_rem a b = 0 \<longleftrightarrow> b dvd a"
  by (simp add: c_rem_nonneg dvd_eq_mod_eq_0)

lemma GetReadSize_size_eq:
  assumes cb: "0 < CHECKSUM_BLOCKSIZE K" and le: "CHECKSUM_BLOCKSIZE K \<le> M"
    and M: "M < 2 ^ 31" and q: "0 \<le> quota"
  shows "GetReadSize_size K M quota op =
     max (CHECKSUM_BLOCKSIZE K)
       (min M (quota div max 1 (wrap32 (numStripes op + 1)) div CHECKSUM_BLOCKSIZE K
                * CHECKSUM_BLOCKSIZE K))"
proof -
  let ?m = "max 1 (wrap32 (numStripes op + 1))"
  let ?cb = "CHECKSUM_BLOCKSIZE K"
  have m: "0 \<le> ?m" by simp
  have d1: "c_div quota ?m = quota div ?m" using q m by (rule c_div_nonneg)
  have q1: "0 \<le> quota div ?m" using q m by (simp add: pos_imp_zdiv_nonneg_iff)
  have d2: "c_div (quota div ?m) ?cb = quota div ?m div ?cb"
    using q1 cb by (simp add: c_div_nonneg)
  have x: "0 \<le> quota div ?m div ?cb * ?cb"
    using q1 cb by (simp add: pos_imp_zdiv_nonneg_iff)
  have "is_int32 (min M (quota div ?m div ?cb * ?cb))"
    using x M cb le unfolding is_int32_def by (simp add: min_def)
  then show ?thesis
    unfolding GetReadSize_size_def d1 d2 by (simp only: wrap32_id)
qed

lemma GetReadSize_size_bounds:
  assumes cb: "0 < CHECKSUM_BLOCKSIZE K" and le: "CHECKSUM_BLOCKSIZE K \<le> M"
    and M: "M < 2 ^ 31" and q: "0 \<le> quota" and dv: "CHECKSUM_BLOCKSIZE K dvd M"
  shows "CHECKSUM_BLOCKSIZE K \<le> GetReadSize_size K M quota op"
    and "GetReadSize_size K M quota op \<le> M"
    and "CHECKSUM_BLOCKSIZE K dvd GetReadSize_size K M quota op"
proof -
  note e = GetReadSize_size_eq[OF cb le M q, of op]
  show "CHECKSUM_BLOCKSIZE K \<le> GetReadSize_size K M quota op" unfolding e by simp
  show "GetReadSize_size K M quota op \<le> M" unfolding e using le by simp
  show "CHECKSUM_BLOCKSIZE K dvd GetReadSize_size K M quota op"
    unfolding e using dv by (simp add: max_def min_def)
qed

lemma GetReadSize_branches:
  assumes s: "0 < GetReadSize_size K M quota op" and st: "0 < stripeSize op"
    and cb: "0 < CHECKSUM_BLOCKSIZE K" and io: "0 < DefaultBufferSize K"
    and l1: "lcm (CHECKSUM_BLOCKSIZE K) (stripeSize op) < 2 ^ 31"
    and l2: "lcm (DefaultBufferSize K) (stripeSize op) < 2 ^ 31"
  shows "GetReadSize K M quota op =
    (let size = GetReadSize_size K M quota op;
         lcm1 = lcm (CHECKSUM_BLOCKSIZE K) (stripeSize op);
         lcm2 = lcm (DefaultBufferSize K) (stripeSize op)
     in if size \<le> stripeSize op then size
        else if lcm1 \<le> size then size div lcm1 * lcm1
        else if lcm2 \<le> size then size div lcm2 * lcm2
        else lcm2)"
proof -
  have g1: "GetLcm (CHECKSUM_BLOCKSIZE K) (stripeSize op) = lcm (CHECKSUM_BLOCKSIZE K) (stripeSize op)"
    using cb st l1 by (rule GetLcm_lcm)
  have g2: "GetLcm (DefaultBufferSize K) (stripeSize op) = lcm (DefaultBufferSize K) (stripeSize op)"
    using io st l2 by (rule GetLcm_lcm)
  have c1: "c_div (GetReadSize_size K M quota op) (lcm (CHECKSUM_BLOCKSIZE K) (stripeSize op))
      = GetReadSize_size K M quota op div lcm (CHECKSUM_BLOCKSIZE K) (stripeSize op)"
    using s by (simp add: c_div_nonneg)
  have c2: "c_div (GetReadSize_size K M quota op) (lcm (DefaultBufferSize K) (stripeSize op))
      = GetReadSize_size K M quota op div lcm (DefaultBufferSize K) (stripeSize op)"
    using s by (simp add: c_div_nonneg)
  show ?thesis
    unfolding GetReadSize_def Let_def g1 g2 c1 c2 by (simp add: not_le not_less)
qed

lemma align_down_props:
  fixes s l :: int
  assumes "0 < l" "l \<le> s"
  shows "0 < s div l * l" "s div l * l \<le> s" "l dvd s div l * l"
proof -
  have "1 \<le> s div l" using assms by (simp add: pos_imp_zdiv_pos_iff int_one_le_iff_zero_less)
  then have "l * 1 \<le> l * (s div l)" using assms(1) by (intro mult_left_mono) simp_all
  then show "0 < s div l * l" using assms(1) by (simp add: mult.commute)
  have "s div l * l + s mod l = s" by simp
  moreover have "0 \<le> s mod l" using assms(1) by simp
  ultimately show "s div l * l \<le> s" by linarith
  show "l dvd s div l * l" by simp
qed

section \<open>Read size of the recovery reader: properties\<close>








text \<open>
  C10. For a request that passes the dispatcher's check, under the preconditions asserted
  by \<open>GetReadSize\<close>, \<open>GetReadSize\<close> returns a positive value divisible by the
  default buffer size in every branch: the assertion of the \<open>RSReplicatorImpl\<close>
  constructor holds. The constants are those of a chunk size that fits the type \<open>int\<close>
  and is a multiple of the checksum block; the quota is not negative.
\<close>

theorem GetReadSize_io_buffer_aligned:
  assumes v: "\<not> Run_invalid_request K op" and a: "GetReadSize_assert K M op"
    and cb: "0 < CHECKSUM_BLOCKSIZE K" and io: "0 < DefaultBufferSize K"
    and cs: "0 < CHUNKSIZE K" "CHUNKSIZE K < 2 ^ 31"
    and dvc: "CHECKSUM_BLOCKSIZE K dvd CHUNKSIZE K"
    and q: "0 \<le> quota" and M: "M < 2 ^ 31"
  shows "0 < GetReadSize K M quota op \<and>
         RSReplicatorImpl_assert K (GetReadSize K M quota op)"
proof -
  let ?cb = "CHECKSUM_BLOCKSIZE K" and ?io = "DefaultBufferSize K" and ?st = "stripeSize op"
  let ?size = "GetReadSize_size K M quota op"
  let ?r = "GetReadSize K M quota op"
  from a have le: "?cb \<le> M" and st: "0 < ?st" and r0: "c_rem M ?cb = 0"
    and r1: "c_rem ?cb ?io = 0"
    by (simp_all add: GetReadSize_assert_def)
  have M0: "0 \<le> M" using le cb by linarith
  have dv: "?cb dvd M" using r0 M0 cb by (simp add: c_rem_dvd)
  have iocb: "?io dvd ?cb" using r1 cb io by (simp add: c_rem_dvd)
  from v have "c_rem (CHUNKSIZE K) ?st = 0" by (simp add: Run_invalid_request_def)
  then have stc: "?st dvd CHUNKSIZE K" using cs st by (simp add: c_rem_dvd)
  have "lcm ?cb ?st dvd CHUNKSIZE K" using dvc stc by (rule lcm_least)
  then have "lcm ?cb ?st \<le> CHUNKSIZE K" using cs(1) by (rule zdvd_imp_le)
  then have l1: "lcm ?cb ?st < 2 ^ 31" using cs(2) by linarith
  have "?io dvd CHUNKSIZE K" using iocb dvc by (rule dvd_trans)
  then have "lcm ?io ?st dvd CHUNKSIZE K" using stc by (rule lcm_least)
  then have "lcm ?io ?st \<le> CHUNKSIZE K" using cs(1) by (rule zdvd_imp_le)
  then have l2: "lcm ?io ?st < 2 ^ 31" using cs(2) by linarith
  note sz = GetReadSize_size_bounds[OF cb le M q dv, of op]
  have s0: "0 < ?size" using sz(1) cb by linarith
  note br = GetReadSize_branches[OF s0 st cb io l1 l2]
  have p1: "0 < lcm ?cb ?st" using cb st by (simp add: lcm_pos_int)
  have p2: "0 < lcm ?io ?st" using io st by (simp add: lcm_pos_int)
  have res: "0 < ?r \<and> ?io dvd ?r"
  proof (cases "?size \<le> ?st")
    case True
    then have "?r = ?size" unfolding br Let_def by simp
    moreover have "?io dvd ?size" using iocb sz(3) by (rule dvd_trans)
    ultimately show ?thesis using s0 by simp
  next
    case c1: False
    show ?thesis
    proof (cases "lcm ?cb ?st \<le> ?size")
      case True
      then have r: "?r = ?size div lcm ?cb ?st * lcm ?cb ?st"
        unfolding br Let_def using c1 by simp
      note al = align_down_props[OF p1 True]
      have "?io dvd lcm ?cb ?st" using iocb by (rule dvd_trans) simp
      then have "?io dvd ?size div lcm ?cb ?st * lcm ?cb ?st" by (rule dvd_mult)
      then show ?thesis unfolding r using al by simp
    next
      case c2: False
      show ?thesis
      proof (cases "lcm ?io ?st \<le> ?size")
        case True
        then have r: "?r = ?size div lcm ?io ?st * lcm ?io ?st"
          unfolding br Let_def using c1 c2 by simp
        note al = align_down_props[OF p2 True]
        have "?io dvd lcm ?io ?st" by simp
        then have "?io dvd ?size div lcm ?io ?st * lcm ?io ?st" by (rule dvd_mult)
        then show ?thesis unfolding r using al by simp
      next
        case False
        then have r: "?r = lcm ?io ?st" unfolding br Let_def using c1 c2 by simp
        show ?thesis unfolding r using p2 by simp
      qed
    qed
  qed
  then have "0 \<le> ?r" by simp
  then have "c_rem ?r ?io = 0" using io res by (simp add: c_rem_dvd)
  with res show ?thesis by (simp add: RSReplicatorImpl_assert_def)
qed

theorem GetReadSize_io_buffer_aligned_witness:
  "\<not> Run_invalid_request example_constants example_recovery_op \<and>
   GetReadSize_assert example_constants 1048576 example_recovery_op \<and>
   0 < GetReadSize example_constants 1048576 1073741824 example_recovery_op \<and>
   RSReplicatorImpl_assert example_constants
     (GetReadSize example_constants 1048576 1073741824 example_recovery_op)"
proof -
  have v: "\<not> Run_invalid_request example_constants example_recovery_op"
    by (simp add: Run_invalid_request_def example_constants_def example_recovery_op_def
        c_rem_def c_div_def)
  have a: "GetReadSize_assert example_constants 1048576 example_recovery_op"
    by (simp add: GetReadSize_assert_def example_constants_def example_recovery_op_def
        c_rem_def c_div_def)
  have d: "CHECKSUM_BLOCKSIZE example_constants dvd CHUNKSIZE example_constants"
    by (simp add: example_constants_def)
  from GetReadSize_io_buffer_aligned[OF v a _ _ _ _ d, of 1073741824] v a show ?thesis
    by (simp add: example_constants_def)
qed

section \<open>The dispatcher\<close>

lemma c_rem_zero_dvd: "c_rem a b = 0 \<Longrightarrow> b dvd a"
proof -
  assume "c_rem a b = 0"
  then have "a = b * c_div a b" by (simp add: c_rem_def)
  then show "b dvd a" by (rule dvdI)
qed

text \<open>
  C4. For a request whose location is not valid, when one of the checks of the recovery
  geometry fails (chunk offset a multiple of the chunk size, Reed-Solomon striper,
  positive stripe counts, stripe size within its bounds, dividing the chunk size and a
  multiple of the stripe alignment, positive port), the dispatcher sets the status to
  \<open>-EINVAL\<close>, counts a recovery error, constructs no replicator (the heap is unchanged)
  and submits the response, once.
\<close>

theorem Replicator_Run_invalid_recovery_request:
  assumes loc: "\<not> location_IsValid op"
    and bad: "\<not> (CHUNKSIZE K dvd chunkOffset op \<and>
                 striperType op = KFS_STRIPED_FILE_TYPE_RS K \<and>
                 0 < numStripes op \<and> 0 < numRecoveryStripes op \<and>
                 KFS_MIN_STRIPE_SIZE K \<le> stripeSize op \<and>
                 stripeSize op \<le> KFS_MAX_STRIPE_SIZE K \<and>
                 stripeSize op dvd CHUNKSIZE K \<and>
                 KFS_STRIPE_ALIGNMENT K dvd stripeSize op \<and>
                 0 < location_port op)"
  shows "Replicator_Run K E op s =
           s\<lparr>glob := (glob s)
               \<lparr>mRecoveryCount := mRecoveryCount (glob s) + 1,
                mRecoveryErrorCount := mRecoveryErrorCount (glob s) + 1,
                trace := trace (glob s) @
                  [(Dispatcher, SubmitOpResponse (op\<lparr>status := - EINVAL K\<rparr>))]\<rparr>\<rparr>"
proof -
  have inv: "Run_invalid_request K op"
  proof (rule ccontr)
    assume "\<not> Run_invalid_request K op"
    then have ok: "c_rem (chunkOffset op) (CHUNKSIZE K) = 0"
      "striperType op = KFS_STRIPED_FILE_TYPE_RS K" "0 < numStripes op"
      "0 < numRecoveryStripes op" "KFS_MIN_STRIPE_SIZE K \<le> stripeSize op"
      "stripeSize op \<le> KFS_MAX_STRIPE_SIZE K" "c_rem (CHUNKSIZE K) (stripeSize op) = 0"
      "c_rem (stripeSize op) (KFS_STRIPE_ALIGNMENT K) = 0" "0 < location_port op"
      by (simp_all add: Run_invalid_request_def not_le not_less)
    from ok(1) have "CHUNKSIZE K dvd chunkOffset op" by (rule c_rem_zero_dvd)
    moreover from ok(7) have "stripeSize op dvd CHUNKSIZE K" by (rule c_rem_zero_dvd)
    moreover from ok(8) have "KFS_STRIPE_ALIGNMENT K dvd stripeSize op" by (rule c_rem_zero_dvd)
    ultimately show False using bad ok by simp
  qed
  show ?thesis
    using loc inv by (simp add: Replicator_Run_def Let_def emit_def)
qed

theorem Replicator_Run_invalid_recovery_request_witness:
  "heap (Replicator_Run example_constants example_environment
           (example_recovery_op\<lparr>numStripes := 0\<rparr>) initial_system) = heap initial_system \<and>
   trace (glob (Replicator_Run example_constants example_environment
           (example_recovery_op\<lparr>numStripes := 0\<rparr>) initial_system)) =
     [(Dispatcher, SubmitOpResponse (example_recovery_op\<lparr>numStripes := 0, status := - 22\<rparr>))] \<and>
   mRecoveryErrorCount (glob (Replicator_Run example_constants example_environment
           (example_recovery_op\<lparr>numStripes := 0\<rparr>) initial_system)) = 1"
proof -
  have loc: "\<not> location_IsValid (example_recovery_op\<lparr>numStripes := 0\<rparr>)"
    by (simp add: example_recovery_op_def)
  have bad: "\<not> (CHUNKSIZE example_constants dvd chunkOffset (example_recovery_op\<lparr>numStripes := 0\<rparr>) \<and>
                 striperType (example_recovery_op\<lparr>numStripes := 0\<rparr>) =
                   KFS_STRIPED_FILE_TYPE_RS example_constants \<and>
                 0 < numStripes (example_recovery_op\<lparr>numStripes := 0\<rparr>) \<and>
                 0 < numRecoveryStripes (example_recovery_op\<lparr>numStripes := 0\<rparr>) \<and>
                 KFS_MIN_STRIPE_SIZE example_constants \<le> stripeSize (example_recovery_op\<lparr>numStripes := 0\<rparr>) \<and>
                 stripeSize (example_recovery_op\<lparr>numStripes := 0\<rparr>) \<le> KFS_MAX_STRIPE_SIZE example_constants \<and>
                 stripeSize (example_recovery_op\<lparr>numStripes := 0\<rparr>) dvd CHUNKSIZE example_constants \<and>
                 KFS_STRIPE_ALIGNMENT example_constants dvd stripeSize (example_recovery_op\<lparr>numStripes := 0\<rparr>) \<and>
                 0 < location_port (example_recovery_op\<lparr>numStripes := 0\<rparr>))"
    by simp
  show ?thesis
    unfolding Replicator_Run_invalid_recovery_request[OF loc bad]
    by (simp add: initial_system_def initial_globals_def example_constants_def)
qed

section \<open>Termination: the calls of a replicator that ends\<close>

lemma emit_simps [simp]:
  "trace (emit c e g) = trace g @ [(c, e)]"
  "sInFlightReplications (emit c e g) = sInFlightReplications g"
  "sReplicationCount (emit c e g) = sReplicationCount g"
  "mReplicatorCount (emit c e g) = mReplicatorCount g"
  "mReplicationCount (emit c e g) = mReplicationCount g"
  "mRecoveryCount (emit c e g) = mRecoveryCount g"
  "mReplicationErrorCount (emit c e g) = mReplicationErrorCount g"
  "mRecoveryErrorCount (emit c e g) = mRecoveryErrorCount g"
  "mReplicationCanceledCount (emit c e g) = mReplicationCanceledCount g"
  "mRecoveryCanceledCount (emit c e g) = mRecoveryCanceledCount g"
  by (simp_all add: emit_def)

lemma UnRef_trace: "trace (snd (UnRef this (r, g))) = trace g @ UnRef_calls this r"
  by (simp add: UnRef_def destroy_def Let_def UnRef_calls_def)

lemma UnRef_fst:
  "fst (UnRef this (r, g)) = r\<lparr>refCount := refCount r - 1, deleted := (refCount r = 1 \<or> deleted r)\<rparr>"
  by (cases "deleted r") (simp_all add: UnRef_def destroy_def Let_def)

lemma HandleReplicationDone_trace:
  assumes "mOwner r = Some owner"
  shows "trace (snd (HandleReplicationDone this dat (r, g))) =
           trace g @
           (if notified this r g
            then [(Instance this,
                   ReplicationDone (mChunkId r) (case dat of Some v \<Rightarrow> v | None \<Rightarrow> 0))]
            else []) @
           UnRef_calls this r @
           [(Instance this,
             SubmitOpResponse (reply r owner (case dat of Some v \<Rightarrow> v | None \<Rightarrow> 0)))]"
  using assms
  by (simp add: HandleReplicationDone_def Let_def split_def UnRef_trace notified_def reply_def
      UnRef_calls_def)

lemma HandleReplicationDone_fst:
  assumes "mOwner r = Some owner"
  shows "fst (HandleReplicationDone this dat (r, g)) =
           r\<lparr>mOwner := None, refCount := refCount r - 1,
             deleted := (refCount r = 1 \<or> deleted r)\<rparr>"
  using assms
  by (simp add: HandleReplicationDone_def Let_def split_def UnRef_fst)

lemma HandleReplicationDone_no_owner:
  assumes "mOwner r = None"
  shows "HandleReplicationDone this dat (r, g) = (r, emit (Instance this) NullOwner g)"
  using assms by (simp add: HandleReplicationDone_def)

lemma Terminate_failed:
  assumes "\<not> (mDone r \<and> \<not> mCancelFlag r)"
  shows "Terminate E this (r, g) = HandleReplicationDone this (Some (- 1)) (r, g)"
  using assms by (auto simp: Terminate_def)

lemma Terminate_commit:
  assumes "mDone r" "\<not> mCancelFlag r"
  shows "Terminate E this (r, g) =
     (if env_ChangeChunkVers E = 0
      then (r\<lparr>handler := H_HandleReplicationDone\<rparr>,
            emit (Instance this) (ChangeChunkVers (mChunkId r) (mChunkVersion r) True) g)
      else HandleReplicationDone this (Some (env_ChangeChunkVers E))
             (r\<lparr>handler := H_HandleReplicationDone\<rparr>,
              emit (Instance this) (ChangeChunkVers (mChunkId r) (mChunkVersion r) True) g))"
  using assms by (simp add: Terminate_def Let_def)

lemma calls_since_append [simp]:
  "trace g' = trace g @ new \<Longrightarrow> calls_since g g' = map snd new"
  by (simp add: calls_since_def)

lemma HandleReplicationDone_calls:
  assumes "mOwner r = Some owner"
  shows "calls_since g (snd (HandleReplicationDone this dat (r, g))) =
           (if notified this r g
            then [ReplicationDone (mChunkId r) (case dat of Some v \<Rightarrow> v | None \<Rightarrow> 0)] else []) @
           map snd (UnRef_calls this r) @
           [SubmitOpResponse (reply r owner (case dat of Some v \<Rightarrow> v | None \<Rightarrow> 0))]"
  using HandleReplicationDone_trace[OF assms, of this dat g]
  by (simp add: calls_since_def)

lemma UnRef_calls_filters [simp]:
  "filter is_ReplicationDone (map snd (UnRef_calls this r)) = []"
  "filter is_SubmitOpResponse (map snd (UnRef_calls this r)) = []"
  "filter is_ChangeChunkVers (map snd (UnRef_calls this r)) = []"
  "filter is_io (map snd (UnRef_calls this r)) = []"
  "filter is_WriteChunk (map snd (UnRef_calls this r)) = []"
  by (simp_all add: UnRef_calls_def)

text \<open>
  C5 (as amended). When a replicator ends (\<open>HandleReplicationDone\<close> runs and the
  replicator still has its request), \<open>ReplicationDone\<close> is called once if the
  replicator is not canceled or is itself the entry of the registry for its chunk, and
  not at all if it is canceled and that entry is another replicator or absent. One
  response is submitted and the request is released; were \<open>HandleReplicationDone\<close>
  to run again it would submit nothing.
\<close>

theorem HandleReplicationDone_once:
  assumes "mOwner r = Some owner"
  shows "length (filter is_ReplicationDone
                   (calls_since g (snd (HandleReplicationDone this dat (r, g))))) =
           (if \<not> mCancelFlag r \<or>
               registry_find (sInFlightReplications g) (mChunkId r) = Some this
            then 1 else 0) \<and>
         length (filter is_SubmitOpResponse
                   (calls_since g (snd (HandleReplicationDone this dat (r, g))))) = 1 \<and>
         take (length (trace g)) (trace (snd (HandleReplicationDone this dat (r, g)))) = trace g \<and>
         mOwner (fst (HandleReplicationDone this dat (r, g))) = None \<and>
         filter is_SubmitOpResponse
           (calls_since (snd (HandleReplicationDone this dat (r, g)))
              (snd (HandleReplicationDone this dat' (HandleReplicationDone this dat (r, g))))) = [] \<and>
         filter is_ReplicationDone
           (calls_since (snd (HandleReplicationDone this dat (r, g)))
              (snd (HandleReplicationDone this dat' (HandleReplicationDone this dat (r, g))))) = []"
proof -
  let ?rg = "HandleReplicationDone this dat (r, g)"
  have c: "calls_since g (snd ?rg) =
           (if notified this r g
            then [ReplicationDone (mChunkId r) (case dat of Some v \<Rightarrow> v | None \<Rightarrow> 0)] else []) @
           map snd (UnRef_calls this r) @
           [SubmitOpResponse (reply r owner (case dat of Some v \<Rightarrow> v | None \<Rightarrow> 0))]"
    using assms by (rule HandleReplicationDone_calls)
  have n: "length (filter is_ReplicationDone (calls_since g (snd ?rg))) =
      (if \<not> mCancelFlag r \<or> registry_find (sInFlightReplications g) (mChunkId r) = Some this
       then 1 else 0)"
    unfolding c by (simp add: notified_def)
  have s: "length (filter is_SubmitOpResponse (calls_since g (snd ?rg))) = 1"
    unfolding c by simp
  have t: "take (length (trace g)) (trace (snd ?rg)) = trace g"
    using HandleReplicationDone_trace[OF assms, of this dat g] by simp
  have o: "mOwner (fst ?rg) = None"
    using HandleReplicationDone_fst[OF assms, of this dat g] by simp
  have again: "HandleReplicationDone this dat' ?rg = (fst ?rg, emit (Instance this) NullOwner (snd ?rg))"
    using HandleReplicationDone_no_owner[OF o, of this dat' "snd ?rg"] by simp
  have a: "calls_since (snd ?rg) (snd (HandleReplicationDone this dat' ?rg)) = [NullOwner]"
    unfolding again by (simp add: calls_since_def)
  show ?thesis using n s t o a by simp
qed


theorem HandleReplicationDone_once_witness:
  "mOwner (Ref (ReplicatorImpl_new example_environment example_replication_op True)) =
     Some example_replication_op \<and>
   length (filter is_ReplicationDone
     (calls_since initial_globals
        (snd (HandleReplicationDone 1 (Some (- 1))
           (Ref (ReplicatorImpl_new example_environment example_replication_op True),
            initial_globals))))) = 1 \<and>
   length (filter is_SubmitOpResponse
     (calls_since initial_globals
        (snd (HandleReplicationDone 1 (Some (- 1))
           (Ref (ReplicatorImpl_new example_environment example_replication_op True),
            initial_globals))))) = 1"
proof -
  have o: "mOwner (Ref (ReplicatorImpl_new example_environment example_replication_op True)) =
     Some example_replication_op"
    by (simp add: Ref_def ReplicatorImpl_new_def)
  have c: "\<not> mCancelFlag (Ref (ReplicatorImpl_new example_environment example_replication_op True))"
    by (simp add: Ref_def ReplicatorImpl_new_def)
  from HandleReplicationDone_once[OF o, of initial_globals 1 "Some (- 1)" None] o c
  show ?thesis by simp
qed

text \<open>
  C5 as stated fails. A replication of chunk 2 waits for the metadata of its peer; a
  second request for the chunk cancels it, takes its entry of the registry, is refused
  buffers and ends, which erases the entry. When the metadata arrives the first
  replicator is canceled and no replicator is registered for the chunk: it ends, submits
  its response, and \<open>ReplicationDone\<close> is not called for it.
\<close>

theorem ReplicationDone_skipped_without_successor:
  "map_option mCancelFlag
     (heap (run_events example_constants le_sint initial_system
        [(example_environment, Ev_Run example_replication_op),
         (example_environment\<lparr>env_IsOverQuota := True\<rparr>, Ev_Run example_replication_op)]) 1)
     = Some True \<and>
   registry_find (sInFlightReplications (glob
     (run_events example_constants le_sint initial_system
        [(example_environment, Ev_Run example_replication_op),
         (example_environment\<lparr>env_IsOverQuota := True\<rparr>, Ev_Run example_replication_op)]))) 2
     = None \<and>
   filter is_ReplicationDone (calls_of (Instance 1) (trace (glob
     (run_events example_constants le_sint initial_system
        [(example_environment, Ev_Run example_replication_op),
         (example_environment\<lparr>env_IsOverQuota := True\<rparr>, Ev_Run example_replication_op),
         (example_environment, Ev_MetadataDone 1 0 100 3)])))) = [] \<and>
   filter is_SubmitOpResponse (calls_of (Instance 1) (trace (glob
     (run_events example_constants le_sint initial_system
        [(example_environment, Ev_Run example_replication_op),
         (example_environment\<lparr>env_IsOverQuota := True\<rparr>, Ev_Run example_replication_op),
         (example_environment, Ev_MetadataDone 1 0 100 3)])))) =
     [SubmitOpResponse (example_replication_op\<lparr>chunkVersion := - 1, status := - 1\<rparr>)]"
  by code_simp

section \<open>Steps of a replicator\<close>

lemma registry_erase_idem [simp]:
  "registry_erase (registry_erase reg k) k = registry_erase reg k"
  by (simp add: registry_erase_def)

lemma frame_refl [simp]: "frame this (r, g) (r, g)"
  by (simp add: frame_def calls_since_def)

lemma frame_trans:
  assumes a: "frame this (r, g) (r1, g1)" and b: "frame this (r1, g1) (r2, g2)"
  shows "frame this (r, g) (r2, g2)"
proof -
  let ?n = "length (trace g)" and ?n1 = "length (trace g1)"
  from a have t1: "take ?n (trace g1) = trace g" by (simp add: frame_def)
  from b have t2: "take ?n1 (trace g2) = trace g1" by (simp add: frame_def)
  define new1 where "new1 = drop ?n (trace g1)"
  define new2 where "new2 = drop ?n1 (trace g2)"
  have e1: "trace g1 = trace g @ new1"
    unfolding new1_def using t1 by (metis append_take_drop_id)
  have e2: "trace g2 = trace g1 @ new2"
    unfolding new2_def using t2 by (metis append_take_drop_id)
  have e: "trace g2 = trace g @ new1 @ new2" using e1 e2 by simp
  have d: "drop ?n (trace g2) = new1 @ new2" using e by simp
  have c1: "calls_since g g1 = map snd new1" using e1 by simp
  have c2: "calls_since g1 g2 = map snd new2" using e2 by simp
  have c: "calls_since g g2 = map snd (new1 @ new2)" using e by simp
  have tag1: "\<forall>x \<in> set new1. fst x = Instance this"
    using a unfolding new1_def by (simp add: frame_def)
  have tag2: "\<forall>x \<in> set new2. fst x = Instance this"
    using b unfolding new2_def by (simp add: frame_def)
  have k: "mChunkId r1 = mChunkId r" using a by (simp add: frame_def)
  have reg: "sInFlightReplications g2 = sInFlightReplications g \<or>
      sInFlightReplications g2 = registry_erase (sInFlightReplications g) (mChunkId r)"
    using a b k by (auto simp: frame_def)
  have own: "owned r = owned r2 + length (filter is_SubmitOpResponse (calls_since g g2))"
    using a b unfolding c by (simp add: frame_def c1 c2)
  have ids: "mChunkId r2 = mChunkId r \<and> isRS r2 = isRS r \<and> (mCancelFlag r \<longrightarrow> mCancelFlag r2)"
    using a b by (simp add: frame_def)
  have nt: "length (filter is_ReplicationDone (calls_since g g2)) \<le>
       length (filter is_SubmitOpResponse (calls_since g g2))"
    using a b unfolding c by (simp add: frame_def c1 c2)
  show ?thesis
    unfolding frame_def using e d tag1 tag2 reg own ids nt by auto
qed

lemma frame_update:
  assumes "mChunkId r' = mChunkId r" "isRS r' = isRS r" "owned r' = owned r"
    and "mCancelFlag r \<longrightarrow> mCancelFlag r'"
  shows "frame this (r, g) (r', g)"
  using assms by (simp add: frame_def calls_since_def)

lemma frame_emit:
  assumes "\<not> is_SubmitOpResponse e \<and> \<not> is_ReplicationDone e"
  shows "frame this (r, g) (r, emit (Instance this) e g)"
  using assms by (simp add: frame_def calls_since_def)

lemma frame_UnRef: "frame this (r, g) (UnRef this (r, g))"
  by (simp add: frame_def UnRef_def destroy_def Let_def calls_since_def owned_def)

lemma UnRef_registry:
  "sInFlightReplications (snd (UnRef this (r, g))) =
     (if refCount r = 1 \<and> registry_find (sInFlightReplications g) (mChunkId r) = Some this
      then registry_erase (sInFlightReplications g) (mChunkId r)
      else sInFlightReplications g)"
  by (simp add: UnRef_def destroy_def Let_def)

lemma HandleReplicationDone_registry:
  "sInFlightReplications (snd (HandleReplicationDone this dat (r, g))) =
     (if mOwner r \<noteq> None \<and> refCount r = 1 \<and>
         registry_find (sInFlightReplications g) (mChunkId r) = Some this
      then registry_erase (sInFlightReplications g) (mChunkId r)
      else sInFlightReplications g)"
  by (cases "mOwner r")
     (simp_all add: HandleReplicationDone_def Let_def split_def UnRef_registry)

lemma frame_HandleReplicationDone: "frame this (r, g) (HandleReplicationDone this dat (r, g))"
proof (cases "mOwner r")
  case None
  then show ?thesis
    by (simp add: HandleReplicationDone_no_owner frame_emit)
next
  case (Some owner)
  obtain r' g' where rg: "HandleReplicationDone this dat (r, g) = (r', g')"
    by (cases "HandleReplicationDone this dat (r, g)")
  have t: "trace g' = trace g @
           (if notified this r g
            then [(Instance this,
                   ReplicationDone (mChunkId r) (case dat of Some v \<Rightarrow> v | None \<Rightarrow> 0))]
            else []) @
           UnRef_calls this r @
           [(Instance this,
             SubmitOpResponse (reply r owner (case dat of Some v \<Rightarrow> v | None \<Rightarrow> 0)))]"
    using HandleReplicationDone_trace[OF Some, of this dat g] rg by simp
  have f: "r' = r\<lparr>mOwner := None, refCount := refCount r - 1,
             deleted := (refCount r = 1 \<or> deleted r)\<rparr>"
    using HandleReplicationDone_fst[OF Some, of this dat g] rg by simp
  have reg: "sInFlightReplications g' = sInFlightReplications g \<or>
      sInFlightReplications g' = registry_erase (sInFlightReplications g) (mChunkId r)"
    using HandleReplicationDone_registry[of this dat r g] rg by (simp split: if_splits)
  show ?thesis
    unfolding rg frame_def using t f reg Some
    by (auto simp: calls_since_def owned_def UnRef_calls_def)
qed

lemma frame_Terminate: "frame this (r, g) (Terminate E this (r, g))"
proof (cases "mDone r \<and> \<not> mCancelFlag r")
  case False
  then show ?thesis by (simp add: Terminate_failed frame_HandleReplicationDone)
next
  case True
  have 1: "frame this (r, g) (r\<lparr>handler := H_HandleReplicationDone\<rparr>, g)"
    by (rule frame_update) (simp_all add: owned_def)
  have 2: "frame this (r\<lparr>handler := H_HandleReplicationDone\<rparr>, g)
      (r\<lparr>handler := H_HandleReplicationDone\<rparr>,
       emit (Instance this) (ChangeChunkVers (mChunkId r) (mChunkVersion r) True) g)"
    by (rule frame_emit) simp
  note 3 = frame_trans[OF 1 2]
  show ?thesis
  proof (cases "env_ChangeChunkVers E = 0")
    case z: True
    then show ?thesis using True 3 by (simp add: Terminate_commit)
  next
    case nz: False
    have "frame this (r, g) (HandleReplicationDone this (Some (env_ChangeChunkVers E))
             (r\<lparr>handler := H_HandleReplicationDone\<rparr>,
              emit (Instance this) (ChangeChunkVers (mChunkId r) (mChunkVersion r) True) g))"
      using 3 frame_HandleReplicationDone
      by (metis frame_trans prod.collapse)
    then show ?thesis using True nz by (simp add: Terminate_commit)
  qed
qed

lemma frame_then:
  assumes "frame this (r, g) rg1" and "\<And>r1 g1. frame this (r1, g1) (f (r1, g1))"
  shows "frame this (r, g) (f rg1)"
  using assms by (metis frame_trans prod.collapse)

lemma HandleReadDone_status_fields [simp]:
  "mChunkId (HandleReadDone_status K r) = mChunkId r"
  "isRS (HandleReadDone_status K r) = isRS r"
  "mOwner (HandleReadDone_status K r) = mOwner r"
  "mCancelFlag (HandleReadDone_status K r) = mCancelFlag r"
  "mOffset (HandleReadDone_status K r) = mOffset r"
  "mChunkSize (HandleReadDone_status K r) = mChunkSize r"
  "mChunkVersion (HandleReadDone_status K r) = mChunkVersion r"
  "refCount (HandleReadDone_status K r) = refCount r"
  "rd_dataBuf (HandleReadDone_status K r) = rd_dataBuf r"
  "wr_dataBuf (HandleReadDone_status K r) = wr_dataBuf r"
  by (simp_all add: HandleReadDone_status_def Let_def)

lemma HandleReadDone_swap_fields [simp]:
  "mChunkId (HandleReadDone_swap K r) = mChunkId r"
  "isRS (HandleReadDone_swap K r) = isRS r"
  "mOwner (HandleReadDone_swap K r) = mOwner r"
  "mCancelFlag (HandleReadDone_swap K r) = mCancelFlag r"
  "mDone (HandleReadDone_swap K r) = mDone r"
  "mOffset (HandleReadDone_swap K r) = mOffset r"
  "mChunkSize (HandleReadDone_swap K r) = mChunkSize r"
  "mChunkVersion (HandleReadDone_swap K r) = mChunkVersion r"
  "refCount (HandleReadDone_swap K r) = refCount r"
  "handler (HandleReadDone_swap K r) = H_HandleWriteDone"
  "wr_offset (HandleReadDone_swap K r) = mOffset r"
  by (simp_all add: HandleReadDone_swap_def Let_def split_def)

lemma owned_simps [simp]:
  "owned (HandleReadDone_status K r) = owned r"
  "owned (HandleReadDone_swap K r) = owned r"
  by (simp_all add: owned_def)

lemma frame_HandleReadDone: "frame this (r, g) (HandleReadDone K E this (r, g))"
proof -
  let ?r1 = "HandleReadDone_status K r"
  let ?r1' = "?r1\<lparr>mDone := (mOffset ?r1 = mChunkSize ?r1 \<and> rd_status ?r1 \<ge> 0 \<and> \<not> mCancelFlag ?r1)\<rparr>"
  let ?r4 = "HandleReadDone_swap K ?r1"
  let ?g1 = "emit (Instance this)
                      (WriteChunk (wr_offset ?r4) (wr_numBytes ?r4)
                         (case wr_dataBuf ?r4 of Some b \<Rightarrow> b | None \<Rightarrow> [])) g"
  have a: "frame this (r, g) (?r1', g)"
    by (rule frame_update) (simp_all add: owned_def)
  have b: "frame this (r, g) (?r4, ?g1)"
    by (rule frame_trans[OF frame_update frame_emit]) simp_all
  show ?thesis
    unfolding HandleReadDone_def Let_def split_def
    using frame_then[OF a, of "Terminate E this", OF frame_Terminate]
      frame_then[OF b, of "Terminate E this", OF frame_Terminate] b
    by simp
qed

lemma Ref_fields [simp]:
  "mChunkId (Ref r) = mChunkId r" "isRS (Ref r) = isRS r" "mOwner (Ref r) = mOwner r"
  "mCancelFlag (Ref r) = mCancelFlag r" "mDone (Ref r) = mDone r"
  "mOffset (Ref r) = mOffset r" "mChunkSize (Ref r) = mChunkSize r"
  "mChunkVersion (Ref r) = mChunkVersion r" "refCount (Ref r) = refCount r + 1"
  "owned (Ref r) = owned r" "handler (Ref r) = handler r" "wr_status (Ref r) = wr_status r"
  "wr_numBytesIO (Ref r) = wr_numBytesIO r" "rd_offset (Ref r) = rd_offset r"
  "rd_dataBuf (Ref r) = rd_dataBuf r" "rd_status (Ref r) = rd_status r"
  "mReadSize (Ref r) = mReadSize r" "mReadTail (Ref r) = mReadTail r"
  "mFileId (Ref r) = mFileId r" "waiting (Ref r) = waiting r"
  "mReadInFlightFlag (Ref r) = mReadInFlightFlag r" "rd_numBytes (Ref r) = rd_numBytes r"
  "wr_numBytes (Ref r) = wr_numBytes r" "wr_offset (Ref r) = wr_offset r"
  "wr_dataBuf (Ref r) = wr_dataBuf r" "rd_chunkVersion (Ref r) = rd_chunkVersion r"
  "mPendingCloseFlag (Ref r) = mPendingCloseFlag r" "deleted (Ref r) = deleted r"
  by (simp_all add: Ref_def owned_def)

lemma frame_UnRef': "frame this (r1, g1) (UnRef this (r1, g1))"
  by (rule frame_UnRef)

lemma frame_ReplicatorImpl_Read: "frame this (r, g) (ReplicatorImpl_Read K E this (r, g))"
proof -
  let ?r = "Ref r"
  let ?r1 = "?r\<lparr>handler := H_HandleReadDone, rd_status := 0, rd_offset := mOffset ?r,
          rd_numBytesIO := 0,
          rd_numBytes := wrap32 (min (mChunkSize ?r - mOffset ?r) (kDefaultReplicationReadSize K))\<rparr>"
  let ?body = "if mOffset ?r \<ge> mChunkSize ?r then
             Terminate E this (?r\<lparr>mDone := (mOffset ?r = mChunkSize ?r)\<rparr>, g)
           else (?r1, emit (Instance this)
                        (if mPeer ?r1
                         then Enqueue_Read (mChunkId ?r1) (rd_chunkVersion ?r1) (rd_offset ?r1)
                                (rd_numBytes ?r1)
                         else NullPeer) g)"
  have a: "frame this (r, g) (?r\<lparr>mDone := (mOffset ?r = mChunkSize ?r)\<rparr>, g)"
    by (rule frame_update) (simp_all add: owned_def)
  note t = frame_then[OF a, of "Terminate E this", OF frame_Terminate]
  have b: "frame this (r, g) (?r1, emit (Instance this)
                        (if mPeer ?r1
                         then Enqueue_Read (mChunkId ?r1) (rd_chunkVersion ?r1) (rd_offset ?r1)
                                (rd_numBytes ?r1)
                         else NullPeer) g)"
    by (intro frame_trans[OF frame_update frame_emit]) (simp_all add: owned_def)
  have body: "frame this (r, g) ?body" using t b by simp
  have e: "ReplicatorImpl_Read K E this (r, g) = UnRef this ?body"
    by (simp add: ReplicatorImpl_Read_def Let_def)
  show ?thesis
    unfolding e by (rule frame_then[OF body frame_UnRef'])
qed

lemma frame_RSReplicatorImpl_Read: "frame this (r, g) (RSReplicatorImpl_Read K E this (r, g))"
proof (cases "mOffset r \<ge> mChunkSize r \<or> rd_status r < 0")
  case True
  then show ?thesis
    using frame_ReplicatorImpl_Read[of this r g K E] by (simp add: RSReplicatorImpl_Read_def)
next
  case False
  let ?r = "Ref r"
  let ?r1 = "?r\<lparr>rd_dataBuf := Some [], rd_status := 0, rd_numBytes := mReadSize ?r,
                    rd_numBytesIO := 0, rd_offset := mOffset ?r, mReadInFlightFlag := True\<rparr>"
  let ?g1 = "emit (Instance this)
                   (Reader_Read (mReadSize ?r1) (mOffset ?r1 + BytesConsumable (mReadTail ?r1))) g"
  let ?body = "if env_Reader_Read E \<noteq> 0 \<and> mReadInFlightFlag ?r1
              then HandleReadDone K E this
                     (?r1\<lparr>mReadInFlightFlag := False, rd_status := env_Reader_Read E\<rparr>, ?g1)
              else (?r1, ?g1)"
  have b: "frame this (r, g) (?r1, ?g1)"
    by (intro frame_trans[OF frame_update frame_emit]) (simp_all add: owned_def)
  have c: "frame this (r, g) (?r1\<lparr>mReadInFlightFlag := False, rd_status := st\<rparr>, ?g1)" for st
    by (intro frame_trans[OF frame_update frame_emit]) (simp_all add: owned_def)
  note h = frame_then[OF c, of "HandleReadDone K E this", OF frame_HandleReadDone]
  have body: "frame this (r, g) ?body" using h b by simp
  have e: "RSReplicatorImpl_Read K E this (r, g) = UnRef this ?body"
    using False by (simp add: RSReplicatorImpl_Read_def Let_def)
  show ?thesis
    unfolding e by (rule frame_then[OF body frame_UnRef'])
qed

lemma frame_Read: "frame this (r, g) (Read K E this (r, g))"
  by (simp add: Read_def frame_ReplicatorImpl_Read frame_RSReplicatorImpl_Read)

lemma frame_HandleStartDone: "frame this (r, g) (HandleStartDone K E this (r, g))"
proof -
  let ?r1 = "r\<lparr>mChunkSize := md_chunkSize r, mChunkVersion := md_chunkVersion r\<rparr>"
  let ?r2 = "?r1\<lparr>rd_chunkVersion := mChunkVersion ?r1, wr_chunkVersion := 0\<rparr>"
  let ?g2 = "emit (Instance this) (AllocChunk (mFileId ?r2) (mChunkId ?r2) 0 True)
               (emit (Instance this) (StaleChunk (mChunkId ?r2) True) g)"
  have a: "frame this (r, g) (?r1, g)"
    by (rule frame_update) (simp_all add: owned_def)
  have b: "frame this (r, g) (?r2, ?g2)"
    by (intro frame_trans[OF frame_update frame_trans[OF frame_emit frame_emit]])
       (simp_all add: owned_def)
  show ?thesis
    unfolding HandleStartDone_def Let_def split_def
    using frame_Terminate[of this r g E]
      frame_then[OF a, of "Terminate E this", OF frame_Terminate]
      frame_then[OF b, of "Terminate E this", OF frame_Terminate]
      frame_then[OF b, of "Read K E this", OF frame_Read]
    by simp
qed

lemma frame_HandleWriteDone: "frame this (r, g) (HandleWriteDone K E this (r, g))"
proof -
  let ?r = "Ref r"
  let ?r1 = "?r\<lparr>mOffset := mOffset ?r + wr_numBytesIO ?r\<rparr>"
  let ?body = "if mCancelFlag ?r \<or> wr_status ?r < 0 then Terminate E this (?r, g)
           else if rd_offset ?r1 = mOffset ?r1 \<and>
                    (case rd_dataBuf ?r1 of Some b \<Rightarrow> b \<noteq> [] | None \<Rightarrow> False)
                 then HandleReadDone K E this (?r1, g)
                 else Read K E this (?r1, g)"
  have a: "frame this (r, g) (?r, g)"
    by (rule frame_update) simp_all
  have b: "frame this (r, g) (?r1, g)"
    by (rule frame_update) (simp_all add: owned_def)
  have body: "frame this (r, g) ?body"
    using frame_then[OF a, of "Terminate E this", OF frame_Terminate]
      frame_then[OF b, of "HandleReadDone K E this", OF frame_HandleReadDone]
      frame_then[OF b, of "Read K E this", OF frame_Read]
    by simp
  have e: "HandleWriteDone K E this (r, g) = UnRef this ?body"
    by (simp add: HandleWriteDone_def Let_def)
  show ?thesis
    unfolding e by (rule frame_then[OF body frame_UnRef'])
qed

lemma frame_ReplicatorImpl_Start: "frame this (r, g) (ReplicatorImpl_Start this (r, g))"
proof -
  let ?r1 = "r\<lparr>md_chunkId := mChunkId r, md_readVerifyFlag := False,
                 handler := H_HandleStartDone\<rparr>"
  have e: "ReplicatorImpl_Start this (r, g) =
      (?r1, emit (Instance this)
              (if mPeer r then Enqueue_GetChunkMetadata (mChunkId r) False else NullPeer) g)"
    by (simp add: ReplicatorImpl_Start_def Let_def)
  show ?thesis
    unfolding e
    by (intro frame_trans[OF frame_update frame_emit]) (simp_all add: owned_def)
qed

lemma frame_RSReplicatorImpl_Start: "frame this (r, g) (RSReplicatorImpl_Start K E this (r, g))"
proof (cases "mOwner r")
  case None
  then show ?thesis by (simp add: RSReplicatorImpl_Start_def frame_emit)
next
  case (Some owner)
  let ?r1 = "r\<lparr>md_chunkSize := CHUNKSIZE K, md_chunkVersion := chunkVersion owner,
                     rd_status := 0, rd_numBytes := 0\<rparr>"
  have b: "frame this (r, g) (?r1\<lparr>md_status := env_Reader_Open E\<rparr>, emit (Instance this) e g)"
    if "\<not> is_SubmitOpResponse e \<and> \<not> is_ReplicationDone e" for e
    using that by (intro frame_trans[OF frame_update frame_emit]) (simp_all add: owned_def)
  show ?thesis
    using Some unfolding RSReplicatorImpl_Start_def Let_def
    by (auto intro!: frame_then[OF b, of _ "HandleStartDone K E this", OF _ frame_HandleStartDone])
qed

lemma frame_Start: "frame this (r, g) (Start K E this (r, g))"
  by (simp add: Start_def frame_ReplicatorImpl_Start frame_RSReplicatorImpl_Start)

lemma frame_Granted: "frame this (r, g) (Granted K E this n (r, g))"
proof -
  have a: "frame this (r, g) (r\<lparr>waiting := False\<rparr>, g)"
    by (rule frame_update) (simp_all add: owned_def)
  show ?thesis
    unfolding Granted_def using frame_then[OF a, of "Start K E this", OF frame_Start] by simp
qed

lemma frame_ReplicatorImpl_Cancel: "frame this (r, g) (ReplicatorImpl_Cancel E this (r, g))"
proof -
  let ?r1 = "r\<lparr>mCancelFlag := True\<rparr>"
  have a: "frame this (r, g) (?r1, g)"
    by (rule frame_update) (simp_all add: owned_def)
  have b: "frame this (r, g) (?r1\<lparr>waiting := False\<rparr>, emit (Instance this) CancelRequest g)"
    by (intro frame_trans[OF frame_update frame_emit]) (simp_all add: owned_def)
  show ?thesis
    unfolding ReplicatorImpl_Cancel_def Let_def
    using a frame_then[OF b, of "Terminate E this", OF frame_Terminate] by simp
qed

lemma frame_RSReplicatorImpl_Cancel: "frame this (r, g) (RSReplicatorImpl_Cancel K E this (r, g))"
proof -
  let ?r = "Ref r"
  let ?g1 = "emit (Instance this) Reader_Shutdown (emit (Instance this) Reader_Unregister g)"
  obtain r2 g2 where c: "ReplicatorImpl_Cancel E this (?r, ?g1) = (r2, g2)"
    by (cases "ReplicatorImpl_Cancel E this (?r, ?g1)")
  have a: "frame this (r, g) (?r, ?g1)"
    by (intro frame_trans[OF frame_update frame_trans[OF frame_emit frame_emit]]) simp_all
  have b: "frame this (r, g) (r2, g2)"
    using frame_then[OF a, of "ReplicatorImpl_Cancel E this", OF frame_ReplicatorImpl_Cancel] c
    by simp
  have d: "frame this (r, g) (r2\<lparr>mReadInFlightFlag := False, rd_status := - ETIMEDOUT K\<rparr>, g2)"
    by (rule frame_trans[OF b]) (rule frame_update, simp_all add: owned_def)
  let ?body = "if mReadInFlightFlag r2 \<and> refCount ?r \<le> refCount r2
           then HandleReadDone K E this
                  (r2\<lparr>mReadInFlightFlag := False, rd_status := - ETIMEDOUT K\<rparr>, g2)
           else (r2, g2)"
  have body: "frame this (r, g) ?body"
    using b frame_then[OF d, of "HandleReadDone K E this", OF frame_HandleReadDone] by simp
  have e: "RSReplicatorImpl_Cancel K E this (r, g) = UnRef this ?body"
    by (simp add: RSReplicatorImpl_Cancel_def Let_def c)
  show ?thesis
    unfolding e by (rule frame_then[OF body frame_UnRef'])
qed

lemma frame_Cancel: "frame this (r, g) (Cancel K E this (r, g))"
  by (simp add: Cancel_def frame_ReplicatorImpl_Cancel frame_RSReplicatorImpl_Cancel)

lemma frame_Run_buffers: "frame this (r, g) (Run_buffers K E this (r, g))"
proof -
  let ?n = "max (16 * 1024) (GetBufferBytesRequired K r)"
  let ?g1 = "emit (Instance this) (IsOverQuota ?n) g"
  let ?g2 = "emit (Instance this) (GetForDiskIo ?n) ?g1"
  have a: "frame this (r, g) (r, ?g1)" by (rule frame_emit) simp
  have b: "frame this (r, g) (r, ?g2)" by (intro frame_trans[OF frame_emit frame_emit]) simp_all
  have c: "frame this (r, g) (r\<lparr>waiting := True\<rparr>, ?g2)"
    by (rule frame_trans[OF b]) (rule frame_update, simp_all add: owned_def)
  show ?thesis
    unfolding Run_buffers_def Let_def
    using frame_then[OF a, of "Terminate E this", OF frame_Terminate]
      frame_then[OF b, of "Start K E this", OF frame_Start] c
    by simp
qed

section \<open>The metadata of the source\<close>

lemma frame_ext:
  assumes "frame this (r, g) rg'"
  shows "trace (snd rg') = trace g @ drop (length (trace g)) (trace (snd rg'))"
proof -
  from assms have "take (length (trace g)) (trace (snd rg')) = trace g"
    by (cases rg') (simp add: frame_def)
  then show ?thesis by (metis append_take_drop_id)
qed

lemma calls_since_after:
  assumes "frame this (r1, g1) rg'" and "trace g1 = trace g @ new"
  shows "calls_since g (snd rg') = map snd new @ calls_since g1 (snd rg')"
proof -
  have "trace (snd rg') = trace g1 @ drop (length (trace g1)) (trace (snd rg'))"
    using assms(1) by (rule frame_ext)
  then have "trace (snd rg') = trace g @ new @ drop (length (trace g1)) (trace (snd rg'))"
    using assms(2) by simp
  then have "drop (length (trace g)) (trace (snd rg')) =
      new @ drop (length (trace g1)) (trace (snd rg'))"
    by (metis append_eq_conv_conj)
  then show ?thesis by (simp add: calls_since_def)
qed

lemma failed_calls:
  assumes "mOwner r = Some owner" "\<not> (mDone r \<and> \<not> mCancelFlag r)"
  shows "filter is_io (calls_since g (snd (Terminate E this (r, g)))) = []"
    and "filter is_ChangeChunkVers (calls_since g (snd (Terminate E this (r, g)))) = []"
    and "filter is_SubmitOpResponse (calls_since g (snd (Terminate E this (r, g)))) =
           [SubmitOpResponse (owner\<lparr>status := - 1, chunkVersion := - 1\<rparr>)]"
    and "mOwner (fst (Terminate E this (r, g))) = None"
  using assms
  by (simp_all add: Terminate_failed HandleReplicationDone_calls HandleReplicationDone_fst
      reply_def)

text \<open>
  C6 (as amended). When the metadata completion reports a negative status, a negative
  chunk size or one above the chunk size, the replicator (not yet done) ends as a
  failure: it allocates no chunk, issues no read nor any other input or output, and the
  request completes with status -1 and chunk version -1. When the reply is valid and the
  replicator is not canceled, its first two calls mark the local copy stale and allocate
  the chunk file with version 0, before any read.
\<close>

theorem HandleStartDone_metadata:
  assumes own: "mOwner r = Some owner" and nd: "\<not> mDone r"
  shows "(md_status r < 0 \<or> md_chunkSize r < 0 \<or> md_chunkSize r > CHUNKSIZE K \<longrightarrow>
            filter is_io (calls_since g (snd (HandleStartDone K E this (r, g)))) = [] \<and>
            filter is_SubmitOpResponse (calls_since g (snd (HandleStartDone K E this (r, g)))) =
              [SubmitOpResponse (owner\<lparr>status := - 1, chunkVersion := - 1\<rparr>)] \<and>
            mOwner (fst (HandleStartDone K E this (r, g))) = None) \<and>
         (\<not> mCancelFlag r \<and> 0 \<le> md_status r \<and> 0 \<le> md_chunkSize r \<and>
          md_chunkSize r \<le> CHUNKSIZE K \<longrightarrow>
            take 2 (calls_since g (snd (HandleStartDone K E this (r, g)))) =
              [StaleChunk (mChunkId r) True, AllocChunk (mFileId r) (mChunkId r) 0 True])"
proof (intro conjI impI)
  let ?r1 = "r\<lparr>mChunkSize := md_chunkSize r, mChunkVersion := md_chunkVersion r\<rparr>"
  assume bad: "md_status r < 0 \<or> md_chunkSize r < 0 \<or> md_chunkSize r > CHUNKSIZE K"
  have e: "HandleStartDone K E this (r, g) = Terminate E this (r, g) \<or>
           HandleStartDone K E this (r, g) = Terminate E this (?r1, g)"
    using bad by (auto simp: HandleStartDone_def Let_def)
  have o1: "mOwner ?r1 = Some owner" and d1: "\<not> (mDone ?r1 \<and> \<not> mCancelFlag ?r1)"
    using own nd by simp_all
  have d0: "\<not> (mDone r \<and> \<not> mCancelFlag r)" using nd by simp
  show "filter is_io (calls_since g (snd (HandleStartDone K E this (r, g)))) = []"
    using e failed_calls(1)[OF own d0, of g E this] failed_calls(1)[OF o1 d1, of g E this]
    by auto
  show "filter is_SubmitOpResponse (calls_since g (snd (HandleStartDone K E this (r, g)))) =
              [SubmitOpResponse (owner\<lparr>status := - 1, chunkVersion := - 1\<rparr>)]"
    using e failed_calls(3)[OF own d0, of g E this] failed_calls(3)[OF o1 d1, of g E this]
    by auto
  show "mOwner (fst (HandleStartDone K E this (r, g))) = None"
    using e failed_calls(4)[OF own d0, of E this g] failed_calls(4)[OF o1 d1, of E this g]
    by auto
next
  let ?r1 = "r\<lparr>mChunkSize := md_chunkSize r, mChunkVersion := md_chunkVersion r\<rparr>"
  let ?r2 = "?r1\<lparr>rd_chunkVersion := mChunkVersion ?r1, wr_chunkVersion := 0\<rparr>"
  let ?g2 = "emit (Instance this) (AllocChunk (mFileId ?r2) (mChunkId ?r2) 0 True)
               (emit (Instance this) (StaleChunk (mChunkId ?r2) True) g)"
  assume ok: "\<not> mCancelFlag r \<and> 0 \<le> md_status r \<and> 0 \<le> md_chunkSize r \<and>
          md_chunkSize r \<le> CHUNKSIZE K"
  have e: "HandleStartDone K E this (r, g) =
      (if env_AllocChunk E < 0 then Terminate E this (?r2, ?g2) else Read K E this (?r2, ?g2))"
    using ok by (simp add: HandleStartDone_def Let_def)
  have f: "frame this (?r2, ?g2) (HandleStartDone K E this (r, g))"
    unfolding e using frame_Terminate[of this ?r2 ?g2 E] frame_Read[of this ?r2 ?g2 K E]
    by simp
  have t: "trace ?g2 = trace g @ [(Instance this, StaleChunk (mChunkId r) True),
      (Instance this, AllocChunk (mFileId r) (mChunkId r) 0 True)]"
    by simp
  show "take 2 (calls_since g (snd (HandleStartDone K E this (r, g)))) =
              [StaleChunk (mChunkId r) True, AllocChunk (mFileId r) (mChunkId r) 0 True]"
    unfolding calls_since_after[OF f t] by simp
qed

theorem HandleStartDone_metadata_witness:
  "filter is_io (calls_since initial_globals (snd (HandleStartDone example_constants
       example_environment 1
       ((Ref (ReplicatorImpl_new example_environment example_replication_op True))
          \<lparr>md_chunkSize := 67108865\<rparr>, initial_globals)))) = [] \<and>
   take 2 (calls_since initial_globals (snd (HandleStartDone example_constants
       example_environment 1
       ((Ref (ReplicatorImpl_new example_environment example_replication_op True))
          \<lparr>md_chunkSize := 100\<rparr>, initial_globals)))) =
     [StaleChunk 2 True, AllocChunk 1 2 0 True]"
proof -
  let ?r = "Ref (ReplicatorImpl_new example_environment example_replication_op True)"
  have o: "mOwner (?r\<lparr>md_chunkSize := n\<rparr>) = Some example_replication_op" for n
    by (simp add: Ref_def ReplicatorImpl_new_def)
  have d: "\<not> mDone (?r\<lparr>md_chunkSize := n\<rparr>)" for n
    by (simp add: Ref_def ReplicatorImpl_new_def)
  have f: "mCancelFlag (?r\<lparr>md_chunkSize := n\<rparr>) = False"
    "md_status (?r\<lparr>md_chunkSize := n\<rparr>) = 0"
    "mChunkId (?r\<lparr>md_chunkSize := n\<rparr>) = 2" "mFileId (?r\<lparr>md_chunkSize := n\<rparr>) = 1" for n
    by (simp_all add: Ref_def ReplicatorImpl_new_def example_replication_op_def)
  from HandleStartDone_metadata[OF o d, of 67108865 example_constants initial_globals
      example_environment 1]
    HandleStartDone_metadata[OF o d, of 100 example_constants initial_globals
      example_environment 1]
  show ?thesis by (simp add: f example_constants_def)
qed

text \<open>
  C6 as stated fails for a replicator that was canceled while the metadata request was
  outstanding: a second request for chunk 2 cancels the first replicator, whose peer
  then reports a valid chunk size of 100; the first replicator ends without marking the
  local copy stale and without allocating a chunk.
\<close>

theorem canceled_replicator_does_not_allocate:
  "filter is_io (calls_of (Instance 1) (trace (glob
     (run_events example_constants le_sint initial_system
        [(example_environment, Ev_Run example_replication_op),
         (example_environment, Ev_Run example_replication_op),
         (example_environment, Ev_MetadataDone 1 0 100 3)])))) =
     [GetForDiskIo 1048576, Enqueue_GetChunkMetadata 2 False] \<and>
   filter is_SubmitOpResponse (calls_of (Instance 1) (trace (glob
     (run_events example_constants le_sint initial_system
        [(example_environment, Ev_Run example_replication_op),
         (example_environment, Ev_Run example_replication_op),
         (example_environment, Ev_MetadataDone 1 0 100 3)])))) =
     [SubmitOpResponse (example_replication_op\<lparr>chunkVersion := - 1, status := - 1\<rparr>)]"
  by code_simp

section \<open>The version that is committed\<close>

lemma commits_only_simps [simp]:
  "commits_only c v []"
  "commits_only c v (es @ es') \<longleftrightarrow> commits_only c v es \<and> commits_only c v es'"
  "commits_only c v (e # es) \<longleftrightarrow> (is_ChangeChunkVers e \<longrightarrow> e = ChangeChunkVers c v True) \<and> commits_only c v es"
  by (auto simp: commits_only_def)

lemma reports_only_simps [simp]:
  "reports_only v []"
  "reports_only v (es @ es') \<longleftrightarrow> reports_only v es \<and> reports_only v es'"
  "reports_only v (e # es) \<longleftrightarrow>
     (case e of SubmitOpResponse op \<Rightarrow> chunkVersion op = v \<or> chunkVersion op = - 1 | _ \<Rightarrow> True) \<and>
     reports_only v es"
  by (auto simp: reports_only_def)

lemma UnRef_calls_versions [simp]:
  "commits_only c v (map snd (UnRef_calls this r))"
  "reports_only v (map snd (UnRef_calls this r))"
  by (simp_all add: UnRef_calls_def)

lemma version_kept_refl [simp]: "version_kept this (r, g) (r, g)"
  by (simp add: version_kept_def calls_since_def)

lemma version_kept_trans:
  assumes a: "version_kept this (r, g) (r1, g1)" and b: "version_kept this (r1, g1) (r2, g2)"
  shows "version_kept this (r, g) (r2, g2)"
proof -
  from a have fa: "frame this (r, g) (r1, g1)" by (simp add: version_kept_def)
  from b have fb: "frame this (r1, g1) (r2, g2)" by (simp add: version_kept_def)
  have t1: "trace g1 = trace g @ drop (length (trace g)) (trace g1)"
    using frame_ext[OF fa] by simp
  have c: "calls_since g g2 = calls_since g g1 @ calls_since g1 g2"
    using calls_since_after[OF fb t1] by (simp add: calls_since_def)
  have k: "mChunkId r1 = mChunkId r" using fa by (simp add: frame_def)
  show ?thesis
    using a b k frame_trans[OF fa fb] by (simp add: version_kept_def c)
qed

lemma version_kept_then:
  assumes "version_kept this (r, g) rg1" and "\<And>r1 g1. version_kept this (r1, g1) (f (r1, g1))"
  shows "version_kept this (r, g) (f rg1)"
  using assms by (metis version_kept_trans prod.collapse)

lemma version_kept_update:
  assumes "mChunkId r' = mChunkId r" "isRS r' = isRS r" "owned r' = owned r"
    and "mCancelFlag r \<longrightarrow> mCancelFlag r'" and "mChunkVersion r' = mChunkVersion r"
  shows "version_kept this (r, g) (r', g)"
  using assms frame_update[of r' r this g]
  by (simp add: version_kept_def calls_since_def)

lemma version_kept_emit:
  assumes "\<not> is_SubmitOpResponse e \<and> \<not> is_ReplicationDone e \<and> \<not> is_ChangeChunkVers e"
  shows "version_kept this (r, g) (r, emit (Instance this) e g)"
  using assms frame_emit[of e this r g]
  by (cases e) (simp_all add: version_kept_def calls_since_def)

lemma version_kept_UnRef: "version_kept this (r, g) (UnRef this (r, g))"
proof -
  obtain r' g' where u: "UnRef this (r, g) = (r', g')" by (cases "UnRef this (r, g)")
  have "trace g' = trace g @ UnRef_calls this r" using UnRef_trace[of this r g] u by simp
  moreover have "mChunkVersion r' = mChunkVersion r" using UnRef_fst[of this r g] u by simp
  ultimately show ?thesis
    unfolding u using frame_UnRef[of this r g] u by (simp add: version_kept_def)
qed

lemma version_kept_HandleReplicationDone:
  "version_kept this (r, g) (HandleReplicationDone this dat (r, g))"
proof (cases "mOwner r")
  case None
  then show ?thesis by (simp add: HandleReplicationDone_no_owner version_kept_emit)
next
  case (Some owner)
  obtain r' g' where u: "HandleReplicationDone this dat (r, g) = (r', g')"
    by (cases "HandleReplicationDone this dat (r, g)")
  have c: "calls_since g g' =
           (if notified this r g
            then [ReplicationDone (mChunkId r) (case dat of Some v \<Rightarrow> v | None \<Rightarrow> 0)] else []) @
           map snd (UnRef_calls this r) @
           [SubmitOpResponse (reply r owner (case dat of Some v \<Rightarrow> v | None \<Rightarrow> 0))]"
    using HandleReplicationDone_calls[OF Some, of g this dat] u by simp
  have v: "mChunkVersion r' = mChunkVersion r"
    using HandleReplicationDone_fst[OF Some, of this dat g] u by simp
  show ?thesis
    unfolding u using frame_HandleReplicationDone[of this r g dat] u v
    by (simp add: version_kept_def c reply_def)
qed

lemma version_kept_Terminate: "version_kept this (r, g) (Terminate E this (r, g))"
proof (cases "mDone r \<and> \<not> mCancelFlag r")
  case False
  then show ?thesis by (simp add: Terminate_failed version_kept_HandleReplicationDone)
next
  case True
  let ?r1 = "r\<lparr>handler := H_HandleReplicationDone\<rparr>"
  let ?g1 = "emit (Instance this) (ChangeChunkVers (mChunkId r) (mChunkVersion r) True) g"
  have f: "frame this (r, g) (?r1, ?g1)"
    by (intro frame_trans[OF frame_update frame_emit]) (simp_all add: owned_def)
  have 1: "version_kept this (r, g) (?r1, ?g1)"
    using f by (simp add: version_kept_def calls_since_def)
  have e: "Terminate E this (r, g) =
      (if env_ChangeChunkVers E = 0 then (?r1, ?g1)
       else HandleReplicationDone this (Some (env_ChangeChunkVers E)) (?r1, ?g1))"
    using True by (simp add: Terminate_commit)
  show ?thesis
    unfolding e
    using 1 version_kept_then[OF 1, of "HandleReplicationDone this (Some (env_ChangeChunkVers E))",
        OF version_kept_HandleReplicationDone]
    by simp
qed

lemma version_kept_HandleReadDone: "version_kept this (r, g) (HandleReadDone K E this (r, g))"
proof -
  let ?r1 = "HandleReadDone_status K r"
  let ?r1' = "?r1\<lparr>mDone := (mOffset ?r1 = mChunkSize ?r1 \<and> rd_status ?r1 \<ge> 0 \<and> \<not> mCancelFlag ?r1)\<rparr>"
  let ?r4 = "HandleReadDone_swap K ?r1"
  let ?g1 = "emit (Instance this)
                      (WriteChunk (wr_offset ?r4) (wr_numBytes ?r4)
                         (case wr_dataBuf ?r4 of Some b \<Rightarrow> b | None \<Rightarrow> [])) g"
  have a: "version_kept this (r, g) (?r1', g)"
    by (rule version_kept_update) (simp_all add: owned_def)
  have b: "version_kept this (r, g) (?r4, ?g1)"
    by (rule version_kept_trans[OF version_kept_update version_kept_emit]) simp_all
  show ?thesis
    unfolding HandleReadDone_def Let_def split_def
    using version_kept_then[OF a, of "Terminate E this", OF version_kept_Terminate]
      version_kept_then[OF b, of "Terminate E this", OF version_kept_Terminate] b
    by simp
qed

lemma version_kept_ReplicatorImpl_Read:
  "version_kept this (r, g) (ReplicatorImpl_Read K E this (r, g))"
proof -
  let ?r = "Ref r"
  let ?r1 = "?r\<lparr>handler := H_HandleReadDone, rd_status := 0, rd_offset := mOffset ?r,
          rd_numBytesIO := 0,
          rd_numBytes := wrap32 (min (mChunkSize ?r - mOffset ?r) (kDefaultReplicationReadSize K))\<rparr>"
  let ?body = "if mOffset ?r \<ge> mChunkSize ?r then
             Terminate E this (?r\<lparr>mDone := (mOffset ?r = mChunkSize ?r)\<rparr>, g)
           else (?r1, emit (Instance this)
                        (if mPeer ?r1
                         then Enqueue_Read (mChunkId ?r1) (rd_chunkVersion ?r1) (rd_offset ?r1)
                                (rd_numBytes ?r1)
                         else NullPeer) g)"
  have a: "version_kept this (r, g) (?r\<lparr>mDone := (mOffset ?r = mChunkSize ?r)\<rparr>, g)"
    by (rule version_kept_update) (simp_all add: owned_def Ref_def)
  note t = version_kept_then[OF a, of "Terminate E this", OF version_kept_Terminate]
  have b: "version_kept this (r, g) (?r1, emit (Instance this)
                        (if mPeer ?r1
                         then Enqueue_Read (mChunkId ?r1) (rd_chunkVersion ?r1) (rd_offset ?r1)
                                (rd_numBytes ?r1)
                         else NullPeer) g)"
    by (intro version_kept_trans[OF version_kept_update version_kept_emit])
       (simp_all add: owned_def Ref_def)
  have body: "version_kept this (r, g) ?body" using t b by simp
  have e: "ReplicatorImpl_Read K E this (r, g) = UnRef this ?body"
    by (simp add: ReplicatorImpl_Read_def Let_def)
  show ?thesis
    unfolding e by (rule version_kept_then[OF body version_kept_UnRef])
qed

lemma version_kept_RSReplicatorImpl_Read:
  "version_kept this (r, g) (RSReplicatorImpl_Read K E this (r, g))"
proof (cases "mOffset r \<ge> mChunkSize r \<or> rd_status r < 0")
  case True
  then show ?thesis
    using version_kept_ReplicatorImpl_Read[of this r g K E]
    by (simp add: RSReplicatorImpl_Read_def)
next
  case False
  let ?r = "Ref r"
  let ?r1 = "?r\<lparr>rd_dataBuf := Some [], rd_status := 0, rd_numBytes := mReadSize ?r,
                    rd_numBytesIO := 0, rd_offset := mOffset ?r, mReadInFlightFlag := True\<rparr>"
  let ?g1 = "emit (Instance this)
                   (Reader_Read (mReadSize ?r1) (mOffset ?r1 + BytesConsumable (mReadTail ?r1))) g"
  let ?body = "if env_Reader_Read E \<noteq> 0 \<and> mReadInFlightFlag ?r1
              then HandleReadDone K E this
                     (?r1\<lparr>mReadInFlightFlag := False, rd_status := env_Reader_Read E\<rparr>, ?g1)
              else (?r1, ?g1)"
  have b: "version_kept this (r, g) (?r1, ?g1)"
    by (intro version_kept_trans[OF version_kept_update version_kept_emit])
       (simp_all add: owned_def Ref_def)
  have c: "version_kept this (r, g) (?r1\<lparr>mReadInFlightFlag := False, rd_status := st\<rparr>, ?g1)" for st
    by (intro version_kept_trans[OF version_kept_update version_kept_emit])
       (simp_all add: owned_def Ref_def)
  note h = version_kept_then[OF c, of "HandleReadDone K E this", OF version_kept_HandleReadDone]
  have body: "version_kept this (r, g) ?body" using h b by simp
  have e: "RSReplicatorImpl_Read K E this (r, g) = UnRef this ?body"
    using False by (simp add: RSReplicatorImpl_Read_def Let_def)
  show ?thesis
    unfolding e by (rule version_kept_then[OF body version_kept_UnRef])
qed

lemma version_kept_Read: "version_kept this (r, g) (Read K E this (r, g))"
  by (simp add: Read_def version_kept_ReplicatorImpl_Read version_kept_RSReplicatorImpl_Read)

lemma version_kept_HandleWriteDone: "version_kept this (r, g) (HandleWriteDone K E this (r, g))"
proof -
  let ?r = "Ref r"
  let ?r1 = "?r\<lparr>mOffset := mOffset ?r + wr_numBytesIO ?r\<rparr>"
  let ?body = "if mCancelFlag ?r \<or> wr_status ?r < 0 then Terminate E this (?r, g)
           else if rd_offset ?r1 = mOffset ?r1 \<and>
                    (case rd_dataBuf ?r1 of Some b \<Rightarrow> b \<noteq> [] | None \<Rightarrow> False)
                 then HandleReadDone K E this (?r1, g)
                 else Read K E this (?r1, g)"
  have a: "version_kept this (r, g) (?r, g)"
    by (rule version_kept_update) simp_all
  have b: "version_kept this (r, g) (?r1, g)"
    by (rule version_kept_update) (simp_all add: owned_def)
  have body: "version_kept this (r, g) ?body"
    using version_kept_then[OF a, of "Terminate E this", OF version_kept_Terminate]
      version_kept_then[OF b, of "HandleReadDone K E this", OF version_kept_HandleReadDone]
      version_kept_then[OF b, of "Read K E this", OF version_kept_Read]
    by simp
  have e: "HandleWriteDone K E this (r, g) = UnRef this ?body"
    by (simp add: HandleWriteDone_def Let_def)
  show ?thesis
    unfolding e by (rule version_kept_then[OF body version_kept_UnRef])
qed

lemma version_kept_ReplicatorImpl_Cancel:
  "version_kept this (r, g) (ReplicatorImpl_Cancel E this (r, g))"
proof -
  let ?r1 = "r\<lparr>mCancelFlag := True\<rparr>"
  have a: "version_kept this (r, g) (?r1, g)"
    by (rule version_kept_update) (simp_all add: owned_def)
  have b: "version_kept this (r, g) (?r1\<lparr>waiting := False\<rparr>, emit (Instance this) CancelRequest g)"
    by (intro version_kept_trans[OF version_kept_update version_kept_emit])
       (simp_all add: owned_def)
  show ?thesis
    unfolding ReplicatorImpl_Cancel_def Let_def
    using a version_kept_then[OF b, of "Terminate E this", OF version_kept_Terminate] by simp
qed

lemma version_kept_RSReplicatorImpl_Cancel:
  "version_kept this (r, g) (RSReplicatorImpl_Cancel K E this (r, g))"
proof -
  let ?r = "Ref r"
  let ?g1 = "emit (Instance this) Reader_Shutdown (emit (Instance this) Reader_Unregister g)"
  obtain r2 g2 where c: "ReplicatorImpl_Cancel E this (?r, ?g1) = (r2, g2)"
    by (cases "ReplicatorImpl_Cancel E this (?r, ?g1)")
  have a: "version_kept this (r, g) (?r, ?g1)"
    by (intro version_kept_trans[OF version_kept_update
          version_kept_trans[OF version_kept_emit version_kept_emit]]) simp_all
  have b: "version_kept this (r, g) (r2, g2)"
    using version_kept_then[OF a, of "ReplicatorImpl_Cancel E this",
        OF version_kept_ReplicatorImpl_Cancel] c
    by simp
  have d: "version_kept this (r, g)
      (r2\<lparr>mReadInFlightFlag := False, rd_status := - ETIMEDOUT K\<rparr>, g2)"
    by (rule version_kept_trans[OF b]) (rule version_kept_update, simp_all add: owned_def)
  let ?body = "if mReadInFlightFlag r2 \<and> refCount ?r \<le> refCount r2
           then HandleReadDone K E this
                  (r2\<lparr>mReadInFlightFlag := False, rd_status := - ETIMEDOUT K\<rparr>, g2)
           else (r2, g2)"
  have body: "version_kept this (r, g) ?body"
    using b version_kept_then[OF d, of "HandleReadDone K E this", OF version_kept_HandleReadDone]
    by simp
  have e: "RSReplicatorImpl_Cancel K E this (r, g) = UnRef this ?body"
    by (simp add: RSReplicatorImpl_Cancel_def Let_def c)
  show ?thesis
    unfolding e by (rule version_kept_then[OF body version_kept_UnRef])
qed

lemma version_kept_Cancel: "version_kept this (r, g) (Cancel K E this (r, g))"
  by (simp add: Cancel_def version_kept_ReplicatorImpl_Cancel
      version_kept_RSReplicatorImpl_Cancel)

lemma version_kept_D:
  assumes "version_kept this (r, g) rg'"
  shows "frame this (r, g) rg'" "mChunkVersion (fst rg') = mChunkVersion r"
    "commits_only (mChunkId r) (mChunkVersion r) (calls_since g (snd rg'))"
    "reports_only (mChunkVersion r) (calls_since g (snd rg'))"
  using assms by (cases rg', simp add: version_kept_def)+

section \<open>Completions of the striped reader keep the frame\<close>

lemma Done_parts_fields [simp]:
  "mChunkId (Done_end_of_chunk r b) = mChunkId r" "isRS (Done_end_of_chunk r b) = isRS r"
  "mOwner (Done_end_of_chunk r b) = mOwner r"
  "mCancelFlag (Done_end_of_chunk r b) = mCancelFlag r"
  "mChunkId (Done_move_blocks r b n) = mChunkId r" "isRS (Done_move_blocks r b n) = isRS r"
  "mOwner (Done_move_blocks r b n) = mOwner r"
  "mCancelFlag (Done_move_blocks r b n) = mCancelFlag r"
  by (simp_all add: Done_end_of_chunk_def Done_move_blocks_def Let_def split_def)

lemma frame_Done_completion:
  assumes "Done_completion K E dec this st bufp owner (r, g) = Inr rg'"
    and own: "mOwner r = Some owner"
  shows "frame this (r, g) rg'"
proof (cases bufp)
  case None
  then show ?thesis
    using assms frame_HandleReadDone[of this r g K E] by (auto simp: Done_completion_def)
next
  case (Some inBuf)
  show ?thesis
  proof (cases "rd_status r = 0")
    case True
    show ?thesis
    proof (cases "mReadSize r > BytesConsumable inBuf \<or> mOffset r + mReadSize r \<ge> mChunkSize r")
      case eoc: True
      let ?r3 = "Done_end_of_chunk r inBuf"
      let ?r4 = "if env_Reader_IsActive E then Ref (?r3\<lparr>mPendingCloseFlag := True\<rparr>) else ?r3"
      let ?g1 = "emit (Instance this) Reader_Close g"
      have a: "frame this (r, g) (?r4, ?g1)"
        by (intro frame_trans[OF frame_update frame_emit]) (simp_all add: owned_def)
      have e: "rg' = HandleReadDone K E this (?r4, ?g1)"
        using assms(1) Some True eoc by (simp add: Done_completion_def Let_def)
      show ?thesis
        unfolding e by (rule frame_then[OF a frame_HandleReadDone])
    next
      case neoc: False
      let ?nmv = "c_div (BytesConsumable (mReadTail r) + BytesConsumable inBuf)
                              (CHECKSUM_BLOCKSIZE K) * CHECKSUM_BLOCKSIZE K"
      show ?thesis
      proof (cases "?nmv \<le> 0")
        case True
        let ?r3 = "r\<lparr>rd_dataBuf := Some [], mReadTail := mReadTail r @ inBuf\<rparr>"
        have a: "frame this (r, g) (?r3, g)"
          by (rule frame_update) (simp_all add: owned_def)
        have e: "rg' = Read K E this (?r3, g)"
          using assms(1) Some \<open>rd_status r = 0\<close> neoc True
          by (simp add: Done_completion_def Let_def)
        show ?thesis unfolding e by (rule frame_then[OF a frame_Read])
      next
        case False
        let ?r3 = "Done_move_blocks r inBuf ?nmv"
        have a: "frame this (r, g) (?r3, g)"
          by (rule frame_update) (simp_all add: owned_def)
        have e: "rg' = HandleReadDone K E this (?r3, g)"
          using assms(1) Some \<open>rd_status r = 0\<close> neoc False
          by (simp add: Done_completion_def Let_def)
        show ?thesis unfolding e by (rule frame_then[OF a frame_HandleReadDone])
      qed
    qed
  next
    case False
    show ?thesis
    proof (cases "st < 0 \<and> inBuf \<noteq> []")
      case True
      let ?ns = "wrap32 (numStripes owner + numRecoveryStripes owner)"
      from assms(1) Some False True obtain n os where
        p: "bad_stripes_loop dec ?ns inBuf 0 [] = Inr (n, os)"
        and e: "rg' = HandleReadDone K E this
                (if n > 0 then r\<lparr>mOwner := Some (owner\<lparr>invalidStripeIdx := os\<rparr>)\<rparr> else r, g)"
        by (auto simp: Done_completion_def Let_def split: sum.splits)
      have a: "frame this (r, g)
          (if n > 0 then r\<lparr>mOwner := Some (owner\<lparr>invalidStripeIdx := os\<rparr>)\<rparr> else r, g)"
        using own by (intro frame_update) (simp_all add: owned_def)
      show ?thesis unfolding e by (rule frame_then[OF a frame_HandleReadDone])
    next
      case nb: False
      have e: "rg' = HandleReadDone K E this (r, g)"
        using assms(1) Some False nb by (auto simp: Done_completion_def Let_def)
      show ?thesis unfolding e by (rule frame_HandleReadDone)
    qed
  qed
qed

lemma frame_Done_body:
  assumes "Done_body K E dec this mine st off sz bufp req (r, g) = Inr rg'"
  shows "frame this (r, g) rg'"
proof -
  have ni: "\<not> Done_invalid r mine off sz bufp req"
    using assms by (auto simp: Done_body_def)
  show ?thesis
  proof (cases "mPendingCloseFlag r")
    case True
    have a: "frame this (r, g) (r\<lparr>mPendingCloseFlag := False\<rparr>, g)"
      by (rule frame_update) (simp_all add: owned_def)
    show ?thesis
      using assms ni True frame_then[OF a, of "UnRef this", OF frame_UnRef']
      by (auto simp: Done_body_def split: if_splits)
  next
    case np: False
    show ?thesis
    proof (cases "mReadInFlightFlag r")
      case False
      have a: "frame this (r, g) (r\<lparr>rd_status := st\<rparr>, g)"
        by (rule frame_update) (simp_all add: owned_def)
      show ?thesis
        using assms ni np False a by (auto simp: Done_body_def split: if_splits)
    next
      case True
      let ?r1 = "r\<lparr>mReadInFlightFlag := False\<rparr>"
      have a: "frame this (r, g) (?r1, g)"
        by (rule frame_update) (simp_all add: owned_def)
      show ?thesis
      proof (cases "mOwner r")
        case None
        then show ?thesis
          using assms ni np True a by (auto simp: Done_body_def Let_def)
      next
        case (Some owner)
        show ?thesis
        proof (cases "rd_status r \<noteq> 0 \<or> (bufp = None \<and> st = 0)")
          case c: True
          then show ?thesis
            using assms ni np \<open>mReadInFlightFlag r\<close> Some a
            by (auto simp: Done_body_def Let_def)
        next
          case c: False
          let ?r2 = "?r1\<lparr>rd_status := st\<rparr>"
          have b: "frame this (r, g) (?r2, g)"
            by (rule frame_update) (simp_all add: owned_def)
          have e: "Done_completion K E dec this st bufp owner (?r2, g) = Inr rg'"
            using assms ni np \<open>mReadInFlightFlag r\<close> Some c
            by (auto simp: Done_body_def Let_def)
          have o: "mOwner ?r2 = Some owner" using Some by simp
          have "frame this (?r2, g) rg'" using e o by (rule frame_Done_completion)
          then show ?thesis using b by (metis frame_trans prod.collapse)
        qed
      qed
    qed
  qed
qed

lemma frame_Done:
  assumes "Done K E dec this mine st off sz bufp req (r, g) = Inr rg'"
  shows "frame this (r, g) rg'"
proof -
  from assms obtain rg1 where
    b: "Done_body K E dec this mine st off sz bufp req (Ref r, g) = Inr rg1"
    and e: "rg' = UnRef this rg1"
    by (auto simp: Done_def split: sum.splits)
  have a: "frame this (r, g) (Ref r, g)" by (rule frame_update) simp_all
  have "frame this (Ref r, g) rg1" using b by (rule frame_Done_body)
  then have "frame this (r, g) rg1" using a by (metis frame_trans prod.collapse)
  then show ?thesis unfolding e by (rule frame_then[OF _ frame_UnRef'])
qed

section \<open>The registry\<close>

lemma map_of_insort_key:
  "map_of reg k = None \<Longrightarrow>
   map_of (insort_key fst (k, v) reg) k' = (if k' = k then Some v else map_of reg k')"
  by (induction reg) (auto split: if_splits)

lemma keys_insort_key:
  "set (map fst (insort_key fst (k, v) reg)) = insert k (set (map fst reg))"
  by (induction reg) auto

lemma distinct_insort_key:
  "k \<notin> set (map fst reg) \<Longrightarrow> distinct (map fst reg) \<Longrightarrow>
   distinct (map fst (insort_key fst (k, v) reg))"
proof (induction reg)
  case Nil
  then show ?case by simp
next
  case (Cons x reg)
  have "fst x \<notin> set (map fst (insort_key fst (k, v) reg))"
    using Cons.prems unfolding keys_insort_key by auto
  then show ?case using Cons by auto
qed

lemma map_of_registry_assign:
  "map_of (registry_assign reg k v) k' =
     (if k' = k then map_option (\<lambda>x. v) (map_of reg k) else map_of reg k')"
  by (induction reg) (auto simp: registry_assign_def)

lemma keys_registry_assign [simp]: "map fst (registry_assign reg k v) = map fst reg"
  by (induction reg) (auto simp: registry_assign_def)

lemma map_of_registry_erase:
  "map_of (registry_erase reg k) k' = (if k' = k then None else map_of reg k')"
  by (induction reg) (auto simp: registry_erase_def)

lemma distinct_registry_erase:
  "distinct (map fst reg) \<Longrightarrow> distinct (map fst (registry_erase reg k))"
  by (simp add: registry_erase_def distinct_map_filter)

lemma registry_reinsert_find: "registry_find (registry_reinsert reg k v) k = Some v"
  by (cases "map_of reg k")
     (simp_all add: registry_reinsert_def registry_insert_def registry_find_def
        map_of_insort_key map_of_registry_assign)

lemma registry_reinsert_distinct:
  assumes d: "distinct (map fst reg)"
  shows "distinct (map fst (registry_reinsert reg k v))"
proof (cases "map_of reg k")
  case None
  from None have "k \<notin> set (map fst reg)" by (simp add: map_of_eq_None_iff)
  then have "distinct (map fst (insort_key fst (k, v) reg))"
    using d by (rule distinct_insort_key)
  then show ?thesis using None by (simp add: registry_reinsert_def registry_insert_def)
next
  case (Some a)
  then show ?thesis using d by (simp add: registry_reinsert_def registry_insert_def)
qed

lemma frame_registry_distinct:
  assumes "frame this (r, g) rg'" "distinct (map fst (sInFlightReplications g))"
  shows "distinct (map fst (sInFlightReplications (snd rg')))"
  using assms by (cases rg') (auto simp: frame_def distinct_registry_erase)

lemma frame_flag:
  assumes "frame this (r, g) rg'" "mCancelFlag r"
  shows "mCancelFlag (fst rg')"
  using assms by (cases rg') (simp add: frame_def)

lemma Cancel_sets_flag: "mCancelFlag (fst (Cancel K E this (r, g)))"
proof (cases "isRS r")
  case False
  let ?r1 = "r\<lparr>mCancelFlag := True\<rparr>"
  have "mCancelFlag (fst (ReplicatorImpl_Cancel E this (r, g)))"
    unfolding ReplicatorImpl_Cancel_def Let_def
    using frame_flag[OF frame_Terminate[of this "?r1\<lparr>waiting := False\<rparr>" _ E]]
    by simp
  then show ?thesis using False by (simp add: Cancel_def)
next
  case True
  let ?r = "Ref r"
  let ?g1 = "emit (Instance this) Reader_Shutdown (emit (Instance this) Reader_Unregister g)"
  let ?r1 = "?r\<lparr>mCancelFlag := True\<rparr>"
  obtain r2 g2 where c: "ReplicatorImpl_Cancel E this (?r, ?g1) = (r2, g2)"
    by (cases "ReplicatorImpl_Cancel E this (?r, ?g1)")
  have "mCancelFlag (fst (ReplicatorImpl_Cancel E this (?r, ?g1)))"
    unfolding ReplicatorImpl_Cancel_def Let_def
    using frame_flag[OF frame_Terminate[of this "?r1\<lparr>waiting := False\<rparr>" _ E]]
    by simp
  then have f2: "mCancelFlag r2" using c by simp
  let ?body = "if mReadInFlightFlag r2 \<and> refCount ?r \<le> refCount r2
           then HandleReadDone K E this
                  (r2\<lparr>mReadInFlightFlag := False, rd_status := - ETIMEDOUT K\<rparr>, g2)
           else (r2, g2)"
  have fb: "mCancelFlag (fst ?body)"
    using f2 frame_flag[OF frame_HandleReadDone[of this
        "r2\<lparr>mReadInFlightFlag := False, rd_status := - ETIMEDOUT K\<rparr>" g2 K E]]
    by simp
  have e: "RSReplicatorImpl_Cancel K E this (r, g) = UnRef this ?body"
    by (simp add: RSReplicatorImpl_Cancel_def Let_def c)
  have "mCancelFlag (fst (UnRef this ?body))"
    using frame_flag[OF frame_UnRef[of this "fst ?body" "snd ?body"]] fb by simp
  then show ?thesis using True e by (simp add: Cancel_def)
qed

lemma store_simps [simp]:
  "glob (store a (r, g) s) = g"
  "heap (store a (r, g) s) a' = (if a' = a then (if deleted r then None else Some r) else heap s a')"
  "nextId (store a (r, g) s) = nextId s"
  "died (store a (r, g) s) = died s"
  by (simp_all add: store_def)

lemma store_glob' [simp]: "glob (store a rg s) = snd rg"
  by (cases rg) simp

text \<open>The registration when another replicator holds the entry of the chunk.\<close>

lemma Run_cancel_other_other:
  assumes "registry_find (sInFlightReplications (glob s)) (mChunkId me) = Some other"
    and "other \<noteq> this" and "heap s other = Some otherObj"
  shows "Run_cancel_other K E this me s =
           (me, store other (Cancel K E other (otherObj, glob s)) s)"
  using assms by (simp add: Run_cancel_other_def)

lemma Run_cancel_other_self:
  assumes "registry_find (sInFlightReplications (glob s)) (mChunkId me) = Some this"
  shows "Run_cancel_other K E this me s =
           (fst (Cancel K E this (me, glob s)), s\<lparr>glob := snd (Cancel K E this (me, glob s))\<rparr>)"
  using assms by (simp add: Run_cancel_other_def split_def Let_def)

lemma Run_register_collision:
  assumes reg: "registry_find (sInFlightReplications (glob s)) (mChunkId me) = Some other"
  shows "Run_register K E this me s =
     (let (me1, s1) = Run_cancel_other K E this me s;
          s2 = s1\<lparr>glob := (glob s1)\<lparr>sInFlightReplications :=
                   registry_reinsert (sInFlightReplications (glob s1)) (mChunkId me1) this\<rparr>\<rparr>
      in if mCancelFlag me1 then
           (let (me2, g2) = Terminate E this (me1\<lparr>mCancelFlag := False\<rparr>, glob s2)
            in ((me2, s2\<lparr>glob := g2\<rparr>), True))
         else ((me1, s2), False))"
proof -
  have i: "registry_insert (sInFlightReplications (glob s)) (mChunkId me) this =
      (sInFlightReplications (glob s), False)"
    using reg by (simp add: registry_insert_def registry_find_def)
  show ?thesis
    unfolding Run_register_def Let_def i by simp
qed

lemma Run_register_other:
  assumes reg: "registry_find (sInFlightReplications (glob s)) (mChunkId me) = Some other"
    and ne: "other \<noteq> this" and live: "heap s other = Some otherObj"
    and nc: "\<not> mCancelFlag me"
  shows "Run_register K E this me s =
     ((me, (store other (Cancel K E other (otherObj, glob s)) s)
             \<lparr>glob := (snd (Cancel K E other (otherObj, glob s)))
                \<lparr>sInFlightReplications :=
                   registry_reinsert
                     (sInFlightReplications (snd (Cancel K E other (otherObj, glob s))))
                     (mChunkId me) this\<rparr>\<rparr>),
      False)"
  unfolding Run_register_collision[OF reg] Run_cancel_other_other[OF reg ne live]
  using nc by simp

lemma Run_register_fresh:
  assumes reg: "registry_find (sInFlightReplications (glob s)) (mChunkId me) = None"
  shows "Run_register K E this me s =
     ((me, s\<lparr>glob := (glob s)
               \<lparr>sInFlightReplications :=
                   insort_key fst (mChunkId me, this) (sInFlightReplications (glob s)),
                sReplicationCount := sReplicationCount (glob s) + 1\<rparr>\<rparr>), False)"
  using reg by (simp add: Run_register_def Let_def registry_insert_def registry_find_def)

lemma Run_register_self:
  assumes reg: "registry_find (sInFlightReplications (glob s)) (mChunkId me) = Some this"
  shows "Run_register K E this me s =
     (let me1 = fst (Cancel K E this (me, glob s));
          g1 = snd (Cancel K E this (me, glob s));
          g2 = g1\<lparr>sInFlightReplications :=
                    registry_reinsert (sInFlightReplications g1) (mChunkId me1) this\<rparr>;
          res = Terminate E this (me1\<lparr>mCancelFlag := False\<rparr>, g2)
      in ((fst res, s\<lparr>glob := snd res\<rparr>), True))"
  unfolding Run_register_collision[OF reg] Run_cancel_other_self[OF reg]
  using Cancel_sets_flag[of K E this me "glob s"] by (simp add: Let_def split_def)

lemma on_instance_distinct:
  assumes f: "\<And>r g. frame this (r, g) (f (r, g))" and d: "registry_distinct s"
  shows "registry_distinct (on_instance this guard f s)"
proof (cases "heap s this")
  case None
  then show ?thesis using d by (simp add: on_instance_def)
next
  case (Some r)
  have "distinct (map fst (sInFlightReplications (snd (f (r, glob s)))))"
    using f[of r "glob s"] d unfolding registry_distinct_def by (rule frame_registry_distinct)
  then show ?thesis
    using Some d by (simp add: on_instance_def registry_distinct_def)
qed

lemma Run_cancel_other_distinct:
  assumes d: "registry_distinct s"
  shows "registry_distinct (snd (Run_cancel_other K E this me s))"
proof -
  let ?other = "the (registry_find (sInFlightReplications (glob s)) (mChunkId me))"
  show ?thesis
  proof (cases "?other = this")
    case True
    have "distinct (map fst (sInFlightReplications (snd (Cancel K E this (me, glob s)))))"
      using frame_Cancel[of this me "glob s" K E] d unfolding registry_distinct_def
      by (rule frame_registry_distinct)
    then show ?thesis
      using True by (simp add: Run_cancel_other_def split_def Let_def registry_distinct_def)
  next
    case False
    show ?thesis
    proof (cases "heap s ?other")
      case None
      then show ?thesis using False d by (simp add: Run_cancel_other_def Let_def)
    next
      case (Some otherObj)
      have "distinct (map fst (sInFlightReplications (snd (Cancel K E ?other (otherObj, glob s)))))"
        using frame_Cancel[of ?other otherObj "glob s" K E] d unfolding registry_distinct_def
        by (rule frame_registry_distinct)
      then show ?thesis
        using False Some by (simp add: Run_cancel_other_def Let_def registry_distinct_def)
    qed
  qed
qed

lemma Run_register_distinct:
  assumes d: "registry_distinct s"
  shows "registry_distinct (snd (fst (Run_register K E this me s)))"
proof (cases "registry_find (sInFlightReplications (glob s)) (mChunkId me)")
  case None
  have "mChunkId me \<notin> set (map fst (sInFlightReplications (glob s)))"
    using None by (simp add: registry_find_def map_of_eq_None_iff)
  then have "distinct (map fst (insort_key fst (mChunkId me, this) (sInFlightReplications (glob s))))"
    using d unfolding registry_distinct_def by (rule distinct_insort_key)
  then show ?thesis
    unfolding Run_register_fresh[OF None] by (simp add: registry_distinct_def)
next
  case (Some other)
  obtain me1 s1 where c: "Run_cancel_other K E this me s = (me1, s1)"
    by (cases "Run_cancel_other K E this me s")
  have d1: "distinct (map fst (sInFlightReplications (glob s1)))"
    using Run_cancel_other_distinct[OF d, of K E this me] c by (simp add: registry_distinct_def)
  define g2 where "g2 = (glob s1)\<lparr>sInFlightReplications :=
       registry_reinsert (sInFlightReplications (glob s1)) (mChunkId me1) this\<rparr>"
  have d2: "distinct (map fst (sInFlightReplications g2))"
    unfolding g2_def using registry_reinsert_distinct[OF d1] by simp
  have t: "distinct (map fst (sInFlightReplications
      (snd (Terminate E this (me1\<lparr>mCancelFlag := False\<rparr>, g2)))))"
    using frame_Terminate[of this "me1\<lparr>mCancelFlag := False\<rparr>" g2 E] d2
    by (rule frame_registry_distinct)
  show ?thesis
    unfolding Run_register_collision[OF Some] c
    using t d2 by (simp add: Let_def split_def registry_distinct_def g2_def)
qed

lemma store_distinct:
  "registry_distinct (store a rg s) \<longleftrightarrow> distinct (map fst (sInFlightReplications (snd rg)))"
  by (simp add: registry_distinct_def)

lemma Run_distinct:
  assumes d: "registry_distinct s"
  shows "registry_distinct (Run K E this s)"
proof (cases "heap s this")
  case None
  then show ?thesis using d by (simp add: Run_def)
next
  case (Some me)
  obtain me1 s1 ret where r: "Run_register K E this me s = ((me1, s1), ret)"
    by (metis prod.collapse)
  have d1: "distinct (map fst (sInFlightReplications (glob s1)))"
    using Run_register_distinct[OF d, of K E this me] r by (simp add: registry_distinct_def)
  have b: "distinct (map fst (sInFlightReplications (snd (Run_buffers K E this (me1, glob s1)))))"
    using frame_Run_buffers[of this me1 "glob s1" K E] d1 by (rule frame_registry_distinct)
  show ?thesis
    using Some r d1 b by (simp add: Run_def store_distinct)
qed

lemma Replicator_Run_distinct:
  assumes d: "registry_distinct s"
  shows "registry_distinct (Replicator_Run K E op s)"
proof -
  have r: "distinct (map fst (sInFlightReplications (glob (Run K E a s'))))"
    if "sInFlightReplications (glob s') = sInFlightReplications (glob s)" for a s'
  proof -
    have "registry_distinct s'" using that d by (simp add: registry_distinct_def)
    then have "registry_distinct (Run K E a s')" by (rule Run_distinct)
    then show ?thesis by (simp add: registry_distinct_def)
  qed
  show ?thesis
    unfolding Replicator_Run_def Let_def
    using d by (simp add: registry_distinct_def r)
qed

lemma CancelAll_loop_distinct:
  "registry_distinct s \<Longrightarrow> registry_distinct (CancelAll_loop K E es s)"
proof (induction es arbitrary: s)
  case Nil
  then show ?case by simp
next
  case (Cons x es)
  obtain k a where x: "x = (k, a)" by (cases x)
  have o: "registry_distinct (on_instance a (\<lambda>r. True) (Cancel K E a) s)"
    using frame_Cancel Cons.prems by (rule on_instance_distinct)
  then have "registry_distinct ((on_instance a (\<lambda>r. True) (Cancel K E a) s)\<lparr>died := True\<rparr>)"
    by (simp add: registry_distinct_def)
  then show ?case using Cons.IH[OF o] by (simp add: x Let_def)
qed

lemma CancelAll_distinct:
  assumes d: "registry_distinct s"
  shows "registry_distinct (CancelAll K E s)"
  using CancelAll_loop_distinct[OF d, of K E "sInFlightReplications (glob s)"]
  by (simp add: CancelAll_def Let_def registry_distinct_def)

lemma deliver_distinct:
  assumes d: "registry_distinct s"
  shows "registry_distinct (deliver K dec s (E, ev))"
proof (cases "died s")
  case True
  then show ?thesis using d by (simp add: deliver_def)
next
  case False
  show ?thesis
  proof (cases ev)
    case (Ev_Run op)
    then show ?thesis using False Replicator_Run_distinct[OF d] by (simp add: deliver_def)
  next
    case (Ev_Granted a n)
    then show ?thesis
      using False on_instance_distinct[OF frame_Granted d] by (simp add: deliver_def)
  next
    case (Ev_MetadataDone a st sz ver)
    have f: "frame a (r, g) (HandleStartDone K E a
                 (r\<lparr>md_status := st, md_chunkSize := sz, md_chunkVersion := ver\<rparr>, g))" for r g
      by (rule frame_then[OF frame_update frame_HandleStartDone]) (simp_all add: owned_def)
    show ?thesis
      using False Ev_MetadataDone
        on_instance_distinct[of a "\<lambda>(r, g). HandleStartDone K E a
                 (r\<lparr>md_status := st, md_chunkSize := sz, md_chunkVersion := ver\<rparr>, g)", OF _ d]
        f
      by (simp add: deliver_def)
  next
    case (Ev_ReadDone a st dat)
    have f: "frame a (r, g) (HandleReadDone K E a (r\<lparr>rd_status := st, rd_dataBuf := dat\<rparr>, g))"
      for r g
      by (rule frame_then[OF frame_update frame_HandleReadDone]) (simp_all add: owned_def)
    show ?thesis
      using False Ev_ReadDone
        on_instance_distinct[of a "\<lambda>(r, g). HandleReadDone K E a
                 (r\<lparr>rd_status := st, rd_dataBuf := dat\<rparr>, g)", OF _ d] f
      by (simp add: deliver_def)
  next
    case (Ev_WriteDone a st n)
    have f: "frame a (r, g) (HandleWriteDone K E a (r\<lparr>wr_status := st, wr_numBytesIO := n\<rparr>, g))"
      for r g
      by (rule frame_then[OF frame_update frame_HandleWriteDone]) (simp_all add: owned_def)
    show ?thesis
      using False Ev_WriteDone
        on_instance_distinct[of a "\<lambda>(r, g). HandleWriteDone K E a
                 (r\<lparr>wr_status := st, wr_numBytesIO := n\<rparr>, g)", OF _ d] f
      by (simp add: deliver_def)
  next
    case (Ev_ChangeChunkVersDone a dat)
    then show ?thesis
      using False on_instance_distinct[OF frame_HandleReplicationDone d]
      by (simp add: deliver_def)
  next
    case (Ev_ReaderDone a mine st off sz buf req)
    show ?thesis
    proof (cases "heap s a")
      case None
      then show ?thesis using False Ev_ReaderDone d by (simp add: deliver_def)
    next
      case (Some r)
      show ?thesis
      proof (cases "Done K E dec a mine st off sz buf req (r, glob s)")
        case (Inl e)
        then show ?thesis
          using False Ev_ReaderDone Some d by (simp add: deliver_def registry_distinct_def)
      next
        case (Inr rg)
        have "distinct (map fst (sInFlightReplications (snd rg)))"
          using frame_Done[OF Inr] d unfolding registry_distinct_def
          by (rule frame_registry_distinct)
        then show ?thesis
          using False Ev_ReaderDone Some Inr d by (simp add: deliver_def store_distinct)
      qed
    qed
  next
    case Ev_CancelAll
    then show ?thesis using False CancelAll_distinct[OF d] by (simp add: deliver_def)
  qed
qed

lemma run_events_distinct:
  assumes "registry_distinct s"
  shows "registry_distinct (run_events K dec s evs)"
  using assms unfolding run_events_def
proof (induction evs arbitrary: s)
  case Nil
  then show ?case by simp
next
  case (Cons x evs)
  obtain E ev where x: "x = (E, ev)" by (cases x)
  have "registry_distinct (deliver K dec s (E, ev))" using Cons.prems by (rule deliver_distinct)
  then show ?case using Cons.IH x by simp
qed

section \<open>The replicators of the registry\<close>

lemma store_nextId' [simp]: "nextId (store a rg s) = nextId s"
  by (cases rg) simp

lemma frame_registry_subset:
  assumes "frame this (r, g) rg'"
  shows "set (sInFlightReplications (snd rg')) \<subseteq> set (sInFlightReplications g)"
  using assms by (cases rg') (auto simp: frame_def registry_erase_def)

lemma registry_reinsert_values:
  "snd ` set (registry_reinsert reg k v) \<subseteq> insert v (snd ` set reg)"
proof (cases "map_of reg k")
  case None
  then show ?thesis
    by (auto simp: registry_reinsert_def registry_insert_def set_insort_key)
next
  case (Some a)
  have "snd x \<in> insert v (snd ` set reg)" if "x \<in> set (registry_assign reg k v)" for x
    using that by (force simp: registry_assign_def split: if_splits)
  then show ?thesis
    using Some by (auto simp: registry_reinsert_def registry_insert_def)
qed

lemma on_instance_fresh:
  assumes f: "\<And>r g. frame this (r, g) (f (r, g))" and d: "registry_fresh s"
  shows "registry_fresh (on_instance this guard f s)"
proof (cases "heap s this")
  case None
  then show ?thesis using d by (simp add: on_instance_def)
next
  case (Some r)
  have "set (sInFlightReplications (snd (f (r, glob s)))) \<subseteq> set (sInFlightReplications (glob s))"
    using f[of r "glob s"] by (rule frame_registry_subset)
  then show ?thesis
    using Some d by (auto simp: on_instance_def registry_fresh_def)
qed

lemma on_instance_nextId [simp]: "nextId (on_instance this guard f s) = nextId s"
  by (cases "heap s this") (simp_all add: on_instance_def split_def store_def)

lemma Run_cancel_other_fresh:
  assumes d: "registry_fresh s"
  shows "registry_fresh (snd (Run_cancel_other K E this me s))"
    and "nextId (snd (Run_cancel_other K E this me s)) = nextId s"
proof -
  let ?other = "the (registry_find (sInFlightReplications (glob s)) (mChunkId me))"
  have "registry_fresh (snd (Run_cancel_other K E this me s)) \<and>
      nextId (snd (Run_cancel_other K E this me s)) = nextId s"
  proof (cases "?other = this")
    case True
    have "set (sInFlightReplications (snd (Cancel K E this (me, glob s)))) \<subseteq>
        set (sInFlightReplications (glob s))"
      using frame_Cancel[of this me "glob s" K E] by (rule frame_registry_subset)
    then show ?thesis
      using True d by (auto simp: Run_cancel_other_def split_def Let_def registry_fresh_def)
  next
    case False
    show ?thesis
    proof (cases "heap s ?other")
      case None
      then show ?thesis using False d by (simp add: Run_cancel_other_def Let_def)
    next
      case (Some otherObj)
      have "set (sInFlightReplications (snd (Cancel K E ?other (otherObj, glob s)))) \<subseteq>
          set (sInFlightReplications (glob s))"
        using frame_Cancel[of ?other otherObj "glob s" K E] by (rule frame_registry_subset)
      then show ?thesis
        using False Some d
        by (auto simp: Run_cancel_other_def Let_def registry_fresh_def)
    qed
  qed
  then show "registry_fresh (snd (Run_cancel_other K E this me s))"
    and "nextId (snd (Run_cancel_other K E this me s)) = nextId s"
    by simp_all
qed

lemma Run_register_fresh_inv:
  assumes d: "registry_fresh s" and lt: "this < nextId s"
  shows "registry_fresh (snd (fst (Run_register K E this me s))) \<and>
         nextId (snd (fst (Run_register K E this me s))) = nextId s"
proof (cases "registry_find (sInFlightReplications (glob s)) (mChunkId me)")
  case None
  show ?thesis
    unfolding Run_register_fresh[OF None]
    using d lt by (auto simp: registry_fresh_def set_insort_key)
next
  case (Some other)
  obtain me1 s1 where c: "Run_cancel_other K E this me s = (me1, s1)"
    by (cases "Run_cancel_other K E this me s")
  have d1: "registry_fresh s1" and n1: "nextId s1 = nextId s"
    using Run_cancel_other_fresh[OF d, of K E this me] c by simp_all
  define g2 where "g2 = (glob s1)\<lparr>sInFlightReplications :=
       registry_reinsert (sInFlightReplications (glob s1)) (mChunkId me1) this\<rparr>"
  have v2: "\<forall>x \<in> set (sInFlightReplications g2). snd x < nextId s"
  proof
    fix x assume "x \<in> set (sInFlightReplications g2)"
    then have "snd x \<in> insert this (snd ` set (sInFlightReplications (glob s1)))"
      using registry_reinsert_values[of "sInFlightReplications (glob s1)" "mChunkId me1" this]
      by (auto simp: g2_def)
    then show "snd x < nextId s" using d1 n1 lt by (auto simp: registry_fresh_def)
  qed
  have t: "set (sInFlightReplications (snd (Terminate E this (me1\<lparr>mCancelFlag := False\<rparr>, g2))))
      \<subseteq> set (sInFlightReplications g2)"
    using frame_Terminate[of this "me1\<lparr>mCancelFlag := False\<rparr>" g2 E]
    by (rule frame_registry_subset)
  show ?thesis
    unfolding Run_register_collision[OF Some] c
    using t v2 n1 by (auto simp: Let_def split_def registry_fresh_def g2_def)
qed

lemma Run_fresh_inv:
  assumes d: "registry_fresh s" and lt: "this < nextId s"
  shows "registry_fresh (Run K E this s)"
proof (cases "heap s this")
  case None
  then show ?thesis using d by (simp add: Run_def)
next
  case (Some me)
  obtain me1 s1 ret where r: "Run_register K E this me s = ((me1, s1), ret)"
    by (metis prod.collapse)
  have d1: "registry_fresh s1" and n1: "nextId s1 = nextId s"
    using Run_register_fresh_inv[OF d lt, of K E me] r by simp_all
  have b: "set (sInFlightReplications (snd (Run_buffers K E this (me1, glob s1)))) \<subseteq>
      set (sInFlightReplications (glob s1))"
    using frame_Run_buffers[of this me1 "glob s1" K E] by (rule frame_registry_subset)
  show ?thesis
    using Some r d1 n1 b by (auto simp: Run_def registry_fresh_def)
qed

lemma Replicator_Run_fresh:
  assumes d: "registry_fresh s"
  shows "registry_fresh (Replicator_Run K E op s)"
proof -
  have r: "registry_fresh (Run K E (nextId s) s')"
    if "sInFlightReplications (glob s') = sInFlightReplications (glob s)"
      "nextId s' = Suc (nextId s)" for s'
  proof (rule Run_fresh_inv)
    show "registry_fresh s'" using that d by (auto simp: registry_fresh_def)
    show "nextId s < nextId s'" using that by simp
  qed
  show ?thesis
    unfolding Replicator_Run_def Let_def
    using d by (simp add: r) (simp add: registry_fresh_def)
qed

lemma CancelAll_loop_fresh:
  "registry_fresh s \<Longrightarrow> registry_fresh (CancelAll_loop K E es s)"
proof (induction es arbitrary: s)
  case Nil
  then show ?case by simp
next
  case (Cons x es)
  obtain k a where x: "x = (k, a)" by (cases x)
  have o: "registry_fresh (on_instance a (\<lambda>r. True) (Cancel K E a) s)"
    using frame_Cancel Cons.prems by (rule on_instance_fresh)
  then have "registry_fresh ((on_instance a (\<lambda>r. True) (Cancel K E a) s)\<lparr>died := True\<rparr>)"
    by (simp add: registry_fresh_def)
  then show ?case using Cons.IH[OF o] by (simp add: x Let_def)
qed

lemma CancelAll_fresh:
  assumes d: "registry_fresh s"
  shows "registry_fresh (CancelAll K E s)"
  using CancelAll_loop_fresh[OF d, of K E "sInFlightReplications (glob s)"]
  by (simp add: CancelAll_def Let_def registry_fresh_def)

lemma deliver_fresh:
  assumes d: "registry_fresh s"
  shows "registry_fresh (deliver K dec s (E, ev))"
proof (cases "died s")
  case True
  then show ?thesis using d by (simp add: deliver_def)
next
  case False
  show ?thesis
  proof (cases ev)
    case (Ev_Run op)
    then show ?thesis using False Replicator_Run_fresh[OF d] by (simp add: deliver_def)
  next
    case (Ev_Granted a n)
    then show ?thesis
      using False on_instance_fresh[OF frame_Granted d] by (simp add: deliver_def)
  next
    case (Ev_MetadataDone a st sz ver)
    have f: "frame a (r, g) (HandleStartDone K E a
                 (r\<lparr>md_status := st, md_chunkSize := sz, md_chunkVersion := ver\<rparr>, g))" for r g
      by (rule frame_then[OF frame_update frame_HandleStartDone]) (simp_all add: owned_def)
    show ?thesis
      using False Ev_MetadataDone
        on_instance_fresh[of a "\<lambda>(r, g). HandleStartDone K E a
                 (r\<lparr>md_status := st, md_chunkSize := sz, md_chunkVersion := ver\<rparr>, g)", OF _ d]
        f
      by (simp add: deliver_def)
  next
    case (Ev_ReadDone a st dat)
    have f: "frame a (r, g) (HandleReadDone K E a (r\<lparr>rd_status := st, rd_dataBuf := dat\<rparr>, g))"
      for r g
      by (rule frame_then[OF frame_update frame_HandleReadDone]) (simp_all add: owned_def)
    show ?thesis
      using False Ev_ReadDone
        on_instance_fresh[of a "\<lambda>(r, g). HandleReadDone K E a
                 (r\<lparr>rd_status := st, rd_dataBuf := dat\<rparr>, g)", OF _ d] f
      by (simp add: deliver_def)
  next
    case (Ev_WriteDone a st n)
    have f: "frame a (r, g) (HandleWriteDone K E a (r\<lparr>wr_status := st, wr_numBytesIO := n\<rparr>, g))"
      for r g
      by (rule frame_then[OF frame_update frame_HandleWriteDone]) (simp_all add: owned_def)
    show ?thesis
      using False Ev_WriteDone
        on_instance_fresh[of a "\<lambda>(r, g). HandleWriteDone K E a
                 (r\<lparr>wr_status := st, wr_numBytesIO := n\<rparr>, g)", OF _ d] f
      by (simp add: deliver_def)
  next
    case (Ev_ChangeChunkVersDone a dat)
    then show ?thesis
      using False on_instance_fresh[OF frame_HandleReplicationDone d]
      by (simp add: deliver_def)
  next
    case (Ev_ReaderDone a mine st off sz buf req)
    show ?thesis
    proof (cases "heap s a")
      case None
      then show ?thesis using False Ev_ReaderDone d by (simp add: deliver_def)
    next
      case (Some r)
      show ?thesis
      proof (cases "Done K E dec a mine st off sz buf req (r, glob s)")
        case (Inl e)
        then show ?thesis
          using False Ev_ReaderDone Some d by (simp add: deliver_def registry_fresh_def)
      next
        case (Inr rg)
        have "set (sInFlightReplications (snd rg)) \<subseteq> set (sInFlightReplications (glob s))"
          using frame_Done[OF Inr] by (rule frame_registry_subset)
        then show ?thesis
          using False Ev_ReaderDone Some Inr d
          by (cases rg) (auto simp: deliver_def registry_fresh_def)
      qed
    qed
  next
    case Ev_CancelAll
    then show ?thesis using False CancelAll_fresh[OF d] by (simp add: deliver_def)
  qed
qed

lemma run_events_fresh:
  assumes "registry_fresh s"
  shows "registry_fresh (run_events K dec s evs)"
  using assms unfolding run_events_def
proof (induction evs arbitrary: s)
  case Nil
  then show ?case by simp
next
  case (Cons x evs)
  obtain E ev where x: "x = (E, ev)" by (cases x)
  have "registry_fresh (deliver K dec s (E, ev))" using Cons.prems by (rule deliver_fresh)
  then show ?case using Cons.IH x by simp
qed

section \<open>The request for buffers\<close>

lemma frame_calls_of_other:
  assumes "frame a (r, g) rg'" "a \<noteq> this"
  shows "calls_of (Instance this) (trace (snd rg')) = calls_of (Instance this) (trace g)"
proof -
  let ?new = "drop (length (trace g)) (trace (snd rg'))"
  have e: "trace (snd rg') = trace g @ ?new" using assms(1) by (rule frame_ext)
  have "\<forall>x \<in> set ?new. fst x = Instance a"
    using assms(1) by (cases rg') (simp add: frame_def)
  then have "filter (\<lambda>(c', e). c' = Instance this) ?new = []"
    using assms(2) by (auto simp: filter_empty_conv)
  then show ?thesis
    unfolding calls_of_def by (subst e) simp
qed

lemma Run_cancel_other_not_self:
  assumes ns: "registry_find (sInFlightReplications (glob s)) (mChunkId me) = Some other"
    and ne: "other \<noteq> this"
  shows "fst (Run_cancel_other K E this me s) = me"
    and "calls_of (Instance this) (trace (glob (snd (Run_cancel_other K E this me s)))) =
         calls_of (Instance this) (trace (glob s))"
proof -
  show "fst (Run_cancel_other K E this me s) = me"
    using ns ne by (cases "heap s other") (simp_all add: Run_cancel_other_def)
  show "calls_of (Instance this) (trace (glob (snd (Run_cancel_other K E this me s)))) =
         calls_of (Instance this) (trace (glob s))"
  proof (cases "heap s other")
    case None
    then show ?thesis using ns ne by (simp add: Run_cancel_other_def)
  next
    case (Some otherObj)
    have "calls_of (Instance this) (trace (snd (Cancel K E other (otherObj, glob s)))) =
        calls_of (Instance this) (trace (glob s))"
      using frame_Cancel[of other otherObj "glob s" K E] ne by (rule frame_calls_of_other)
    then show ?thesis using ns ne Some by (simp add: Run_cancel_other_def)
  qed
qed

lemma Run_register_not_self:
  assumes ns: "registry_find (sInFlightReplications (glob s)) (mChunkId me) \<noteq> Some this"
    and nc: "\<not> mCancelFlag me"
  shows "Run_register K E this me s = ((me, snd (fst (Run_register K E this me s))), False)"
    and "calls_of (Instance this) (trace (glob (snd (fst (Run_register K E this me s))))) =
         calls_of (Instance this) (trace (glob s))"
proof -
  have "Run_register K E this me s = ((me, snd (fst (Run_register K E this me s))), False) \<and>
     calls_of (Instance this) (trace (glob (snd (fst (Run_register K E this me s))))) =
         calls_of (Instance this) (trace (glob s))"
  proof (cases "registry_find (sInFlightReplications (glob s)) (mChunkId me)")
    case None
    show ?thesis unfolding Run_register_fresh[OF None] by simp
  next
    case (Some other)
    then have ne: "other \<noteq> this" using ns by auto
    obtain me1 s1 where c: "Run_cancel_other K E this me s = (me1, s1)"
      by (cases "Run_cancel_other K E this me s")
    have m: "me1 = me" using Run_cancel_other_not_self(1)[OF Some ne, of K E] c by simp
    have t: "calls_of (Instance this) (trace (glob s1)) = calls_of (Instance this) (trace (glob s))"
      using Run_cancel_other_not_self(2)[OF Some ne, of K E] c by simp
    show ?thesis
      unfolding Run_register_collision[OF Some] c using m nc t by (simp add: Let_def)
  qed
  then show "Run_register K E this me s = ((me, snd (fst (Run_register K E this me s))), False)"
    and "calls_of (Instance this) (trace (glob (snd (fst (Run_register K E this me s))))) =
         calls_of (Instance this) (trace (glob s))"
    by simp_all
qed

lemma Run_not_self:
  assumes h: "heap s this = Some me"
    and ns: "registry_find (sInFlightReplications (glob s)) (mChunkId me) \<noteq> Some this"
    and nc: "\<not> mCancelFlag me"
  shows "Run K E this s =
     store this
       (Run_buffers K E this (me, glob (snd (fst (Run_register K E this me s)))))
       (snd (fst (Run_register K E this me s)))"
proof -
  obtain s1 where r: "Run_register K E this me s = ((me, s1), False)"
    using Run_register_not_self(1)[OF ns nc, of K E] by metis
  show ?thesis using h r by (simp add: Run_def)
qed

section \<open>The report of the invalid stripes\<close>

lemma join_spaces_Cons:
  "join_spaces (w # ws) = w @ concat (map (\<lambda>v. '' '' @ v) ws)"
  by (induction ws arbitrary: w) simp_all

lemma bad_stripes_loop_step:
  assumes "20 \<le> length buf" "n < ns"
  shows "bad_stripes_loop dec ns buf n os =
     (if dec (take 4 buf) < 0 \<or> dec (take 4 buf) \<ge> ns
      then Inl (Die ''recovery: completion: invalid bad stripe index'')
      else bad_stripes_loop dec ns (drop 20 buf) (n + 1)
             (os @ (if n > 0 then '' '' else '''') @ show_int (dec (take 4 buf)) @ '' '' @
              show_int (dec (take 8 (drop 4 buf))) @ '' '' @
              show_int (dec (take 8 (drop 12 buf)))))"
proof -
  have ne: "buf \<noteq> []" using assms(1) by auto
  have r1: "ReadVal dec 4 buf = Inr (dec (take 4 buf), drop 4 buf)"
    using assms(1) by (simp add: ReadVal_def Let_def)
  have r2: "ReadVal dec 8 (drop 4 buf) = Inr (dec (take 8 (drop 4 buf)), drop 12 buf)"
    using assms(1) by (simp add: ReadVal_def Let_def)
  have r3: "ReadVal dec 8 (drop 12 buf) = Inr (dec (take 8 (drop 12 buf)), drop 20 buf)"
    using assms(1) by (simp add: ReadVal_def Let_def)
  show ?thesis
    by (subst bad_stripes_loop.simps) (use ne assms(2) in \<open>simp add: r1 r2 r3\<close>)
qed

lemma bad_stripes_loop_short:
  assumes "buf \<noteq> []" "length buf < 20" "n < ns"
  shows "bad_stripes_loop dec ns buf n os = Inl (Die ''invalid buffer size'')"
proof -
  consider "length buf < 4" | "4 \<le> length buf" "length buf < 12" | "12 \<le> length buf"
    by linarith
  then show ?thesis
  proof cases
    case 1
    then have "ReadVal dec 4 buf = Inl (Die ''invalid buffer size'')"
      by (simp add: ReadVal_def Let_def)
    then show ?thesis
      by (subst bad_stripes_loop.simps) (use assms in simp)
  next
    case 2
    then have "ReadVal dec 4 buf = Inr (dec (take 4 buf), drop 4 buf)"
      "ReadVal dec 8 (drop 4 buf) = Inl (Die ''invalid buffer size'')"
      by (simp_all add: ReadVal_def Let_def)
    then show ?thesis
      by (subst bad_stripes_loop.simps) (use assms in simp)
  next
    case 3
    then have "ReadVal dec 4 buf = Inr (dec (take 4 buf), drop 4 buf)"
      "ReadVal dec 8 (drop 4 buf) = Inr (dec (take 8 (drop 4 buf)), drop 12 buf)"
      "ReadVal dec 8 (drop 12 buf) = Inl (Die ''invalid buffer size'')"
      using assms(2) by (simp_all add: ReadVal_def Let_def)
    then show ?thesis
      by (subst bad_stripes_loop.simps) (use assms in simp)
  qed
qed

lemma bad_stripes_loop_full:
  assumes "buf \<noteq> []" "n \<ge> ns"
  shows "bad_stripes_loop dec ns buf n os =
           Inl (Die ''recovery: completion: invalid number of bad stripes'')"
  by (subst bad_stripes_loop.simps) (use assms in simp)

lemma bad_stripes_loop_accepts:
  assumes "length buf mod 20 = 0" "0 \<le> n"
    and "n + int (length (spec_triplets dec buf)) \<le> ns"
    and "\<forall>t \<in> set (spec_triplets dec buf). 0 \<le> fst t \<and> fst t < ns"
  shows "bad_stripes_loop dec ns buf n os =
     Inr (n + int (length (spec_triplets dec buf)),
          os @ (let ws = concat (map (\<lambda>(idx, cid, ver). [show_int idx, show_int cid, show_int ver])
                                  (spec_triplets dec buf))
                in if n > 0 then concat (map (\<lambda>v. '' '' @ v) ws) else join_spaces ws))"
  using assms
proof (induction dec buf arbitrary: n os rule: spec_triplets.induct)
  case (1 dec buf)
  show ?case
  proof (cases "length buf < 20")
    case True
    then have e: "buf = []" using "1.prems"(1) by auto
    show ?thesis unfolding e
      by (subst bad_stripes_loop.simps) (simp add: spec_triplets.simps[of dec "[]"])
  next
    case False
    let ?i = "dec (take 4 buf)" and ?c = "dec (take 8 (drop 4 buf))"
      and ?v = "dec (take 8 (drop 12 buf))"
    have ts: "spec_triplets dec buf = (?i, ?c, ?v) # spec_triplets dec (drop 20 buf)"
      using False by (simp add: spec_triplets.simps[of dec buf])
    have len: "20 \<le> length buf" using False by simp
    have n: "n < ns" using "1.prems"(3) ts by simp
    have i: "\<not> (?i < 0 \<or> ?i \<ge> ns)" using "1.prems"(4) ts by auto
    have m: "length (drop 20 buf) mod 20 = 0"
      using "1.prems"(1) len by (simp add: mod_eq_0_iff_dvd dvd_diff_nat)
    have ih: "bad_stripes_loop dec ns (drop 20 buf) (n + 1) os' =
       Inr (n + 1 + int (length (spec_triplets dec (drop 20 buf))),
          os' @ (let ws = concat (map (\<lambda>(idx, cid, ver).
                                         [show_int idx, show_int cid, show_int ver])
                                  (spec_triplets dec (drop 20 buf)))
                in if n + 1 > 0 then concat (map (\<lambda>v. '' '' @ v) ws) else join_spaces ws))"
      for os'
      using "1.IH"[OF False m, of "n + 1" os'] "1.prems" ts by simp
    have sp: "(@) '' '' = (#) CHR '' ''" by (rule ext) simp
    show ?thesis
      unfolding bad_stripes_loop_step[OF len n] ih
      using i "1.prems"(2) by (simp add: ts Let_def join_spaces_Cons sp)
  qed
qed

lemma bad_stripes_loop_refuses:
  assumes "buf \<noteq> [] \<or> n \<le> ns"
    and "\<not> (length buf mod 20 = 0 \<and> n + int (length (spec_triplets dec buf)) \<le> ns \<and>
            (\<forall>t \<in> set (spec_triplets dec buf). 0 \<le> fst t \<and> fst t < ns))"
  shows "bad_stripes_loop dec ns buf n os =
           Inl (Die ''recovery: completion: invalid number of bad stripes'') \<or>
         bad_stripes_loop dec ns buf n os =
           Inl (Die ''recovery: completion: invalid bad stripe index'') \<or>
         (length buf mod 20 \<noteq> 0 \<and>
          bad_stripes_loop dec ns buf n os = Inl (Die ''invalid buffer size''))"
  using assms
proof (induction dec buf arbitrary: n os rule: spec_triplets.induct)
  case (1 dec buf)
  show ?case
  proof (cases "buf \<noteq> [] \<and> n \<ge> ns")
    case True
    then show ?thesis by (simp add: bad_stripes_loop_full)
  next
    case full: False
    show ?thesis
    proof (cases "length buf < 20")
      case True
      have ne: "buf \<noteq> []"
      proof
        assume e: "buf = []"
        then have "n \<le> ns" using "1.prems"(1) by simp
        then show False using "1.prems"(2) e by (simp add: spec_triplets.simps[of dec "[]"])
      qed
      then have n: "n < ns" using full by simp
      have "length buf mod 20 \<noteq> 0" using True ne by simp
      then show ?thesis using bad_stripes_loop_short[OF ne True n] by simp
    next
      case False
      let ?i = "dec (take 4 buf)" and ?c = "dec (take 8 (drop 4 buf))"
        and ?v = "dec (take 8 (drop 12 buf))"
      have ts: "spec_triplets dec buf = (?i, ?c, ?v) # spec_triplets dec (drop 20 buf)"
        using False by (simp add: spec_triplets.simps[of dec buf])
      have len: "20 \<le> length buf" using False by simp
      have n: "n < ns" using full len by auto
      have m: "length (drop 20 buf) mod 20 = length buf mod 20"
        using len by (simp add: le_mod_geq)
      show ?thesis
      proof (cases "?i < 0 \<or> ?i \<ge> ns")
        case True
        then show ?thesis unfolding bad_stripes_loop_step[OF len n] by simp
      next
        case i: False
        have a: "drop 20 buf \<noteq> [] \<or> n + 1 \<le> ns" using n by simp
        have b: "\<not> (length (drop 20 buf) mod 20 = 0 \<and>
            n + 1 + int (length (spec_triplets dec (drop 20 buf))) \<le> ns \<and>
            (\<forall>t \<in> set (spec_triplets dec (drop 20 buf)). 0 \<le> fst t \<and> fst t < ns))"
          using "1.prems"(2) i unfolding m ts by auto
        show ?thesis
          unfolding bad_stripes_loop_step[OF len n]
          using i "1.IH"[OF False a b] m by simp
      qed
    qed
  qed
qed

lemma calls_since_UnRef:
  assumes "frame this (r, g) X"
  shows "calls_since g (snd (UnRef this X)) =
           calls_since g (snd X) @ map snd (UnRef_calls this (fst X))"
proof -
  have e: "trace (snd X) = trace g @ drop (length (trace g)) (trace (snd X))"
    using assms by (rule frame_ext)
  have "trace (snd (UnRef this X)) = trace (snd X) @ UnRef_calls this (fst X)"
    using UnRef_trace[of this "fst X" "snd X"] by simp
  then have "trace (snd (UnRef this X)) =
      trace g @ (drop (length (trace g)) (trace (snd X)) @ UnRef_calls this (fst X))"
    using e by simp
  then have "drop (length (trace g)) (trace (snd (UnRef this X))) =
      drop (length (trace g)) (trace (snd X)) @ UnRef_calls this (fst X)"
    by (metis append_eq_conv_conj)
  then show ?thesis
    by (simp add: calls_since_def)
qed

lemma Done_reports:
  assumes ok: "\<not> Done_invalid r inReaderIsMine inOffset inSize (Some buf) inRequestIdIsThis"
    and st: "\<not> mPendingCloseFlag r" "mReadInFlightFlag r" "rd_status r = 0"
    and own: "mOwner r = Some owner"
    and neg: "inStatusCode < 0" and ne: "buf \<noteq> []"
    and ns: "is_int32 (numStripes owner + numRecoveryStripes owner)"
  shows "Done K E dec this inReaderIsMine inStatusCode inOffset inSize (Some buf)
           inRequestIdIsThis (r, g) =
     (case bad_stripes_loop dec (numStripes owner + numRecoveryStripes owner) buf 0 [] of
        Inl e \<Rightarrow> Inl e
      | Inr (n, os) \<Rightarrow>
          Inr (UnRef this (HandleReadDone K E this
                 (if n > 0
                  then (Ref r)\<lparr>mReadInFlightFlag := False, rd_status := inStatusCode,
                               mOwner := Some (owner\<lparr>invalidStripeIdx := os\<rparr>)\<rparr>
                  else (Ref r)\<lparr>mReadInFlightFlag := False, rd_status := inStatusCode\<rparr>, g))))"
proof -
  have i: "\<not> Done_invalid (Ref r) inReaderIsMine inOffset inSize (Some buf) inRequestIdIsThis"
    using ok own by (simp add: Done_invalid_def Ref_def)
  have w: "wrap32 (numStripes owner + numRecoveryStripes owner) =
      numStripes owner + numRecoveryStripes owner"
    using ns by (rule wrap32_id)
  have b: "Done_body K E dec this inReaderIsMine inStatusCode inOffset inSize (Some buf)
       inRequestIdIsThis (Ref r, g) =
     Done_completion K E dec this inStatusCode (Some buf) owner
       ((Ref r)\<lparr>mReadInFlightFlag := False, rd_status := inStatusCode\<rparr>, g)"
    using i st own by (simp add: Done_body_def Ref_def Let_def)
  have c: "Done_completion K E dec this inStatusCode (Some buf) owner
       ((Ref r)\<lparr>mReadInFlightFlag := False, rd_status := inStatusCode\<rparr>, g) =
     (case bad_stripes_loop dec (numStripes owner + numRecoveryStripes owner) buf 0 [] of
        Inl e \<Rightarrow> Inl e
      | Inr (n, os) \<Rightarrow>
          Inr (HandleReadDone K E this
                 (if n > 0
                  then (Ref r)\<lparr>mReadInFlightFlag := False, rd_status := inStatusCode,
                               mOwner := Some (owner\<lparr>invalidStripeIdx := os\<rparr>)\<rparr>
                  else (Ref r)\<lparr>mReadInFlightFlag := False, rd_status := inStatusCode\<rparr>, g)))"
    using neg ne by (simp add: Done_completion_def Let_def w)
  show ?thesis
    unfolding Done_def
    by (simp add: b c split: sum.splits prod.splits)
qed

text \<open>
  C8. A completion of the striped reader that the replicator takes (the read is in
  flight, the request is still held) with a negative status and a non-empty buffer
  reads the buffer as consecutive triplets (stripe index, chunk id, chunk version) of
  4, 8 and 8 bytes. When the buffer holds whole triplets, at most
  \<open>numStripes + numRecoveryStripes\<close> of them, with every stripe index in
  \<open>[0, numStripes + numRecoveryStripes)\<close>, the request's \<open>invalidStripeIdx\<close> becomes
  their decimal rendering, separated by single spaces, in the order of the buffer, and
  the request is answered with it and with status -1. More triplets than that bound, or
  a stripe index outside that range, is fatal (\<open>die\<close>), and so is a buffer that ends
  inside a triplet.
\<close>

theorem Done_invalid_stripes:
  assumes ok: "\<not> Done_invalid r inReaderIsMine inOffset inSize (Some buf) inRequestIdIsThis"
    and st: "\<not> mPendingCloseFlag r" "mReadInFlightFlag r" "rd_status r = 0"
    and own: "mOwner r = Some owner"
    and neg: "inStatusCode < 0" and ne: "buf \<noteq> []"
    and ns: "is_int32 (numStripes owner + numRecoveryStripes owner)"
  shows
   "(length buf mod 20 = 0 \<and>
     int (length (spec_triplets dec buf)) \<le> numStripes owner + numRecoveryStripes owner \<and>
     (\<forall>t \<in> set (spec_triplets dec buf).
        0 \<le> fst t \<and> fst t < numStripes owner + numRecoveryStripes owner) \<longrightarrow>
       Done K E dec this inReaderIsMine inStatusCode inOffset inSize (Some buf)
           inRequestIdIsThis (r, g) =
         Inr (UnRef this (HandleReadDone K E this
                ((Ref r)\<lparr>mReadInFlightFlag := False, rd_status := inStatusCode,
                         mOwner := Some (owner\<lparr>invalidStripeIdx :=
                                            spec_rendering (spec_triplets dec buf)\<rparr>)\<rparr>, g))) \<and>
       filter is_SubmitOpResponse
         (calls_since g (snd (projr (Done K E dec this inReaderIsMine inStatusCode inOffset
                                       inSize (Some buf) inRequestIdIsThis (r, g))))) =
         [SubmitOpResponse (owner\<lparr>invalidStripeIdx := spec_rendering (spec_triplets dec buf),
                                   status := - 1, chunkVersion := - 1\<rparr>)]) \<and>
    (length buf mod 20 = 0 \<and>
     \<not> (int (length (spec_triplets dec buf)) \<le> numStripes owner + numRecoveryStripes owner \<and>
        (\<forall>t \<in> set (spec_triplets dec buf).
           0 \<le> fst t \<and> fst t < numStripes owner + numRecoveryStripes owner)) \<longrightarrow>
       Done K E dec this inReaderIsMine inStatusCode inOffset inSize (Some buf)
           inRequestIdIsThis (r, g) =
         Inl (Die ''recovery: completion: invalid number of bad stripes'') \<or>
       Done K E dec this inReaderIsMine inStatusCode inOffset inSize (Some buf)
           inRequestIdIsThis (r, g) =
         Inl (Die ''recovery: completion: invalid bad stripe index'')) \<and>
    (length buf mod 20 \<noteq> 0 \<longrightarrow>
       (\<exists>msg. Done K E dec this inReaderIsMine inStatusCode inOffset inSize (Some buf)
                 inRequestIdIsThis (r, g) = Inl (Die msg)))"
proof (intro conjI impI)
  let ?ns = "numStripes owner + numRecoveryStripes owner"
  let ?ts = "spec_triplets dec buf"
  let ?D = "Done K E dec this inReaderIsMine inStatusCode inOffset inSize (Some buf)
           inRequestIdIsThis (r, g)"
  let ?r3 = "(Ref r)\<lparr>mReadInFlightFlag := False, rd_status := inStatusCode,
                     mOwner := Some (owner\<lparr>invalidStripeIdx := spec_rendering ?ts\<rparr>)\<rparr>"
  note d = Done_reports[OF ok st own neg ne ns]
  assume wf: "length buf mod 20 = 0 \<and> int (length ?ts) \<le> ?ns \<and>
     (\<forall>t \<in> set ?ts. 0 \<le> fst t \<and> fst t < ?ns)"
  have pos: "0 < length ?ts"
    using ne wf by (cases "length buf < 20") (auto simp: spec_triplets.simps[of dec buf])
  have l: "bad_stripes_loop dec ?ns buf 0 [] = Inr (int (length ?ts), spec_rendering ?ts)"
    using bad_stripes_loop_accepts[of buf 0 dec ?ns "[]"] wf
    by (simp add: spec_rendering_def)
  show e: "?D = Inr (UnRef this (HandleReadDone K E this (?r3, g)))"
    unfolding d l using pos by simp
  have h: "HandleReadDone K E this (?r3, g) = Terminate E this (?r3\<lparr>mDone := False\<rparr>, g)"
    using neg by (simp add: HandleReadDone_def HandleReadDone_status_def Let_def)
  have o: "mOwner (?r3\<lparr>mDone := False\<rparr>) =
      Some (owner\<lparr>invalidStripeIdx := spec_rendering ?ts\<rparr>)" by simp
  have nd: "\<not> (mDone (?r3\<lparr>mDone := False\<rparr>) \<and> \<not> mCancelFlag (?r3\<lparr>mDone := False\<rparr>))"
    by simp
  have f: "frame this (?r3\<lparr>mDone := False\<rparr>, g) (Terminate E this (?r3\<lparr>mDone := False\<rparr>, g))"
    by (rule frame_Terminate)
  show "filter is_SubmitOpResponse (calls_since g (snd (projr ?D))) =
         [SubmitOpResponse (owner\<lparr>invalidStripeIdx := spec_rendering ?ts,
                                   status := - 1, chunkVersion := - 1\<rparr>)]"
    unfolding e h using failed_calls(3)[OF o nd, of g E this]
    by (simp add: calls_since_UnRef[OF f])
next
  let ?ns = "numStripes owner + numRecoveryStripes owner"
  let ?ts = "spec_triplets dec buf"
  note d = Done_reports[OF ok st own neg ne ns]
  assume bad: "length buf mod 20 = 0 \<and>
     \<not> (int (length ?ts) \<le> ?ns \<and> (\<forall>t \<in> set ?ts. 0 \<le> fst t \<and> fst t < ?ns))"
  have "\<not> (length buf mod 20 = 0 \<and> 0 + int (length ?ts) \<le> ?ns \<and>
            (\<forall>t \<in> set ?ts. 0 \<le> fst t \<and> fst t < ?ns))"
    using bad by simp
  from bad_stripes_loop_refuses[OF _ this, of "[]"] ne bad
  show "Done K E dec this inReaderIsMine inStatusCode inOffset inSize (Some buf)
           inRequestIdIsThis (r, g) =
         Inl (Die ''recovery: completion: invalid number of bad stripes'') \<or>
       Done K E dec this inReaderIsMine inStatusCode inOffset inSize (Some buf)
           inRequestIdIsThis (r, g) =
         Inl (Die ''recovery: completion: invalid bad stripe index'')"
    unfolding d by auto
next
  let ?ns = "numStripes owner + numRecoveryStripes owner"
  let ?ts = "spec_triplets dec buf"
  note d = Done_reports[OF ok st own neg ne ns]
  assume bad: "length buf mod 20 \<noteq> 0"
  then have "\<not> (length buf mod 20 = 0 \<and> 0 + int (length ?ts) \<le> ?ns \<and>
            (\<forall>t \<in> set ?ts. 0 \<le> fst t \<and> fst t < ?ns))"
    by simp
  from bad_stripes_loop_refuses[OF _ this, of "[]"] ne
  show "\<exists>msg. Done K E dec this inReaderIsMine inStatusCode inOffset inSize (Some buf)
                 inRequestIdIsThis (r, g) = Inl (Die msg)"
    unfolding d by auto
qed

theorem Done_invalid_stripes_witness:
  "spec_triplets le_sint example_status_buffer = [(2, 1234, 7), (5, 1235, 7)] \<and>
   filter is_SubmitOpResponse
     (calls_since initial_globals
        (snd (projr (Done example_constants example_environment le_sint 1 True (- 5) 0 0
                       (Some example_status_buffer) True
                       ((Ref (RSReplicatorImpl_new example_constants example_environment
                                example_recovery_op))\<lparr>mReadInFlightFlag := True\<rparr>,
                        initial_globals))))) =
     [SubmitOpResponse (example_recovery_op\<lparr>invalidStripeIdx := ''2 1234 7 5 1235 7'',
                                             status := - 1, chunkVersion := - 1\<rparr>)]"
proof -
  let ?r = "(Ref (RSReplicatorImpl_new example_constants example_environment
                                example_recovery_op))\<lparr>mReadInFlightFlag := True\<rparr>"
  have ts: "spec_triplets le_sint example_status_buffer = [(2, 1234, 7), (5, 1235, 7)]"
    by code_simp
  have rn: "spec_rendering [(2, 1234, 7), (5, 1235, 7)] = ''2 1234 7 5 1235 7''"
    by code_simp
  have own: "mOwner ?r = Some example_recovery_op"
    by (simp add: Ref_def RSReplicatorImpl_new_def ReplicatorImpl_new_def)
  have ok: "\<not> Done_invalid ?r True 0 0 (Some example_status_buffer) True"
    by (simp add: Done_invalid_def Ref_def RSReplicatorImpl_new_def ReplicatorImpl_new_def
        example_recovery_op_def)
  have st: "\<not> mPendingCloseFlag ?r" "mReadInFlightFlag ?r" "rd_status ?r = 0"
    by (simp_all add: Ref_def RSReplicatorImpl_new_def ReplicatorImpl_new_def)
  have ne: "example_status_buffer \<noteq> []" by (simp add: example_status_buffer_def)
  have ns: "is_int32 (numStripes example_recovery_op + numRecoveryStripes example_recovery_op)"
    by (simp add: is_int32_def example_recovery_op_def)
  have len: "length example_status_buffer mod 20 = 0"
    by (simp add: example_status_buffer_def)
  have n: "numStripes example_recovery_op + numRecoveryStripes example_recovery_op = 9"
    by (simp add: example_recovery_op_def)
  have neg: "(- 5 :: int) < 0" by simp
  note t = Done_invalid_stripes[OF ok st own neg ne ns, of le_sint example_constants
      example_environment 1 initial_globals]
  have c: "length example_status_buffer mod 20 = 0 \<and>
     int (length (spec_triplets le_sint example_status_buffer)) \<le>
       numStripes example_recovery_op + numRecoveryStripes example_recovery_op \<and>
     (\<forall>t \<in> set (spec_triplets le_sint example_status_buffer).
        0 \<le> fst t \<and> fst t < numStripes example_recovery_op +
                                 numRecoveryStripes example_recovery_op)"
    unfolding ts n using len by simp
  from t c have "filter is_SubmitOpResponse
     (calls_since initial_globals
        (snd (projr (Done example_constants example_environment le_sint 1 True (- 5) 0 0
                       (Some example_status_buffer) True (?r, initial_globals))))) =
     [SubmitOpResponse (example_recovery_op\<lparr>invalidStripeIdx :=
          spec_rendering (spec_triplets le_sint example_status_buffer),
        status := - 1, chunkVersion := - 1\<rparr>)]"
    by blast
  then show ?thesis
    unfolding ts rn using ts by simp
qed

section \<open>The writes of a replication from a peer\<close>

lemma writes_in_simps [simp]:
  "writes_in this [] = []"
  "writes_in this (a @ b) = writes_in this a @ writes_in this b"
  "writes_in this ((c, e) # tr) =
     (case e of WriteChunk off n b \<Rightarrow> if c = Instance this then [(off, n)] else []
              | _ \<Rightarrow> []) @ writes_in this tr"
  by (simp_all add: writes_in_def)

lemma writes_in_UnRef_calls [simp]: "writes_in this (UnRef_calls a r) = []"
  by (simp add: UnRef_calls_def)

lemma writes_of_emit:
  "writes_of this (emit c e g) =
     writes_of this g @
     (case e of WriteChunk off n b \<Rightarrow> if c = Instance this then [(off, n)] else [] | _ \<Rightarrow> [])"
  by (simp add: writes_of_def)

lemma writes_of_UnRef: "writes_of this (snd (UnRef a (r, g))) = writes_of this g"
  by (simp add: writes_of_def UnRef_trace)

lemma writes_of_HandleReplicationDone:
  "writes_of this (snd (HandleReplicationDone a dat (r, g))) = writes_of this g"
proof (cases "mOwner r")
  case None
  then show ?thesis by (simp add: HandleReplicationDone_no_owner writes_of_def)
next
  case (Some owner)
  show ?thesis
    unfolding writes_of_def HandleReplicationDone_trace[OF Some] by simp
qed

lemma writes_of_Terminate:
  "writes_of this (snd (Terminate E a (r, g))) = writes_of this g"
proof (cases "mDone r \<and> \<not> mCancelFlag r")
  case True
  then show ?thesis
    by (simp add: Terminate_commit writes_of_HandleReplicationDone writes_of_emit)
next
  case False
  then show ?thesis
    by (simp add: Terminate_failed writes_of_HandleReplicationDone)
qed

lemma HandleReplicationDone_kept:
  "isRS (fst (HandleReplicationDone a dat (r, g))) = isRS r"
  "mDone (fst (HandleReplicationDone a dat (r, g))) = mDone r"
  "mOwner (fst (HandleReplicationDone a dat (r, g))) = None \<or>
   handler (fst (HandleReplicationDone a dat (r, g))) = H_HandleReplicationDone"
proof -
  show "isRS (fst (HandleReplicationDone a dat (r, g))) = isRS r"
    by (cases "mOwner r") (simp_all add: HandleReplicationDone_no_owner HandleReplicationDone_fst)
  show "mDone (fst (HandleReplicationDone a dat (r, g))) = mDone r"
    by (cases "mOwner r") (simp_all add: HandleReplicationDone_no_owner HandleReplicationDone_fst)
  show "mOwner (fst (HandleReplicationDone a dat (r, g))) = None \<or>
   handler (fst (HandleReplicationDone a dat (r, g))) = H_HandleReplicationDone"
    by (cases "mOwner r") (simp_all add: HandleReplicationDone_no_owner HandleReplicationDone_fst)
qed

lemma Terminate_kept:
  "isRS (fst (Terminate E a (r, g))) = isRS r"
  "mDone (fst (Terminate E a (r, g))) = mDone r"
  "ended (fst (Terminate E a (r, g)))"
proof -
  show "isRS (fst (Terminate E a (r, g))) = isRS r"
    by (cases "mDone r \<and> \<not> mCancelFlag r")
      (simp_all add: Terminate_commit Terminate_failed HandleReplicationDone_kept)
  show "mDone (fst (Terminate E a (r, g))) = mDone r"
    by (cases "mDone r \<and> \<not> mCancelFlag r")
      (simp_all add: Terminate_commit Terminate_failed HandleReplicationDone_kept)
  show "ended (fst (Terminate E a (r, g)))"
    unfolding ended_def
    using HandleReplicationDone_kept(3)[of a "Some (env_ChangeChunkVers E)"
        "r\<lparr>handler := H_HandleReplicationDone\<rparr>"
        "emit (Instance a) (ChangeChunkVers (mChunkId r) (mChunkVersion r) True) g"]
      HandleReplicationDone_kept(3)[of a "Some (- 1)" r g]
    by (cases "mDone r \<and> \<not> mCancelFlag r") (simp_all add: Terminate_commit Terminate_failed)
qed

lemma finished_Terminate:
  assumes "write_order K cs (writes_of this g)"
    and "mDone r \<longrightarrow> sum_list (map snd (writes_of this g)) = cs"
  shows "finished K this cs (Terminate E this (r, g))"
proof -
  obtain r' g' where t: "Terminate E this (r, g) = (r', g')"
    by (cases "Terminate E this (r, g)")
  have "writes_of this g' = writes_of this g" using writes_of_Terminate[of this E this r g] t by simp
  moreover have "ended r'" "mDone r' = mDone r"
    using Terminate_kept(2,3)[of E this r g] t by simp_all
  ultimately show ?thesis unfolding t using assms by (simp add: finished_def)
qed

lemma phases_Terminate:
  assumes "write_order K cs (writes_of this g)"
    and "mDone r \<longrightarrow> sum_list (map snd (writes_of this g)) = cs"
  shows "phases K this cs (Terminate E this (r, g))"
  using finished_Terminate[OF assms] by (simp add: phases_def)

lemma frame_isRS:
  assumes "frame this (r, g) X"
  shows "isRS (fst X) = isRS r"
  using assms by (cases X) (simp add: frame_def)

lemma transfer_inv_Terminate:
  assumes "\<not> isRS r" "write_order K cs (writes_of this g)"
    and "mDone r \<longrightarrow> sum_list (map snd (writes_of this g)) = cs"
  shows "transfer_inv K this cs (Terminate E this (r, g))"
  unfolding transfer_inv_def
  using phases_Terminate[OF assms(2,3)] assms(1) Terminate_kept(1)[of E this r g] by simp

lemma phases_cong:
  assumes "mOwner r' = mOwner r" "handler r' = handler r"
    "mDone r' = mDone r" "mChunkSize r' = mChunkSize r" "mOffset r' = mOffset r"
    "rd_numBytes r' = rd_numBytes r" "rd_dataBuf r' = rd_dataBuf r"
    "rd_offset r' = rd_offset r" "wr_numBytes r' = wr_numBytes r"
    "writes_of this g' = writes_of this g"
  shows "phases K this cs (r', g') = phases K this cs (r, g)"
proof -
  have t: "tail_kept K cs r' = tail_kept K cs r"
    using assms by (simp add: tail_kept_def cong: option.case_cong)
  have n: "no_tail r' = no_tail r"
    using assms by (simp add: no_tail_def)
  show ?thesis
    using assms
    by (simp add: phases_def finished_def reading_def writing_def ended_def t n)
qed

lemma phases_UnRef:
  assumes "phases K this cs rg"
  shows "phases K this cs (UnRef this rg)"
proof -
  obtain r g where rg: "rg = (r, g)" by (cases rg)
  obtain r' g' where u: "UnRef this (r, g) = (r', g')" by (cases "UnRef this (r, g)")
  have f: "r' = r\<lparr>refCount := refCount r - 1, deleted := (refCount r = 1 \<or> deleted r)\<rparr>"
    using UnRef_fst[of this r g] u by simp
  have w: "writes_of this g' = writes_of this g" using writes_of_UnRef[of this this r g] u by simp
  have "phases K this cs (r', g') = phases K this cs (r, g)"
    by (rule phases_cong) (simp_all add: f w)
  then show ?thesis using assms unfolding rg u by simp
qed

lemma phase_UnRef:
  "finished K this cs (UnRef this rg) = finished K this cs rg"
  "reading K this cs (UnRef this rg) = reading K this cs rg"
  "writing K this cs (UnRef this rg) = writing K this cs rg"
proof -
  obtain r g where rg: "rg = (r, g)" by (cases rg)
  obtain r' g' where u: "UnRef this (r, g) = (r', g')" by (cases "UnRef this (r, g)")
  have f: "r' = r\<lparr>refCount := refCount r - 1, deleted := (refCount r = 1 \<or> deleted r)\<rparr>"
    using UnRef_fst[of this r g] u by simp
  have w: "writes_of this g' = writes_of this g" using writes_of_UnRef[of this this r g] u by simp
  have t: "tail_kept K cs r' = tail_kept K cs r"
    by (simp add: f tail_kept_def cong: option.case_cong)
  have n: "no_tail r' = no_tail r" by (simp add: f no_tail_def)
  show "finished K this cs (UnRef this rg) = finished K this cs rg"
    unfolding rg u by (simp add: finished_def ended_def w) (simp add: f)
  show "reading K this cs (UnRef this rg) = reading K this cs rg"
    unfolding rg u by (simp add: reading_def w) (simp add: f)
  show "writing K this cs (UnRef this rg) = writing K this cs rg"
    unfolding rg u by (simp add: writing_def w t n) (simp add: f)
qed

lemma transfer_inv_UnRef:
  assumes "transfer_inv K this cs rg"
  shows "transfer_inv K this cs (UnRef this rg)"
proof -
  have "isRS (fst (UnRef this rg)) = isRS (fst rg)"
    using UnRef_fst[of this "fst rg" "snd rg"] by simp
  then show ?thesis
    using assms phases_UnRef[of K this cs rg] by (simp add: transfer_inv_def)
qed

lemma kDefaultReplicationReadSize_props:
  assumes "0 < CHECKSUM_BLOCKSIZE K" "CHECKSUM_BLOCKSIZE K \<le> 2 ^ 30"
  shows "kDefaultReplicationReadSize K mod CHECKSUM_BLOCKSIZE K = 0"
    and "0 < kDefaultReplicationReadSize K"
    and "kDefaultReplicationReadSize K < 2 ^ 31"
proof -
  let ?c = "CHECKSUM_BLOCKSIZE K"
  let ?y = "2 ^ 20 + ?c - 1"
  let ?x = "?y div ?c * ?c"
  have d: "c_div ?y ?c = ?y div ?c" using assms by (intro c_div_nonneg) simp_all
  have x: "?x = ?y - ?y mod ?c" using div_mult_mod_eq[of ?y ?c] by linarith
  have m: "0 \<le> ?y mod ?c" "?y mod ?c < ?c" using assms by simp_all
  have p: "(2::int) ^ 20 = 1048576" "(2::int) ^ 30 = 1073741824" "(2::int) ^ 31 = 2147483648"
    by simp_all
  have lo: "0 < ?x" using x m unfolding p by linarith
  have hi: "?x < 2 ^ 31" using x m assms unfolding p by linarith
  have w: "kDefaultReplicationReadSize K = ?x"
    unfolding kDefaultReplicationReadSize_def d
    using lo hi by (intro wrap32_id) (simp add: is_int32_def)
  show "kDefaultReplicationReadSize K mod ?c = 0" unfolding w by simp
  show "0 < kDefaultReplicationReadSize K" unfolding w by (rule lo)
  show "kDefaultReplicationReadSize K < 2 ^ 31" unfolding w by (rule hi)
qed

lemma whole_blocks_Nil: "whole_blocks K [] 0"
  by (simp add: whole_blocks_def)

lemma whole_blocks_snoc:
  assumes "whole_blocks K W off" "0 \<le> n" "n mod CHECKSUM_BLOCKSIZE K = 0"
  shows "whole_blocks K (W @ [(off, n)]) (off + n)"
proof -
  have a: "list_all (\<lambda>w. snd w mod CHECKSUM_BLOCKSIZE K = 0 \<and> fst w \<le> off) W"
    using assms(1) by (simp add: whole_blocks_def)
  then have b: "list_all (\<lambda>w. snd w mod CHECKSUM_BLOCKSIZE K = 0 \<and> fst w \<le> off + n) W"
    using assms(2) by (induction W) auto
  have c: "\<forall>x \<in> set (map fst W). x \<le> off"
    using a by (auto simp: list_all_iff)
  show ?thesis
    using assms b c by (simp add: whole_blocks_def sorted_append)
qed

lemma write_order_whole_blocks:
  assumes "whole_blocks K W off" "off \<le> cs"
  shows "write_order K cs W" and "sum_list (map snd W) = off"
proof -
  have a: "list_all (\<lambda>w. snd w mod CHECKSUM_BLOCKSIZE K = 0) W"
    using assms(1) by (auto simp: whole_blocks_def list_all_iff)
  then have b: "list_all (\<lambda>w. snd w mod CHECKSUM_BLOCKSIZE K = 0) (butlast W)"
    by (auto simp: list_all_iff dest: in_set_butlastD)
  have c: "list_all (\<lambda>w. snd w mod CHECKSUM_BLOCKSIZE K = 0 \<or> fst w + snd w = cs) W"
    using a by (auto simp: list_all_iff)
  show "sum_list (map snd W) = off" using assms(1) by (simp add: whole_blocks_def)
  then show "write_order K cs W"
    using assms b c by (simp add: write_order_def whole_blocks_def)
qed

lemma write_order_snoc:
  assumes "whole_blocks K W off" "0 \<le> n" "off + n \<le> cs"
    and "n mod CHECKSUM_BLOCKSIZE K = 0 \<or> off + n = cs"
  shows "write_order K cs (W @ [(off, n)])"
    and "sum_list (map snd (W @ [(off, n)])) = off + n"
proof -
  have a: "list_all (\<lambda>w. snd w mod CHECKSUM_BLOCKSIZE K = 0) W"
    using assms(1) by (auto simp: whole_blocks_def list_all_iff)
  have c: "list_all (\<lambda>w. snd w mod CHECKSUM_BLOCKSIZE K = 0 \<or> fst w + snd w = cs) W"
    using a by (auto simp: list_all_iff)
  have d: "\<forall>x \<in> set (map fst W). x \<le> off"
    using assms(1) by (auto simp: whole_blocks_def list_all_iff)
  show s: "sum_list (map snd (W @ [(off, n)])) = off + n"
    using assms(1) by (simp add: whole_blocks_def)
  show "write_order K cs (W @ [(off, n)])"
    unfolding write_order_def
    using assms a c d s by (simp add: whole_blocks_def sorted_append)
qed

text \<open>The write that \<open>HandleReadDone\<close> prepares from a read of \<open>n\<close> bytes.\<close>

lemma HandleReadDone_swap_status [simp]:
  "rd_status (HandleReadDone_swap K r) = rd_status r"
  by (simp add: HandleReadDone_swap_def Let_def split_def)

lemma HandleReadDone_swap_whole:
  assumes "rd_dataBuf r = Some dat" "0 < CHECKSUM_BLOCKSIZE K"
    and "\<not> (int (length dat) > CHECKSUM_BLOCKSIZE K \<and>
            int (length dat) mod CHECKSUM_BLOCKSIZE K > 0 \<and>
            mOffset r + int (length dat) = mChunkSize r)"
  shows "no_tail (HandleReadDone_swap K r)"
    and "wr_numBytes (HandleReadDone_swap K r) =
           (if int (length dat) > CHECKSUM_BLOCKSIZE K
            then int (length dat) - int (length dat) mod CHECKSUM_BLOCKSIZE K
            else int (length dat))"
proof -
  have m: "c_rem (int (length dat)) (CHECKSUM_BLOCKSIZE K) =
      int (length dat) mod CHECKSUM_BLOCKSIZE K"
    using assms(2) by (intro c_rem_nonneg) simp_all
  show "no_tail (HandleReadDone_swap K r)"
    using assms(1,3) unfolding m[symmetric]
    by (cases "wr_dataBuf r")
      (auto simp: HandleReadDone_swap_def Let_def split_def no_tail_def
        BytesConsumable_ptr_def BytesConsumable_def)
  show "wr_numBytes (HandleReadDone_swap K r) =
           (if int (length dat) > CHECKSUM_BLOCKSIZE K
            then int (length dat) - int (length dat) mod CHECKSUM_BLOCKSIZE K
            else int (length dat))"
    using assms(1,3) unfolding m[symmetric]
    by (simp add: HandleReadDone_swap_def Let_def split_def
        BytesConsumable_ptr_def BytesConsumable_def)
qed

lemma HandleReadDone_swap_tail:
  assumes "rd_dataBuf r = Some dat" "0 < CHECKSUM_BLOCKSIZE K"
    and "int (length dat) > CHECKSUM_BLOCKSIZE K"
    and "int (length dat) mod CHECKSUM_BLOCKSIZE K > 0"
    and "mOffset r + int (length dat) = mChunkSize r"
  shows "wr_numBytes (HandleReadDone_swap K r) =
           int (length dat) - int (length dat) mod CHECKSUM_BLOCKSIZE K"
    and "rd_dataBuf (HandleReadDone_swap K r) =
           Some (drop (nat (int (length dat) - int (length dat) mod CHECKSUM_BLOCKSIZE K)) dat)"
    and "rd_offset (HandleReadDone_swap K r) =
           mOffset r + (int (length dat) - int (length dat) mod CHECKSUM_BLOCKSIZE K)"
    and "rd_numBytes (HandleReadDone_swap K r) = int (length dat) mod CHECKSUM_BLOCKSIZE K"
proof -
  have m: "c_rem (int (length dat)) (CHECKSUM_BLOCKSIZE K) =
      int (length dat) mod CHECKSUM_BLOCKSIZE K"
    using assms(2) by (intro c_rem_nonneg) simp_all
  note s = HandleReadDone_swap_def Let_def split_def BytesConsumable_ptr_def
    BytesConsumable_def Move_n_def
  show "wr_numBytes (HandleReadDone_swap K r) =
           int (length dat) - int (length dat) mod CHECKSUM_BLOCKSIZE K"
    using assms(1,3,4,5) unfolding m[symmetric] by (simp add: s)
  show "rd_dataBuf (HandleReadDone_swap K r) =
           Some (drop (nat (int (length dat) - int (length dat) mod CHECKSUM_BLOCKSIZE K)) dat)"
    using assms(1,3,4,5) unfolding m[symmetric] by (simp add: s)
  show "rd_offset (HandleReadDone_swap K r) =
           mOffset r + (int (length dat) - int (length dat) mod CHECKSUM_BLOCKSIZE K)"
    using assms(1,3,4,5) unfolding m[symmetric] by (simp add: s)
  show "rd_numBytes (HandleReadDone_swap K r) = int (length dat) mod CHECKSUM_BLOCKSIZE K"
    using assms(1,3,4,5) unfolding m[symmetric] by (simp add: s)
qed

lemma HandleReadDone_swap_tail_only_at_end:
  assumes "0 < CHECKSUM_BLOCKSIZE K" "\<not> no_tail (HandleReadDone_swap K r)"
  shows "mOffset r + BytesConsumable_ptr (rd_dataBuf r) = mChunkSize r \<and>
         BytesConsumable_ptr (rd_dataBuf r) > CHECKSUM_BLOCKSIZE K \<and>
         BytesConsumable_ptr (rd_dataBuf r) mod CHECKSUM_BLOCKSIZE K > 0"
proof (cases "rd_dataBuf r")
  case None
  then have "no_tail (HandleReadDone_swap K r)"
    using assms(1)
    by (cases "wr_dataBuf r")
      (simp_all add: HandleReadDone_swap_def Let_def split_def no_tail_def
        BytesConsumable_ptr_def)
  then show ?thesis using assms(2) by simp
next
  case (Some dat)
  show ?thesis
    using HandleReadDone_swap_whole(1)[OF Some assms(1)] assms(2)
    by (auto simp: Some BytesConsumable_ptr_def BytesConsumable_def)
qed

lemma ReplicatorImpl_Read_phase:
  assumes K: "0 < CHECKSUM_BLOCKSIZE K" "CHECKSUM_BLOCKSIZE K \<le> 2 ^ 30"
    and r: "\<not> mDone r" "mChunkSize r = cs" "mOffset r \<le> cs"
    and w: "write_order K cs (writes_of this g)"
      "sum_list (map snd (writes_of this g)) = mOffset r"
    and b: "mOffset r < cs \<longrightarrow>
            whole_blocks K (writes_of this g) (mOffset r) \<and>
            mOffset r mod CHECKSUM_BLOCKSIZE K = 0"
  shows "finished K this cs (ReplicatorImpl_Read K E this (r, g)) \<or>
         reading K this cs (ReplicatorImpl_Read K E this (r, g))"
proof (cases "mOffset r < cs")
  case False
  then have e: "mOffset r = cs" using r(3) by simp
  have "ReplicatorImpl_Read K E this (r, g) =
      UnRef this (Terminate E this ((Ref r)\<lparr>mDone := True\<rparr>, g))"
    using e r(2) by (simp add: ReplicatorImpl_Read_def Let_def)
  moreover have "finished K this cs (Terminate E this ((Ref r)\<lparr>mDone := True\<rparr>, g))"
    using w e by (intro finished_Terminate) simp_all
  ultimately show ?thesis by (simp add: phase_UnRef)
next
  case True
  let ?n = "min (cs - mOffset r) (kDefaultReplicationReadSize K)"
  let ?r1 = "(Ref r)\<lparr>handler := H_HandleReadDone, rd_status := 0, rd_offset := mOffset r,
                     rd_numBytesIO := 0, rd_numBytes := ?n\<rparr>"
  let ?g1 = "emit (Instance this)
               (if mPeer r then Enqueue_Read (mChunkId r) (rd_chunkVersion r) (mOffset r) ?n
                else NullPeer) g"
  note k = kDefaultReplicationReadSize_props[OF K]
  have "is_int32 ?n" using True k(2,3) by (simp add: is_int32_def min_def)
  then have n: "wrap32 ?n = ?n" by (rule wrap32_id)
  have e: "ReplicatorImpl_Read K E this (r, g) = UnRef this (?r1, ?g1)"
    using True r(2) by (simp add: ReplicatorImpl_Read_def Let_def n Ref_def)
  have "reading K this cs (?r1, ?g1)"
    using True r b by (simp add: reading_def Ref_def writes_of_emit)
  then show ?thesis unfolding e by (simp add: phase_UnRef)
qed

lemma phases_ReplicatorImpl_Read:
  assumes K: "0 < CHECKSUM_BLOCKSIZE K" "CHECKSUM_BLOCKSIZE K \<le> 2 ^ 30"
    and r: "\<not> mDone r" "mChunkSize r = cs" "mOffset r \<le> cs"
    and w: "write_order K cs (writes_of this g)"
      "sum_list (map snd (writes_of this g)) = mOffset r"
    and b: "mOffset r < cs \<longrightarrow>
            whole_blocks K (writes_of this g) (mOffset r) \<and>
            mOffset r mod CHECKSUM_BLOCKSIZE K = 0"
  shows "phases K this cs (ReplicatorImpl_Read K E this (r, g))"
  using ReplicatorImpl_Read_phase[OF assms] by (auto simp: phases_def)

text \<open>
  \<open>HandleReadDone\<close>, for a read at the offset of whole blocks written so far. When the
  read ends the chunk, the write that follows ends it too or leaves the tail in the read
  operation.
\<close>

lemma phases_HandleReadDone:
  assumes K: "0 < CHECKSUM_BLOCKSIZE K" and EI: "0 < EINVAL K"
    and r: "\<not> mDone r" "mChunkSize r = cs" "mOffset r \<le> cs"
      "mOffset r mod CHECKSUM_BLOCKSIZE K = 0"
    and w: "whole_blocks K (writes_of this g) (mOffset r)"
    and ready: "mOffset r = cs \<or> rd_status r < 0 \<or>
       (BytesConsumable_ptr (rd_dataBuf r) \<le> rd_numBytes r \<and> 0 < rd_numBytes r \<and>
        rd_numBytes r \<le> cs - mOffset r \<and>
        (rd_numBytes r mod CHECKSUM_BLOCKSIZE K = 0 \<or> mOffset r + rd_numBytes r = cs))"
  shows "phases K this cs (HandleReadDone K E this (r, g))"
    and "mOffset r + rd_numBytes r = cs \<Longrightarrow>
         finished K this cs (HandleReadDone K E this (r, g)) \<or>
         writing K this cs (HandleReadDone K E this (r, g)) \<and>
         (tail_kept K cs (fst (HandleReadDone K E this (r, g))) \<or>
          mOffset (fst (HandleReadDone K E this (r, g))) +
            wr_numBytes (fst (HandleReadDone K E this (r, g))) = cs)"
proof -
  let ?c = "CHECKSUM_BLOCKSIZE K"
  let ?r1 = "HandleReadDone_status K r"
  let ?X = "HandleReadDone K E this (r, g)"
  note wo = write_order_whole_blocks[OF w r(3)]
  have "phases K this cs ?X \<and>
     (mOffset r + rd_numBytes r = cs \<longrightarrow>
        finished K this cs ?X \<or>
        writing K this cs ?X \<and>
        (tail_kept K cs (fst ?X) \<or> mOffset (fst ?X) + wr_numBytes (fst ?X) = cs))"
  proof (cases "mCancelFlag ?r1 \<or> rd_status ?r1 < 0 \<or> mOffset ?r1 = mChunkSize ?r1")
    case True
    let ?d = "mOffset ?r1 = mChunkSize ?r1 \<and> rd_status ?r1 \<ge> 0 \<and> \<not> mCancelFlag ?r1"
    have e: "?X = Terminate E this (?r1\<lparr>mDone := ?d\<rparr>, g)"
      using True by (simp add: HandleReadDone_def Let_def)
    have "finished K this cs (Terminate E this (?r1\<lparr>mDone := ?d\<rparr>, g))"
      using r wo by (intro finished_Terminate) auto
    then show ?thesis unfolding e by (simp add: phases_def)
  next
    case False
    then have nc: "\<not> mCancelFlag r" by simp
    have lt: "mOffset r < cs" using False r(2,3) by simp
    have st: "rd_status r \<ge> 0"
      using False by (auto simp: HandleReadDone_status_def Let_def split: if_splits)
    have long: "\<not> (BytesConsumable_ptr (rd_dataBuf r) < rd_numBytes r \<and>
                   mOffset r + BytesConsumable_ptr (rd_dataBuf r) < mChunkSize r)"
      using False st nc EI by (auto simp: HandleReadDone_status_def Let_def split: if_splits)
    have r1: "?r1 = r"
      using long st nc by (auto simp: HandleReadDone_status_def Let_def split: if_splits)
    from ready st lt have rd: "BytesConsumable_ptr (rd_dataBuf r) \<le> rd_numBytes r"
      "0 < rd_numBytes r" "rd_numBytes r \<le> cs - mOffset r"
      "rd_numBytes r mod ?c = 0 \<or> mOffset r + rd_numBytes r = cs"
      by auto
    have full: "BytesConsumable_ptr (rd_dataBuf r) = rd_numBytes r"
      using long rd(1,3) r(2) by linarith
    then obtain dat where dat: "rd_dataBuf r = Some dat"
      using rd(2) by (cases "rd_dataBuf r") (simp_all add: BytesConsumable_ptr_def)
    let ?n = "int (length dat)"
    have n: "rd_numBytes r = ?n" "0 < ?n" "?n \<le> cs - mOffset r"
      "?n mod ?c = 0 \<or> mOffset r + ?n = cs"
      using full rd dat by (simp_all add: BytesConsumable_ptr_def BytesConsumable_def)
    let ?r4 = "HandleReadDone_swap K r"
    let ?g1 = "emit (Instance this)
                 (WriteChunk (wr_offset ?r4) (wr_numBytes ?r4)
                    (case wr_dataBuf ?r4 of Some b \<Rightarrow> b | None \<Rightarrow> [])) g"
    have e: "?X = (if env_WriteChunk E < 0 then Terminate E this (?r4, ?g1) else (?r4, ?g1))"
      using False by (simp add: HandleReadDone_def Let_def r1)
    have m: "0 \<le> ?n mod ?c" "?n mod ?c < ?c" using K by simp_all
    have sw: "0 < wr_numBytes ?r4 \<and> mOffset r + wr_numBytes ?r4 \<le> cs \<and>
       (if wr_numBytes ?r4 mod ?c = 0 then tail_kept K cs ?r4 \<or> no_tail ?r4
        else mOffset r + wr_numBytes ?r4 = cs \<and> no_tail ?r4) \<and>
       (mOffset r + ?n = cs \<longrightarrow> tail_kept K cs ?r4 \<or> mOffset r + wr_numBytes ?r4 = cs)"
    proof (cases "?n > ?c \<and> ?n mod ?c > 0 \<and> mOffset r + ?n = mChunkSize r")
      case True
      note t = HandleReadDone_swap_tail[OF dat K, of ]
      have a: "wr_numBytes ?r4 = ?n - ?n mod ?c"
        "rd_dataBuf ?r4 = Some (drop (nat (?n - ?n mod ?c)) dat)"
        "rd_offset ?r4 = mOffset r + (?n - ?n mod ?c)"
        "rd_numBytes ?r4 = ?n mod ?c"
        using t True by simp_all
      have al: "(?n - ?n mod ?c) mod ?c = 0" by (simp add: minus_mod_eq_mult_div)
      have len: "int (length (drop (nat (?n - ?n mod ?c)) dat)) = ?n mod ?c"
        using m by simp
      have ne: "drop (nat (?n - ?n mod ?c)) dat \<noteq> []"
        using len True by auto
      have tk: "tail_kept K cs ?r4"
        unfolding tail_kept_def a(2)
        using ne a(1,3,4) len True r(2) by (simp add: BytesConsumable_def)
      show ?thesis
        unfolding a(1) using al tk m True n r(2) by simp
    next
      case False
      note t = HandleReadDone_swap_whole[OF dat K False]
      show ?thesis
      proof (cases "?n > ?c")
        case True
        then have a: "wr_numBytes ?r4 = ?n - ?n mod ?c" using t(2) by simp
        have z: "?n mod ?c = 0" using False True n(4) r(2) m by auto
        show ?thesis unfolding a using z t(1) n by simp
      next
        case le: False
        then have a: "wr_numBytes ?r4 = ?n" using t(2) by simp
        show ?thesis unfolding a using t(1) n by auto
      qed
    qed
    have wo1: "write_order K cs (writes_of this ?g1)"
      "sum_list (map snd (writes_of this ?g1)) = mOffset r + wr_numBytes ?r4"
    proof -
      have c: "wr_numBytes ?r4 mod ?c = 0 \<or> mOffset r + wr_numBytes ?r4 = cs"
        using sw by (auto split: if_splits)
      have p: "0 \<le> wr_numBytes ?r4" "mOffset r + wr_numBytes ?r4 \<le> cs" using sw by simp_all
      show "write_order K cs (writes_of this ?g1)"
        using write_order_snoc(1)[OF w p c] by (simp add: writes_of_emit)
      show "sum_list (map snd (writes_of this ?g1)) = mOffset r + wr_numBytes ?r4"
        using write_order_snoc(2)[OF w p c] by (simp add: writes_of_emit)
    qed
    show ?thesis
    proof (cases "env_WriteChunk E < 0")
      case True
      then have e': "?X = Terminate E this (?r4, ?g1)" using e by simp
      have "finished K this cs (Terminate E this (?r4, ?g1))"
        using r wo1 by (intro finished_Terminate) simp_all
      then show ?thesis unfolding e' by (simp add: phases_def)
    next
      case False
      then have e': "?X = (?r4, ?g1)" using e by simp
      have "writing K this cs (?r4, ?g1)"
        unfolding writing_def using r w sw by (simp add: writes_of_emit)
      then show ?thesis unfolding e' using sw n(1) by (simp add: phases_def)
    qed
  qed
  then show "phases K this cs ?X"
    and "mOffset r + rd_numBytes r = cs \<Longrightarrow>
         finished K this cs ?X \<or>
         writing K this cs ?X \<and>
         (tail_kept K cs (fst ?X) \<or> mOffset (fst ?X) + wr_numBytes (fst ?X) = cs)"
    by simp_all
qed

lemma mod_add_zero: "(a::int) mod c = 0 \<Longrightarrow> b mod c = 0 \<Longrightarrow> (a + b) mod c = 0"
  by (simp add: mod_eq_0_iff_dvd)

text \<open>
  \<open>HandleWriteDone\<close> for an outstanding write: it ends the replication, or writes the
  tail kept in the read operation, or reads on.
\<close>

lemma HandleWriteDone_cases:
  assumes K: "0 < CHECKSUM_BLOCKSIZE K"
    and wr: "writing K this cs (r, g)"
    and fin: "wr_status r < 0 \<or> wr_numBytesIO r = wr_numBytes r"
  shows "write_order K cs (writes_of this g) \<and> \<not> mDone r \<and>
     (HandleWriteDone K E this (r, g) = UnRef this (Terminate E this (Ref r, g)) \<or>
      HandleWriteDone K E this (r, g) =
        UnRef this (HandleReadDone K E this
                      ((Ref r)\<lparr>mOffset := mOffset r + wr_numBytes r\<rparr>, g)) \<and>
        whole_blocks K (writes_of this g) (mOffset r + wr_numBytes r) \<and>
        (mOffset r + wr_numBytes r) mod CHECKSUM_BLOCKSIZE K = 0 \<and>
        mOffset r + wr_numBytes r < cs \<and>
        BytesConsumable_ptr (rd_dataBuf r) = rd_numBytes r \<and> 0 < rd_numBytes r \<and>
        mOffset r + wr_numBytes r + rd_numBytes r = cs \<or>
      HandleWriteDone K E this (r, g) =
        UnRef this (Read K E this ((Ref r)\<lparr>mOffset := mOffset r + wr_numBytes r\<rparr>, g)) \<and>
        mOffset r + wr_numBytes r \<le> cs \<and>
        sum_list (map snd (writes_of this g)) = mOffset r + wr_numBytes r \<and>
        (mOffset r + wr_numBytes r < cs \<longrightarrow>
           no_tail r \<and>
           whole_blocks K (writes_of this g) (mOffset r + wr_numBytes r) \<and>
           (mOffset r + wr_numBytes r) mod CHECKSUM_BLOCKSIZE K = 0))"
proof -
  let ?c = "CHECKSUM_BLOCKSIZE K"
  let ?W = "writes_of this g"
  from wr have f: "\<not> mDone r" "mChunkSize r = cs" "?W \<noteq> []"
    "last ?W = (mOffset r, wr_numBytes r)" "whole_blocks K (butlast ?W) (mOffset r)"
    "mOffset r mod ?c = 0" "0 < wr_numBytes r" "mOffset r + wr_numBytes r \<le> cs"
    and t: "if wr_numBytes r mod ?c = 0 then tail_kept K cs r \<or> no_tail r
            else mOffset r + wr_numBytes r = cs \<and> no_tail r"
    by (simp_all add: writing_def)
  have W: "?W = butlast ?W @ [(mOffset r, wr_numBytes r)]"
    using f(3,4) by (metis append_butlast_last_id)
  have c: "wr_numBytes r mod ?c = 0 \<or> mOffset r + wr_numBytes r = cs"
    using t by (auto split: if_splits)
  have p: "0 \<le> wr_numBytes r" using f(7) by simp
  have wo: "write_order K cs ?W" "sum_list (map snd ?W) = mOffset r + wr_numBytes r"
    using write_order_snoc[OF f(5) p f(8) c] W by simp_all
  have wb: "whole_blocks K ?W (mOffset r + wr_numBytes r) \<and>
      (mOffset r + wr_numBytes r) mod ?c = 0" if al: "wr_numBytes r mod ?c = 0"
    using whole_blocks_snoc[OF f(5) p al] W mod_add_zero[OF f(6) al] by simp
  let ?r1 = "(Ref r)\<lparr>mOffset := mOffset r + wr_numBytes r\<rparr>"
  show ?thesis
  proof (cases "mCancelFlag r \<or> wr_status r < 0")
    case True
    then have e: "HandleWriteDone K E this (r, g) = UnRef this (Terminate E this (Ref r, g))"
      by (auto simp: HandleWriteDone_def Let_def Ref_def)
    show ?thesis using e wo(1) f(1) by simp
  next
    case False
    then have io: "wr_numBytesIO r = wr_numBytes r" using fin by simp
    have e: "HandleWriteDone K E this (r, g) =
        UnRef this
          (if rd_offset r = mOffset r + wr_numBytes r \<and>
              (case rd_dataBuf r of Some b \<Rightarrow> b \<noteq> [] | None \<Rightarrow> False)
           then HandleReadDone K E this (?r1, g)
           else Read K E this (?r1, g))"
      using False by (simp add: HandleWriteDone_def Let_def Ref_def io)
    show ?thesis
    proof (cases "rd_offset r = mOffset r + wr_numBytes r \<and>
              (case rd_dataBuf r of Some b \<Rightarrow> b \<noteq> [] | None \<Rightarrow> False)")
      case True
      then have nt: "\<not> no_tail r" by (auto simp: no_tail_def split: option.splits)
      then have al: "wr_numBytes r mod ?c = 0" and tk: "tail_kept K cs r"
        using t by (auto split: if_splits)
      from tk obtain tl where tl: "rd_dataBuf r = Some tl" "tl \<noteq> []"
        "rd_numBytes r = int (length tl)"
        "mOffset r + wr_numBytes r + int (length tl) = cs"
        by (auto simp: tail_kept_def BytesConsumable_def split: option.splits)
      have l: "0 < int (length tl)" using tl(2) by simp
      have lt: "mOffset r + wr_numBytes r < cs" using tl(4) l by linarith
      have e': "HandleWriteDone K E this (r, g) =
          UnRef this (HandleReadDone K E this (?r1, g))"
        unfolding e using True by simp
      have "BytesConsumable_ptr (rd_dataBuf r) = rd_numBytes r \<and> 0 < rd_numBytes r \<and>
        mOffset r + wr_numBytes r + rd_numBytes r = cs"
        using tl l by (simp add: BytesConsumable_ptr_def BytesConsumable_def)
      then show ?thesis using e' wb[OF al] lt wo(1) f(1) by simp
    next
      case nocarry: False
      have nt: "no_tail r"
      proof (rule ccontr)
        assume "\<not> no_tail r"
        then have "tail_kept K cs r" using t by (auto split: if_splits)
        then show False using nocarry
          by (auto simp: tail_kept_def split: option.splits)
      qed
      have e': "HandleWriteDone K E this (r, g) = UnRef this (Read K E this (?r1, g))"
        unfolding e using nocarry by auto
      have "mOffset r + wr_numBytes r < cs \<longrightarrow>
           no_tail r \<and> whole_blocks K ?W (mOffset r + wr_numBytes r) \<and>
           (mOffset r + wr_numBytes r) mod ?c = 0"
        using c wb nt by auto
      then show ?thesis using e' f(8) wo f(1) by simp
    qed
  qed
qed

lemma transfer_inv_HandleWriteDone:
  assumes K: "0 < CHECKSUM_BLOCKSIZE K" "CHECKSUM_BLOCKSIZE K \<le> 2 ^ 30" and EI: "0 < EINVAL K"
    and r: "\<not> isRS r" and wr: "writing K this cs (r, g)"
    and fin: "wr_status r < 0 \<or> wr_numBytesIO r = wr_numBytes r"
  shows "transfer_inv K this cs (HandleWriteDone K E this (r, g))"
proof -
  let ?c = "CHECKSUM_BLOCKSIZE K"
  let ?r1 = "(Ref r)\<lparr>mOffset := mOffset r + wr_numBytes r\<rparr>"
  have cs: "mChunkSize r = cs" using wr by (simp add: writing_def)
  note hc = HandleWriteDone_cases[OF K(1) wr fin, of E]
  then have wo: "write_order K cs (writes_of this g)" and nd: "\<not> mDone r" by simp_all
  have rs: "isRS (fst (HandleWriteDone K E this (r, g))) = isRS r"
    using frame_HandleWriteDone[of this r g K E] by (rule frame_isRS)
  have "phases K this cs (HandleWriteDone K E this (r, g))"
  proof -
    consider
      (ends) "HandleWriteDone K E this (r, g) = UnRef this (Terminate E this (Ref r, g))"
    | (tail) "HandleWriteDone K E this (r, g) = UnRef this (HandleReadDone K E this (?r1, g))"
        "whole_blocks K (writes_of this g) (mOffset r + wr_numBytes r)"
        "(mOffset r + wr_numBytes r) mod ?c = 0" "mOffset r + wr_numBytes r < cs"
        "BytesConsumable_ptr (rd_dataBuf r) = rd_numBytes r" "0 < rd_numBytes r"
        "mOffset r + wr_numBytes r + rd_numBytes r = cs"
    | (reads) "HandleWriteDone K E this (r, g) = UnRef this (Read K E this (?r1, g))"
        "mOffset r + wr_numBytes r \<le> cs"
        "sum_list (map snd (writes_of this g)) = mOffset r + wr_numBytes r"
        "mOffset r + wr_numBytes r < cs \<longrightarrow>
           no_tail r \<and> whole_blocks K (writes_of this g) (mOffset r + wr_numBytes r) \<and>
           (mOffset r + wr_numBytes r) mod ?c = 0"
      using hc by blast
    then show ?thesis
    proof cases
      case ends
      have "phases K this cs (Terminate E this (Ref r, g))"
        using wo nd by (intro phases_Terminate) (simp_all add: Ref_def)
      then show ?thesis unfolding ends by (rule phases_UnRef)
    next
      case tail
      have "phases K this cs (HandleReadDone K E this (?r1, g))"
      proof (rule phases_HandleReadDone(1)[OF K(1) EI])
        show "\<not> mDone ?r1" using nd by (simp add: Ref_def)
        show "mChunkSize ?r1 = cs" using cs by (simp add: Ref_def)
        show "mOffset ?r1 \<le> cs" using tail(4) by (simp add: Ref_def)
        show "mOffset ?r1 mod ?c = 0" using tail(3) by (simp add: Ref_def)
        show "whole_blocks K (writes_of this g) (mOffset ?r1)" using tail(2) by (simp add: Ref_def)
        show "mOffset ?r1 = cs \<or> rd_status ?r1 < 0 \<or>
           (BytesConsumable_ptr (rd_dataBuf ?r1) \<le> rd_numBytes ?r1 \<and> 0 < rd_numBytes ?r1 \<and>
            rd_numBytes ?r1 \<le> cs - mOffset ?r1 \<and>
            (rd_numBytes ?r1 mod ?c = 0 \<or> mOffset ?r1 + rd_numBytes ?r1 = cs))"
          using tail(5,6,7) by (simp add: Ref_def)
      qed
      then show ?thesis unfolding tail(1) by (rule phases_UnRef)
    next
      case reads
      have "phases K this cs (ReplicatorImpl_Read K E this (?r1, g))"
      proof (rule phases_ReplicatorImpl_Read[OF K])
        show "\<not> mDone ?r1" using nd by (simp add: Ref_def)
        show "mChunkSize ?r1 = cs" using cs by (simp add: Ref_def)
        show "mOffset ?r1 \<le> cs" using reads(2) by (simp add: Ref_def)
        show "write_order K cs (writes_of this g)" by (rule wo)
        show "sum_list (map snd (writes_of this g)) = mOffset ?r1"
          using reads(3) by (simp add: Ref_def)
        show "mOffset ?r1 < cs \<longrightarrow>
            whole_blocks K (writes_of this g) (mOffset ?r1) \<and> mOffset ?r1 mod ?c = 0"
          using reads(4) by (simp add: Ref_def)
      qed
      moreover have "Read K E this (?r1, g) = ReplicatorImpl_Read K E this (?r1, g)"
        using r by (simp add: Read_def Ref_def)
      ultimately show ?thesis unfolding reads(1) by (simp add: phases_UnRef)
    qed
  qed
  then show ?thesis using r rs by (simp add: transfer_inv_def)
qed

lemma transfer_inv_HandleStartDone:
  assumes K: "0 < CHECKSUM_BLOCKSIZE K" "CHECKSUM_BLOCKSIZE K \<le> 2 ^ 30"
    and r: "\<not> isRS r" "mOffset r = 0" "\<not> mDone r" "0 \<le> md_chunkSize r"
    and w: "writes_of this g = []"
  shows "transfer_inv K this (md_chunkSize r) (HandleStartDone K E this (r, g))"
proof -
  let ?cs = "md_chunkSize r"
  let ?r1 = "r\<lparr>mChunkSize := md_chunkSize r, mChunkVersion := md_chunkVersion r\<rparr>"
  let ?r2 = "?r1\<lparr>rd_chunkVersion := mChunkVersion ?r1, wr_chunkVersion := 0\<rparr>"
  let ?g2 = "emit (Instance this) (AllocChunk (mFileId ?r2) (mChunkId ?r2) 0 True)
               (emit (Instance this) (StaleChunk (mChunkId ?r2) True) g)"
  have w2: "writes_of this ?g2 = []" using w by (simp add: writes_of_emit)
  have wo: "write_order K ?cs []" using r(4) by (simp add: write_order_def)
  have t: "transfer_inv K this ?cs (Terminate E this (r', g'))"
    if "\<not> isRS r'" "\<not> mDone r'" "writes_of this g' = []" for r' g'
    using that wo by (intro transfer_inv_Terminate) simp_all
  have "phases K this ?cs (ReplicatorImpl_Read K E this (?r2, ?g2))"
    using r w2 wo
    by (intro phases_ReplicatorImpl_Read[OF K]) (simp_all add: whole_blocks_Nil)
  moreover have "isRS (fst (ReplicatorImpl_Read K E this (?r2, ?g2))) = isRS ?r2"
    using frame_ReplicatorImpl_Read[of this ?r2 ?g2 K E] by (rule frame_isRS)
  ultimately have rd: "transfer_inv K this ?cs (ReplicatorImpl_Read K E this (?r2, ?g2))"
    using r(1) by (simp add: transfer_inv_def)
  have e: "HandleStartDone K E this (r, g) =
     (if mCancelFlag r \<or> md_status r < 0 then Terminate E this (r, g)
      else if md_chunkSize r > CHUNKSIZE K then Terminate E this (?r1, g)
      else if env_AllocChunk E < 0 then Terminate E this (?r2, ?g2)
      else ReplicatorImpl_Read K E this (?r2, ?g2))"
    using r(1,4) by (simp add: HandleStartDone_def Let_def Read_def)
  show ?thesis
    unfolding e using t[of r g] t[of ?r1 g] t[of ?r2 ?g2] rd r w w2 by simp
qed

lemma transfer_inv_callback:
  assumes K: "0 < CHECKSUM_BLOCKSIZE K" "CHECKSUM_BLOCKSIZE K \<le> 2 ^ 30" and EI: "0 < EINVAL K"
    and inv: "transfer_inv K this cs rg" and ok: "callback_ok (fst rg) (snd c)"
  shows "transfer_inv K this cs (callback K this rg c)"
proof -
  obtain r g where rg: "rg = (r, g)" by (cases rg)
  obtain E cb where c: "c = (E, cb)" by (cases c)
  have rs: "\<not> isRS r" using inv by (simp add: rg transfer_inv_def)
  show ?thesis
  proof (cases cb)
    case (Cb_ReadDone st dat)
    show ?thesis
    proof (cases "mOwner r \<noteq> None \<and> handler r = H_HandleReadDone")
      case False
      then show ?thesis using inv by (auto simp: rg c Cb_ReadDone callback_def)
    next
      case True
      then have rdg: "reading K this cs (r, g)"
        using inv
        by (auto simp: rg transfer_inv_def phases_def finished_def ended_def writing_def)
      let ?r = "r\<lparr>rd_status := st, rd_dataBuf := dat\<rparr>"
      note k = kDefaultReplicationReadSize_props[OF K]
      have e: "callback K this rg c = HandleReadDone K E this (?r, g)"
        using True rs by (simp add: rg c Cb_ReadDone callback_def)
      from rdg have f: "\<not> mDone r" "mChunkSize r = cs"
        "whole_blocks K (writes_of this g) (mOffset r)" "mOffset r mod CHECKSUM_BLOCKSIZE K = 0"
        "mOffset r < cs" "rd_numBytes r = min (cs - mOffset r) (kDefaultReplicationReadSize K)"
        by (simp_all add: reading_def)
      have o: "st < 0 \<or> BytesConsumable_ptr dat \<le> rd_numBytes r"
        using ok by (simp add: rg c Cb_ReadDone callback_ok_def)
      have n: "0 < rd_numBytes r" "rd_numBytes r \<le> cs - mOffset r"
        "rd_numBytes r mod CHECKSUM_BLOCKSIZE K = 0 \<or> mOffset r + rd_numBytes r = cs"
        unfolding f(6) using f(5) k(1,2) by (auto simp: min_def)
      have "phases K this cs (HandleReadDone K E this (?r, g))"
      proof (rule phases_HandleReadDone(1)[OF K(1) EI])
        show "\<not> mDone ?r" using f(1) by simp
        show "mChunkSize ?r = cs" using f(2) by simp
        show "mOffset ?r \<le> cs" using f(5) by simp
        show "mOffset ?r mod CHECKSUM_BLOCKSIZE K = 0" using f(4) by simp
        show "whole_blocks K (writes_of this g) (mOffset ?r)" using f(3) by simp
        show "mOffset ?r = cs \<or> rd_status ?r < 0 \<or>
           (BytesConsumable_ptr (rd_dataBuf ?r) \<le> rd_numBytes ?r \<and> 0 < rd_numBytes ?r \<and>
            rd_numBytes ?r \<le> cs - mOffset ?r \<and>
            (rd_numBytes ?r mod CHECKSUM_BLOCKSIZE K = 0 \<or> mOffset ?r + rd_numBytes ?r = cs))"
          using o n by auto
      qed
      moreover have "isRS (fst (HandleReadDone K E this (?r, g))) = isRS ?r"
        using frame_HandleReadDone[of this ?r g K E] by (rule frame_isRS)
      ultimately show ?thesis unfolding e using rs by (simp add: transfer_inv_def)
    qed
  next
    case (Cb_WriteDone st n)
    show ?thesis
    proof (cases "mOwner r \<noteq> None \<and> handler r = H_HandleWriteDone \<and> \<not> mReadInFlightFlag r")
      case False
      then show ?thesis using inv by (auto simp: rg c Cb_WriteDone callback_def)
    next
      case True
      then have wrg: "writing K this cs (r, g)"
        using inv
        by (auto simp: rg transfer_inv_def phases_def finished_def ended_def reading_def)
      let ?r = "r\<lparr>wr_status := st, wr_numBytesIO := n\<rparr>"
      have e: "callback K this rg c = HandleWriteDone K E this (?r, g)"
        using True by (simp add: rg c Cb_WriteDone callback_def)
      have tk: "tail_kept K cs ?r = tail_kept K cs r" "no_tail ?r = no_tail r"
        by (simp_all add: tail_kept_def no_tail_def cong: option.case_cong)
      have w: "writing K this cs (?r, g)"
        using wrg by (simp add: writing_def tk)
      have o: "wr_status ?r < 0 \<or> wr_numBytesIO ?r = wr_numBytes ?r"
        using ok by (simp add: rg c Cb_WriteDone callback_ok_def)
      show ?thesis unfolding e
        using rs by (intro transfer_inv_HandleWriteDone[OF K EI _ w o]) simp
    qed
  qed
qed

lemma transfer_inv_run_callbacks:
  assumes K: "0 < CHECKSUM_BLOCKSIZE K" "CHECKSUM_BLOCKSIZE K \<le> 2 ^ 30" and EI: "0 < EINVAL K"
  shows "transfer_inv K this cs rg \<Longrightarrow> keeps_contract K this rg cbs \<Longrightarrow>
         transfer_inv K this cs (run_callbacks K this rg cbs)"
proof (induction cbs arbitrary: rg)
  case Nil
  then show ?case by (simp add: run_callbacks_def)
next
  case (Cons c cbs)
  have "transfer_inv K this cs (callback K this rg c)"
    using Cons.prems by (intro transfer_inv_callback[OF K EI]) simp_all
  then have "transfer_inv K this cs (run_callbacks K this (callback K this rg c) cbs)"
    using Cons.prems by (intro Cons.IH) simp_all
  then show ?case by (simp add: run_callbacks_def)
qed

lemma phases_write_order:
  assumes "phases K this cs (r, g)"
  shows "write_order K cs (writes_of this g)"
    and "mDone r \<longrightarrow> sum_list (map snd (writes_of this g)) = cs"
proof -
  have "write_order K cs (writes_of this g) \<and>
        (mDone r \<longrightarrow> sum_list (map snd (writes_of this g)) = cs)"
  proof -
    consider "finished K this cs (r, g)" | "reading K this cs (r, g)" | "writing K this cs (r, g)"
      using assms by (auto simp: phases_def)
    then show ?thesis
    proof cases
      case 1
      then show ?thesis by (simp add: finished_def)
    next
      case 2
      then show ?thesis
        using write_order_whole_blocks(1)[of K "writes_of this g" "mOffset r" cs]
        by (simp add: reading_def)
    next
      case 3
      let ?W = "writes_of this g"
      from 3 have f: "\<not> mDone r" "?W \<noteq> []"
        "last ?W = (mOffset r, wr_numBytes r)" "whole_blocks K (butlast ?W) (mOffset r)"
        "0 < wr_numBytes r" "mOffset r + wr_numBytes r \<le> cs"
        and t: "if wr_numBytes r mod CHECKSUM_BLOCKSIZE K = 0
                then tail_kept K cs r \<or> no_tail r
                else mOffset r + wr_numBytes r = cs \<and> no_tail r"
        by (simp_all add: writing_def)
      have W: "?W = butlast ?W @ [(mOffset r, wr_numBytes r)]"
        using f(2,3) by (metis append_butlast_last_id)
      have c: "wr_numBytes r mod CHECKSUM_BLOCKSIZE K = 0 \<or> mOffset r + wr_numBytes r = cs"
        using t by (auto split: if_splits)
      have p: "0 \<le> wr_numBytes r" using f(5) by simp
      show ?thesis
        using write_order_snoc(1)[OF f(4) p f(6) c] W f(1) by simp
    qed
  qed
  then show "write_order K cs (writes_of this g)"
    and "mDone r \<longrightarrow> sum_list (map snd (writes_of this g)) = cs"
    by simp_all
qed

lemma deliver_callback:
  assumes "\<not> died s" "heap s this = Some r" "\<not> deleted r"
  shows "deliver K dec s (E, Ev_ReadDone this st dat) =
           store this (callback K this (r, glob s) (E, Cb_ReadDone st dat)) s"
    and "deliver K dec s (E, Ev_WriteDone this st n) =
           store this (callback K this (r, glob s) (E, Cb_WriteDone st n)) s"
proof -
  have i: "store this (r, glob s) s = s"
    using assms(2,3) by (simp add: store_def fun_upd_idem)
  show "deliver K dec s (E, Ev_ReadDone this st dat) =
           store this (callback K this (r, glob s) (E, Cb_ReadDone st dat)) s"
    using assms(1,2) i by (simp add: deliver_def on_instance_def callback_def)
  show "deliver K dec s (E, Ev_WriteDone this st n) =
           store this (callback K this (r, glob s) (E, Cb_WriteDone st n)) s"
    using assms(1,2) i by (auto simp: deliver_def on_instance_def callback_def)
qed

section \<open>The writes of a recovery\<close>

lemma recovery_kept_refl [simp]: "recovery_kept r r"
  by (simp add: recovery_kept_def)

lemma recovery_kept_trans: "recovery_kept a b \<Longrightarrow> recovery_kept b c \<Longrightarrow> recovery_kept a c"
  by (simp add: recovery_kept_def)

lemma recovery_kept_UnRef: "recovery_kept r (fst (UnRef this (r, g)))"
  by (simp add: UnRef_fst recovery_kept_def)

lemma recovery_kept_HandleReplicationDone:
  "recovery_kept r (fst (HandleReplicationDone this dat (r, g)))"
  by (cases "mOwner r")
    (simp_all add: HandleReplicationDone_no_owner HandleReplicationDone_fst recovery_kept_def)

lemma recovery_kept_Terminate: "recovery_kept r (fst (Terminate E this (r, g)))"
proof (cases "mDone r \<and> \<not> mCancelFlag r")
  case True
  have "recovery_kept r (r\<lparr>handler := H_HandleReplicationDone\<rparr>)"
    by (simp add: recovery_kept_def)
  then show ?thesis
    using True
      recovery_kept_HandleReplicationDone[of "r\<lparr>handler := H_HandleReplicationDone\<rparr>" this
        "Some (env_ChangeChunkVers E)"
        "emit (Instance this) (ChangeChunkVers (mChunkId r) (mChunkVersion r) True) g"]
    by (auto simp: Terminate_commit intro: recovery_kept_trans)
next
  case False
  then show ?thesis by (simp add: Terminate_failed recovery_kept_HandleReplicationDone)
qed

lemma recovery_kept_update:
  assumes "isRS r' = isRS r" "mReadSize r' = mReadSize r" "mReadTail r' = mReadTail r"
    "mReadInFlightFlag r' = mReadInFlightFlag r" "mChunkSize r' = mChunkSize r"
  shows "recovery_kept r r'"
  using assms by (simp add: recovery_kept_def)

lemma recovery_kept_then:
  assumes "recovery_kept r r1" "recovery_kept r1 (fst (f (r1, g1)))"
  shows "recovery_kept r (fst (f (r1, g1)))"
  using assms by (rule recovery_kept_trans)

lemma recovery_kept_HandleReadDone: "recovery_kept r (fst (HandleReadDone K E this (r, g)))"
proof -
  let ?r1 = "HandleReadDone_status K r"
  let ?d = "mOffset ?r1 = mChunkSize ?r1 \<and> rd_status ?r1 \<ge> 0 \<and> \<not> mCancelFlag ?r1"
  let ?r4 = "HandleReadDone_swap K ?r1"
  let ?g1 = "emit (Instance this)
                 (WriteChunk (wr_offset ?r4) (wr_numBytes ?r4)
                    (case wr_dataBuf ?r4 of Some b \<Rightarrow> b | None \<Rightarrow> [])) g"
  have a: "recovery_kept r (?r1\<lparr>mDone := ?d\<rparr>)"
    by (rule recovery_kept_update) (simp_all add: HandleReadDone_status_def Let_def)
  have b: "recovery_kept r ?r4"
    by (rule recovery_kept_update)
      (simp_all add: HandleReadDone_status_def HandleReadDone_swap_def Let_def split_def)
  have e: "HandleReadDone K E this (r, g) =
     (if mCancelFlag ?r1 \<or> rd_status ?r1 < 0 \<or> mOffset ?r1 = mChunkSize ?r1
      then Terminate E this (?r1\<lparr>mDone := ?d\<rparr>, g)
      else if env_WriteChunk E < 0 then Terminate E this (?r4, ?g1) else (?r4, ?g1))"
    by (simp add: HandleReadDone_def Let_def)
  show ?thesis
    unfolding e
    using recovery_kept_trans[OF a recovery_kept_Terminate[of "?r1\<lparr>mDone := ?d\<rparr>" E this g]]
      recovery_kept_trans[OF b recovery_kept_Terminate[of ?r4 E this ?g1]] b
    by simp
qed

lemma recovery_kept_ReplicatorImpl_Read:
  "recovery_kept r (fst (ReplicatorImpl_Read K E this (r, g)))"
proof -
  let ?n = "wrap32 (min (mChunkSize r - mOffset r) (kDefaultReplicationReadSize K))"
  let ?r1 = "(Ref r)\<lparr>handler := H_HandleReadDone, rd_status := 0, rd_offset := mOffset r,
                     rd_numBytesIO := 0, rd_numBytes := ?n\<rparr>"
  let ?g1 = "emit (Instance this)
               (if mPeer r then Enqueue_Read (mChunkId r) (rd_chunkVersion r) (mOffset r) ?n
                else NullPeer) g"
  let ?r2 = "(Ref r)\<lparr>mDone := (mOffset r = mChunkSize r)\<rparr>"
  have e: "ReplicatorImpl_Read K E this (r, g) =
     UnRef this (if mOffset r \<ge> mChunkSize r then Terminate E this (?r2, g) else (?r1, ?g1))"
    by (simp add: ReplicatorImpl_Read_def Let_def Ref_def)
  have a: "recovery_kept r ?r1" "recovery_kept r ?r2"
    by (simp_all add: recovery_kept_def Ref_def)
  have t: "recovery_kept r (fst (Terminate E this (?r2, g)))"
    using recovery_kept_trans[OF a(2) recovery_kept_Terminate] .
  have u: "recovery_kept (fst X) (fst (UnRef this X))" for X
    using recovery_kept_UnRef[of "fst X" this "snd X"] by simp
  have v: "recovery_kept r (fst (UnRef this (?r1, ?g1)))"
    using recovery_kept_trans[OF a(1) recovery_kept_UnRef[of ?r1 this ?g1]] .
  show ?thesis
    unfolding e
    using recovery_kept_trans[OF t u] v
    by simp
qed

lemma recovery_inv_UnRef:
  assumes "recovery_inv K this rg"
  shows "recovery_inv K this (UnRef this rg)"
proof -
  obtain r g where rg: "rg = (r, g)" by (cases rg)
  obtain r' g' where u: "UnRef this (r, g) = (r', g')" by (cases "UnRef this (r, g)")
  have f: "r' = r\<lparr>refCount := refCount r - 1, deleted := (refCount r = 1 \<or> deleted r)\<rparr>"
    using UnRef_fst[of this r g] u by simp
  have w: "writes_of this g' = writes_of this g" using writes_of_UnRef[of this this r g] u by simp
  have t: "tail_kept K cs r' = tail_kept K cs r" for cs
    by (simp add: f tail_kept_def cong: option.case_cong)
  have n: "no_tail r' = no_tail r" by (simp add: f no_tail_def)
  have "recovery_inv K this (r', g') = recovery_inv K this (r, g)"
    by (simp add: recovery_inv_def recovering_def finished_def reading_def writing_def
        ended_def last_write_def t n w) (simp add: f)
  then show ?thesis using assms unfolding rg u by simp
qed

lemma recovery_inv_kept:
  assumes "recovery_kept r (fst X)"
    and "isRS r" "0 < mReadSize r" "BytesConsumable (mReadTail r) < CHECKSUM_BLOCKSIZE K"
      "\<not> mReadInFlightFlag r"
    and "finished K this (mChunkSize r) X \<or> reading K this (mChunkSize r) X \<or>
         writing K this (mChunkSize r) X \<and> last_write K (fst X)"
  shows "recovery_inv K this X"
  using assms by (cases X) (auto simp: recovery_inv_def recovery_kept_def)

lemma HandleReadDone_no_data:
  assumes "0 < EINVAL K" "BytesConsumable_ptr (rd_dataBuf r) = 0" "rd_status r \<noteq> 0"
    "0 < rd_numBytes r" "mOffset r < mChunkSize r"
    and "write_order K cs (writes_of this g)"
  shows "finished K this cs (HandleReadDone K E this (r, g))"
proof -
  let ?r1 = "HandleReadDone_status K r"
  have c: "mCancelFlag ?r1 \<or> rd_status ?r1 < 0"
    using assms(1-5) by (auto simp: HandleReadDone_status_def Let_def)
  have e: "HandleReadDone K E this (r, g) = Terminate E this (?r1\<lparr>mDone := False\<rparr>, g)"
    using c assms(5) by (auto simp: HandleReadDone_def Let_def)
  show ?thesis
    unfolding e using assms(6) by (intro finished_Terminate) simp_all
qed

lemma recovery_inv_RSReplicatorImpl_Read:
  assumes K: "0 < CHECKSUM_BLOCKSIZE K" "CHECKSUM_BLOCKSIZE K \<le> 2 ^ 30" and EI: "0 < EINVAL K"
    and r: "isRS r" "0 < mReadSize r" "BytesConsumable (mReadTail r) < CHECKSUM_BLOCKSIZE K"
      "\<not> mReadInFlightFlag r" "\<not> mDone r" "mOffset r \<le> mChunkSize r"
    and w: "write_order K (mChunkSize r) (writes_of this g)"
      "sum_list (map snd (writes_of this g)) = mOffset r"
    and b: "mOffset r < mChunkSize r \<longrightarrow>
            whole_blocks K (writes_of this g) (mOffset r) \<and>
            mOffset r mod CHECKSUM_BLOCKSIZE K = 0 \<and>
            mChunkSize r mod CHECKSUM_BLOCKSIZE K = 0"
  shows "recovery_inv K this (RSReplicatorImpl_Read K E this (r, g))"
proof (cases "mOffset r \<ge> mChunkSize r \<or> rd_status r < 0")
  case True
  then have e: "RSReplicatorImpl_Read K E this (r, g) = ReplicatorImpl_Read K E this (r, g)"
    by (simp add: RSReplicatorImpl_Read_def)
  have p: "finished K this (mChunkSize r) (ReplicatorImpl_Read K E this (r, g)) \<or>
         reading K this (mChunkSize r) (ReplicatorImpl_Read K E this (r, g))"
    using r w b by (intro ReplicatorImpl_Read_phase[OF K]) simp_all
  show ?thesis
    unfolding e
    using recovery_kept_ReplicatorImpl_Read[of r K E this g] r(1-4) p
    by (intro recovery_inv_kept[of r]) auto
next
  case False
  then have lt: "mOffset r < mChunkSize r" and st0: "\<not> rd_status r < 0" by simp_all
  let ?r1 = "(Ref r)\<lparr>rd_dataBuf := Some [], rd_status := 0, rd_numBytes := mReadSize r,
                    rd_numBytesIO := 0, rd_offset := mOffset r, mReadInFlightFlag := True\<rparr>"
  let ?g1 = "emit (Instance this)
               (Reader_Read (mReadSize r) (mOffset r + BytesConsumable (mReadTail r))) g"
  let ?r2 = "?r1\<lparr>mReadInFlightFlag := False, rd_status := env_Reader_Read E\<rparr>"
  have e: "RSReplicatorImpl_Read K E this (r, g) =
      UnRef this (if env_Reader_Read E \<noteq> 0 then HandleReadDone K E this (?r2, ?g1)
                  else (?r1, ?g1))"
    using False by (simp add: RSReplicatorImpl_Read_def Let_def Ref_def)
  have wg: "writes_of this ?g1 = writes_of this g" by (simp add: writes_of_emit)
  show ?thesis
  proof (cases "env_Reader_Read E \<noteq> 0")
    case True
    have f: "finished K this (mChunkSize r) (HandleReadDone K E this (?r2, ?g1))"
      using True r lt w(1) unfolding wg[symmetric]
      by (intro HandleReadDone_no_data[OF EI])
        (simp_all add: Ref_def BytesConsumable_ptr_def BytesConsumable_def)
    have k: "recovery_kept ?r2 (fst (HandleReadDone K E this (?r2, ?g1)))"
      by (rule recovery_kept_HandleReadDone)
    have "recovery_inv K this (HandleReadDone K E this (?r2, ?g1))"
      using k r(1-4) f by (intro recovery_inv_kept[of ?r2]) (simp_all add: Ref_def)
    then show ?thesis unfolding e using True by (simp add: recovery_inv_UnRef)
  next
    case False
    have "recovering K this (?r1, ?g1)"
      using r lt b by (simp add: recovering_def writes_of_emit Ref_def BytesConsumable_ptr_def
          BytesConsumable_def)
    then have "recovery_inv K this (?r1, ?g1)"
      using r(1-3) by (simp add: recovery_inv_def Ref_def)
    then show ?thesis unfolding e using False by (simp add: recovery_inv_UnRef)
  qed
qed

lemma whole_blocks_bound:
  assumes "0 < (c::int)" "a mod c = 0" "b mod c = 0" "a < b + c"
  shows "a \<le> b"
proof (rule ccontr)
  assume "\<not> a \<le> b"
  then have p: "0 < a - b" by simp
  have "c dvd a - b" using assms(2,3) by (simp add: mod_eq_0_iff_dvd)
  then have "c \<le> a - b" using p by (rule zdvd_imp_le)
  then show False using assms(4) by simp
qed

lemma move_blocks_bound:
  assumes "0 < (c::int)" "0 \<le> t" "t < c" "0 \<le> i" "i \<le> m" "off + m < cs"
    "off mod c = 0" "cs mod c = 0"
  shows "off + (t + i) div c * c \<le> cs"
    and "(t + i) div c * c \<le> t + i" and "t + i - (t + i) div c * c < c"
    and "((t + i) div c * c) mod c = 0"
    and "(t + i) div c * c \<le> 0 \<Longrightarrow> t + i < c"
proof -
  let ?n = "(t + i) div c * c"
  have e: "?n = t + i - (t + i) mod c" using div_mult_mod_eq[of "t + i" c] by linarith
  have m: "0 \<le> (t + i) mod c" "(t + i) mod c < c" using assms(1) by simp_all
  show le: "?n \<le> t + i" using e m by linarith
  show "t + i - ?n < c" using e m by linarith
  show al: "?n mod c = 0" by simp
  have "(off + ?n) mod c = 0" using assms(7) al by (simp add: mod_eq_0_iff_dvd)
  moreover have "off + ?n < cs + c" using le assms(3,5,6) by linarith
  ultimately show "off + ?n \<le> cs" using whole_blocks_bound[OF assms(1) _ assms(8)] by simp
  show "t + i < c" if "?n \<le> 0"
  proof (rule ccontr)
    assume "\<not> t + i < c"
    then have "c \<le> t + i" by simp
    then have "0 < (t + i) div c" using assms(1) by (simp add: pos_imp_zdiv_pos_iff)
    then have "0 < ?n" using assms(1) by simp
    then show False using that by simp
  qed
qed

lemma Done_move_blocks_fields:
  assumes "0 < nmv" "nmv \<le> int (length (mReadTail r)) + int (length inBuf)"
  shows "\<exists>b. rd_dataBuf (Done_move_blocks r inBuf nmv) = Some b \<and> int (length b) = nmv"
    and "int (length (mReadTail (Done_move_blocks r inBuf nmv))) =
           int (length (mReadTail r)) + int (length inBuf) - nmv"
    and "rd_numBytes (Done_move_blocks r inBuf nmv) = nmv"
    and "isRS (Done_move_blocks r inBuf nmv) = isRS r"
      "mReadSize (Done_move_blocks r inBuf nmv) = mReadSize r"
      "mReadInFlightFlag (Done_move_blocks r inBuf nmv) = mReadInFlightFlag r"
      "mChunkSize (Done_move_blocks r inBuf nmv) = mChunkSize r"
      "mOffset (Done_move_blocks r inBuf nmv) = mOffset r"
      "mDone (Done_move_blocks r inBuf nmv) = mDone r"
      "rd_status (Done_move_blocks r inBuf nmv) = rd_status r"
  using assms
  by (auto simp: Done_move_blocks_def Move_n_def Let_def BytesConsumable_def min_def)

lemma recovery_inv_Ref: "recovery_inv K this (Ref r, g) = recovery_inv K this (r, g)"
proof -
  have t: "tail_kept K cs (Ref r) = tail_kept K cs r" for cs
    by (simp add: Ref_def tail_kept_def cong: option.case_cong)
  have n: "no_tail (Ref r) = no_tail r" by (simp add: Ref_def no_tail_def)
  show ?thesis
    by (simp add: recovery_inv_def recovering_def finished_def reading_def writing_def
        ended_def last_write_def t n)
qed

lemma recovery_inv_cong:
  assumes "isRS r' = isRS r" "mReadSize r' = mReadSize r" "mReadTail r' = mReadTail r"
    "mReadInFlightFlag r' = mReadInFlightFlag r" "mOwner r' = mOwner r" "handler r' = handler r"
    "mDone r' = mDone r" "mChunkSize r' = mChunkSize r" "mOffset r' = mOffset r"
    "rd_numBytes r' = rd_numBytes r" "rd_dataBuf r' = rd_dataBuf r"
    "rd_offset r' = rd_offset r" "wr_numBytes r' = wr_numBytes r"
    "mReadInFlightFlag r \<longrightarrow> rd_status r' = rd_status r"
    "writes_of this g' = writes_of this g"
  shows "recovery_inv K this (r', g') = recovery_inv K this (r, g)"
proof -
  have t: "tail_kept K cs r' = tail_kept K cs r" for cs
    using assms by (simp add: tail_kept_def cong: option.case_cong)
  have n: "no_tail r' = no_tail r" using assms by (simp add: no_tail_def)
  have a: "recovering K this (r', g') = recovering K this (r, g)"
    using assms by (auto simp: recovering_def)
  show ?thesis
    unfolding recovery_inv_def split_conv a
    using assms
    by (simp add: finished_def reading_def writing_def ended_def last_write_def t n)
qed

lemma recovery_inv_failed_read:
  assumes EI: "0 < EINVAL K"
    and s: "isRS r" "0 < mReadSize r" "BytesConsumable (mReadTail r) < CHECKSUM_BLOCKSIZE K"
      "\<not> mReadInFlightFlag r"
    and f: "rd_status r \<noteq> 0" "BytesConsumable_ptr (rd_dataBuf r) = 0" "0 < rd_numBytes r"
      "mOffset r < mChunkSize r"
    and w: "write_order K (mChunkSize r) (writes_of this g)"
  shows "recovery_inv K this (HandleReadDone K E this (r, g))"
proof -
  have "finished K this (mChunkSize r) (HandleReadDone K E this (r, g))"
    using EI f(2,1,3,4) w by (rule HandleReadDone_no_data)
  then show ?thesis
    using recovery_kept_HandleReadDone[of r K E this g] s
    by (intro recovery_inv_kept[of r]) simp_all
qed

lemma recovery_inv_Done_body:
  assumes K: "0 < CHECKSUM_BLOCKSIZE K" "CHECKSUM_BLOCKSIZE K \<le> 2 ^ 30" and EI: "0 < EINVAL K"
    and inv: "recovery_inv K this (r, g)"
    and ok: "\<not> mReadInFlightFlag r \<or> mPendingCloseFlag r \<or> st \<noteq> 0 \<or>
             (case buf of None \<Rightarrow> False | Some b \<Rightarrow> BytesConsumable b \<le> rd_numBytes r)"
  shows "case Done_body K E dec this mine st off sz buf req (r, g) of
           Inl e \<Rightarrow> True
         | Inr X \<Rightarrow> recovery_inv K this X"
proof -
  let ?c = "CHECKSUM_BLOCKSIZE K"
  let ?D = "Done_body K E dec this mine st off sz buf req (r, g)"
  from inv have s: "isRS r" "0 < mReadSize r" "BytesConsumable (mReadTail r) < ?c"
    by (simp_all add: recovery_inv_def)
  consider (invalid) "Done_invalid r mine off sz buf req"
    | (closing) "\<not> Done_invalid r mine off sz buf req" "mPendingCloseFlag r"
    | (idle) "\<not> Done_invalid r mine off sz buf req" "\<not> mPendingCloseFlag r"
        "\<not> mReadInFlightFlag r"
    | (taken) "\<not> Done_invalid r mine off sz buf req" "\<not> mPendingCloseFlag r"
        "mReadInFlightFlag r"
    by blast
  then show ?thesis
  proof cases
    case invalid
    then show ?thesis by (simp add: Done_body_def)
  next
    case closing
    have e: "?D = (if \<not> env_Reader_IsActive E
                   then Inr (UnRef this (r\<lparr>mPendingCloseFlag := False\<rparr>, g)) else Inr (r, g))"
      using closing by (simp add: Done_body_def)
    have "recovery_inv K this (r\<lparr>mPendingCloseFlag := False\<rparr>, g)"
      using inv recovery_inv_cong[of "r\<lparr>mPendingCloseFlag := False\<rparr>" r this g g K] by simp
    then have "recovery_inv K this (UnRef this (r\<lparr>mPendingCloseFlag := False\<rparr>, g))"
      by (rule recovery_inv_UnRef)
    then show ?thesis unfolding e using inv by simp
  next
    case idle
    have e: "?D = Inr (if rd_status r \<ge> 0 \<and> st < 0 then r\<lparr>rd_status := st\<rparr> else r, g)"
      using idle by (simp add: Done_body_def)
    have "recovery_inv K this (r\<lparr>rd_status := st\<rparr>, g)"
      using inv idle(3) recovery_inv_cong[of "r\<lparr>rd_status := st\<rparr>" r this g g K] by simp
    then show ?thesis unfolding e using inv by simp
  next
    case taken
    from inv taken(3) have rc: "recovering K this (r, g)" by (simp add: recovery_inv_def)
    then have f: "\<not> mDone r" "whole_blocks K (writes_of this g) (mOffset r)"
      "mOffset r mod ?c = 0" "mOffset r < mChunkSize r" "mChunkSize r mod ?c = 0"
      "rd_status r = 0" "rd_numBytes r = mReadSize r" "BytesConsumable_ptr (rd_dataBuf r) = 0"
      by (simp_all add: recovering_def)
    have le: "mOffset r \<le> mChunkSize r" using f(4) by simp
    note wo = write_order_whole_blocks[OF f(2) le]
    let ?r1 = "r\<lparr>mReadInFlightFlag := False\<rparr>"
    let ?r2 = "?r1\<lparr>rd_status := st\<rparr>"
    show ?thesis
    proof (cases "mOwner r")
      case None
      have e: "?D = Inr (?r1, g)" using taken None by (simp add: Done_body_def Let_def)
      have "finished K this (mChunkSize r) (?r1, g)"
        using None wo f(1) by (simp add: finished_def ended_def)
      then have "recovery_inv K this (?r1, g)" using s by (simp add: recovery_inv_def)
      then show ?thesis unfolding e by simp
    next
      case (Some owner)
      have nz: "\<not> (buf = None \<and> st = 0)"
        using ok taken by (auto split: option.splits)
      have e: "?D = Done_completion K E dec this st buf owner (?r2, g)"
        using taken Some f(6) nz by (auto simp: Done_body_def Let_def)
      have fail: "recovery_inv K this (HandleReadDone K E this (r3, g))"
        if "st \<noteq> 0" "r3 = ?r2 \<or> (\<exists>o'. r3 = ?r2\<lparr>mOwner := o'\<rparr>)" for r3
      proof (rule recovery_inv_failed_read[OF EI])
        show "isRS r3" "0 < mReadSize r3" "BytesConsumable (mReadTail r3) < ?c"
          "\<not> mReadInFlightFlag r3" using that(2) s by auto
        show "rd_status r3 \<noteq> 0" using that by auto
        show "BytesConsumable_ptr (rd_dataBuf r3) = 0" "0 < rd_numBytes r3"
          "mOffset r3 < mChunkSize r3" using that(2) f s by auto
        show "write_order K (mChunkSize r3) (writes_of this g)" using that(2) wo(1) by auto
      qed
      show ?thesis
      proof (cases "st = 0")
        case False
        have "case Done_completion K E dec this st buf owner (?r2, g) of
                Inl e \<Rightarrow> True | Inr X \<Rightarrow> recovery_inv K this X"
        proof (cases buf)
          case None
          then show ?thesis using fail[OF False, of ?r2] by (simp add: Done_completion_def)
        next
          case (Some inBuf)
          show ?thesis
          proof (cases "st < 0 \<and> inBuf \<noteq> []")
            case b: False
            then show ?thesis
              using False Some fail[OF False, of ?r2] by (auto simp: Done_completion_def)
          next
            case True
            let ?ns = "wrap32 (numStripes owner + numRecoveryStripes owner)"
            show ?thesis
            proof (cases "bad_stripes_loop dec ?ns inBuf 0 []")
              case (Inl e)
              then show ?thesis
                using False Some True by (simp add: Done_completion_def Let_def)
            next
              case (Inr p)
              obtain n os where p: "p = (n, os)" by (cases p)
              have "recovery_inv K this (HandleReadDone K E this
                 (if n > 0 then ?r2\<lparr>mOwner := Some (owner\<lparr>invalidStripeIdx := os\<rparr>)\<rparr>
                  else ?r2, g))"
                using fail[OF False, of ?r2]
                  fail[OF False, of "?r2\<lparr>mOwner := Some (owner\<lparr>invalidStripeIdx := os\<rparr>)\<rparr>"]
                by auto
              then show ?thesis
                using False Some True Inr p by (simp add: Done_completion_def Let_def)
            qed
          qed
        qed
        then show ?thesis unfolding e .
      next
        case True
        then obtain inBuf where buf: "buf = Some inBuf"
          and len: "int (length inBuf) \<le> mReadSize r"
          using ok taken f(7) by (auto simp: BytesConsumable_def split: option.splits)
        let ?t = "int (length (mReadTail r))" and ?i = "int (length inBuf)"
        have t: "?t < ?c" using s(3) by (simp add: BytesConsumable_def)
        show ?thesis
        proof (cases "mReadSize r > ?i \<or> mOffset r + mReadSize r \<ge> mChunkSize r")
          case eoc: True
          let ?cs = "mOffset r + (?t + ?i)"
          let ?r3 = "Done_end_of_chunk ?r2 inBuf"
          let ?r4 = "if env_Reader_IsActive E then Ref (?r3\<lparr>mPendingCloseFlag := True\<rparr>)
                     else ?r3"
          let ?g1 = "emit (Instance this) Reader_Close g"
          let ?X = "HandleReadDone K E this (?r4, ?g1)"
          have e2: "Done_completion K E dec this st buf owner (?r2, g) = Inr ?X"
            using True buf eoc
            by (simp add: Done_completion_def Let_def BytesConsumable_def)
          have r4: "isRS ?r4" "mReadSize ?r4 = mReadSize r" "mReadTail ?r4 = []"
            "\<not> mReadInFlightFlag ?r4" "\<not> mDone ?r4" "mChunkSize ?r4 = ?cs"
            "mOffset ?r4 = mOffset r" "rd_status ?r4 = 0"
            "rd_dataBuf ?r4 = Some (mReadTail r @ inBuf)" "rd_numBytes ?r4 = ?t + ?i"
            using s f(1) True
            by (simp_all add: Done_end_of_chunk_def Let_def Ref_def BytesConsumable_def)
          have wg: "writes_of this ?g1 = writes_of this g" by (simp add: writes_of_emit)
          have pre: "\<not> mDone ?r4" "mChunkSize ?r4 = ?cs" "mOffset ?r4 \<le> ?cs"
            "mOffset ?r4 mod ?c = 0" "whole_blocks K (writes_of this ?g1) (mOffset ?r4)"
            "mOffset ?r4 = ?cs \<or> rd_status ?r4 < 0 \<or>
               (BytesConsumable_ptr (rd_dataBuf ?r4) \<le> rd_numBytes ?r4 \<and>
                0 < rd_numBytes ?r4 \<and> rd_numBytes ?r4 \<le> ?cs - mOffset ?r4 \<and>
                (rd_numBytes ?r4 mod ?c = 0 \<or> mOffset ?r4 + rd_numBytes ?r4 = ?cs))"
          proof -
            show "\<not> mDone ?r4" by (rule r4(5))
            show "mChunkSize ?r4 = ?cs" by (rule r4(6))
            show "mOffset ?r4 \<le> ?cs" unfolding r4(7) by simp
            show "mOffset ?r4 mod ?c = 0" unfolding r4(7) by (rule f(3))
            show "whole_blocks K (writes_of this ?g1) (mOffset ?r4)"
              unfolding r4(7) wg by (rule f(2))
            show "mOffset ?r4 = ?cs \<or> rd_status ?r4 < 0 \<or>
               (BytesConsumable_ptr (rd_dataBuf ?r4) \<le> rd_numBytes ?r4 \<and>
                0 < rd_numBytes ?r4 \<and> rd_numBytes ?r4 \<le> ?cs - mOffset ?r4 \<and>
                (rd_numBytes ?r4 mod ?c = 0 \<or> mOffset ?r4 + rd_numBytes ?r4 = ?cs))"
              unfolding r4(7,9,10)
              by (auto simp: BytesConsumable_ptr_def BytesConsumable_def)
          qed
          note h = phases_HandleReadDone[OF K(1) EI pre, of E]
          have end': "mOffset ?r4 + rd_numBytes ?r4 = ?cs" unfolding r4 by simp
          have k: "recovery_kept ?r4 (fst ?X)" by (rule recovery_kept_HandleReadDone)
          then have cx: "mChunkSize (fst ?X) = ?cs" using r4(6) by (simp add: recovery_kept_def)
          have "finished K this ?cs ?X \<or> writing K this ?cs ?X \<and> last_write K (fst ?X)"
            using h(2)[OF end'] unfolding last_write_def cx by blast
          then have "recovery_inv K this ?X"
            using k r4(1-4,6) s(2) K(1)
            by (intro recovery_inv_kept[of ?r4]) (auto simp: BytesConsumable_def)
          then show ?thesis unfolding e e2 by simp
        next
          case more: False
          then have full: "?i = mReadSize r" and room: "mOffset r + mReadSize r < mChunkSize r"
            using len by simp_all
          let ?nmv = "(?t + ?i) div ?c * ?c"
          have cd: "c_div (?t + ?i) ?c = (?t + ?i) div ?c"
            using K(1) by (simp add: c_div_nonneg)
          note mb = move_blocks_bound[OF K(1) _ t _ _ room f(3,5), of ?i]
          have mb1: "mOffset r + ?nmv \<le> mChunkSize r" "?nmv \<le> ?t + ?i" "?t + ?i - ?nmv < ?c"
            "?nmv mod ?c = 0" "?nmv \<le> 0 \<Longrightarrow> ?t + ?i < ?c"
            using mb full by simp_all
          show ?thesis
          proof (cases "?nmv \<le> 0")
            case True
            let ?r6 = "?r2\<lparr>rd_dataBuf := Some [], mReadTail := mReadTail ?r2 @ inBuf\<rparr>"
            have e2: "Done_completion K E dec this st buf owner (?r2, g) =
                Inr (RSReplicatorImpl_Read K E this (?r6, g))"
              using \<open>st = 0\<close> buf more True s(1)
              by (simp add: Done_completion_def Let_def BytesConsumable_def Read_def cd)
            have "recovery_inv K this (RSReplicatorImpl_Read K E this (?r6, g))"
            proof (rule recovery_inv_RSReplicatorImpl_Read[OF K EI])
              show "isRS ?r6" "0 < mReadSize ?r6" "\<not> mReadInFlightFlag ?r6" "\<not> mDone ?r6"
                "mOffset ?r6 \<le> mChunkSize ?r6"
                using s f(1) le by simp_all
              show "BytesConsumable (mReadTail ?r6) < ?c"
                using mb1(5)[OF True] by (simp add: BytesConsumable_def)
              show "write_order K (mChunkSize ?r6) (writes_of this g)" using wo(1) by simp
              show "sum_list (map snd (writes_of this g)) = mOffset ?r6" using wo(2) by simp
              show "mOffset ?r6 < mChunkSize ?r6 \<longrightarrow>
                  whole_blocks K (writes_of this g) (mOffset ?r6) \<and>
                  mOffset ?r6 mod ?c = 0 \<and> mChunkSize ?r6 mod ?c = 0"
                using f(2,3,5) by simp
            qed
            then show ?thesis unfolding e e2 by simp
          next
            case False
            then have pos: "0 < ?nmv" by simp
            let ?r5 = "Done_move_blocks ?r2 inBuf ?nmv"
            let ?X = "HandleReadDone K E this (?r5, g)"
            have e2: "Done_completion K E dec this st buf owner (?r2, g) = Inr ?X"
              using \<open>st = 0\<close> buf more False
              by (simp add: Done_completion_def Let_def BytesConsumable_def cd)
            have le2: "?nmv \<le> int (length (mReadTail ?r2)) + ?i" using mb1(2) by simp
            note mf = Done_move_blocks_fields[OF pos le2]
            from mf(1) obtain b where b: "rd_dataBuf ?r5 = Some b" "int (length b) = ?nmv"
              by blast
            have pre: "\<not> mDone ?r5" "mChunkSize ?r5 = mChunkSize r" "mOffset ?r5 \<le> mChunkSize r"
              "mOffset ?r5 mod ?c = 0" "whole_blocks K (writes_of this g) (mOffset ?r5)"
              "mOffset ?r5 = mChunkSize r \<or> rd_status ?r5 < 0 \<or>
                 (BytesConsumable_ptr (rd_dataBuf ?r5) \<le> rd_numBytes ?r5 \<and>
                  0 < rd_numBytes ?r5 \<and> rd_numBytes ?r5 \<le> mChunkSize r - mOffset ?r5 \<and>
                  (rd_numBytes ?r5 mod ?c = 0 \<or> mOffset ?r5 + rd_numBytes ?r5 = mChunkSize r))"
              unfolding mf(3) mf(7-10) b(1)
              using f(1,2,3) le pos mb1(1,4) b(2)
              by (simp_all add: BytesConsumable_ptr_def BytesConsumable_def)
            note h = phases_HandleReadDone(1)[OF K(1) EI pre, of E]
            have k: "recovery_kept ?r5 (fst ?X)" by (rule recovery_kept_HandleReadDone)
            then have cx: "mChunkSize (fst ?X) = mChunkSize r"
              using mf(7) by (simp add: recovery_kept_def)
            have lw: "last_write K (fst ?X)" unfolding last_write_def cx using f(5) by simp
            have tl: "BytesConsumable (mReadTail ?r5) < ?c"
              using mf(2) mb1(3) by (simp add: BytesConsumable_def)
            have "recovery_inv K this ?X"
              using k h lw tl s unfolding phases_def
              by (intro recovery_inv_kept[of ?r5]) (auto simp: mf(4-7))
            then show ?thesis unfolding e e2 by simp
          qed
        qed
      qed
    qed
  qed
qed

lemma recovery_inv_Done:
  assumes K: "0 < CHECKSUM_BLOCKSIZE K" "CHECKSUM_BLOCKSIZE K \<le> 2 ^ 30" and EI: "0 < EINVAL K"
    and inv: "recovery_inv K this (r, g)"
    and ok: "reader_callback_ok r (Rc_ReaderDone mine st off sz buf req)"
  shows "case Done K E dec this mine st off sz buf req (r, g) of
           Inl e \<Rightarrow> True
         | Inr X \<Rightarrow> recovery_inv K this X"
proof -
  have i: "recovery_inv K this (Ref r, g)" using inv by (simp add: recovery_inv_Ref)
  have o: "\<not> mReadInFlightFlag (Ref r) \<or> mPendingCloseFlag (Ref r) \<or> st \<noteq> 0 \<or>
             (case buf of None \<Rightarrow> False
              | Some b \<Rightarrow> BytesConsumable b \<le> rd_numBytes (Ref r))"
    using ok by (simp add: reader_callback_ok_def Ref_def cong: option.case_cong)
  note b = recovery_inv_Done_body[OF K EI i o, of E dec mine off sz req]
  show ?thesis
  proof (cases "Done_body K E dec this mine st off sz buf req (Ref r, g)")
    case (Inl e)
    then show ?thesis by (simp add: Done_def)
  next
    case (Inr X)
    then have "recovery_inv K this X" using b by simp
    then have "recovery_inv K this (UnRef this X)" by (rule recovery_inv_UnRef)
    then show ?thesis using Inr by (simp add: Done_def)
  qed
qed

lemma recovery_inv_HandleWriteDone:
  assumes K: "0 < CHECKSUM_BLOCKSIZE K" "CHECKSUM_BLOCKSIZE K \<le> 2 ^ 30" and EI: "0 < EINVAL K"
    and inv: "recovery_inv K this (r, g)"
    and gd: "mOwner r \<noteq> None" "handler r = H_HandleWriteDone" "\<not> mReadInFlightFlag r"
    and fin: "wr_status r < 0 \<or> wr_numBytesIO r = wr_numBytes r"
  shows "recovery_inv K this (HandleWriteDone K E this (r, g))"
proof -
  let ?c = "CHECKSUM_BLOCKSIZE K"
  let ?cs = "mChunkSize r"
  let ?r1 = "(Ref r)\<lparr>mOffset := mOffset r + wr_numBytes r\<rparr>"
  from inv have s: "isRS r" "0 < mReadSize r" "BytesConsumable (mReadTail r) < ?c"
    by (simp_all add: recovery_inv_def)
  from inv gd have wr: "writing K this ?cs (r, g)" and lw: "last_write K r"
    by (auto simp: recovery_inv_def recovering_def finished_def ended_def reading_def)
  note hc = HandleWriteDone_cases[OF K(1) wr fin, of E]
  then have wo: "write_order K ?cs (writes_of this g)" and nd: "\<not> mDone r" by simp_all
  have kU: "recovery_kept (fst X) (fst (UnRef this X))" for X
    using recovery_kept_UnRef[of "fst X" this "snd X"] by simp
  consider
      (ends) "HandleWriteDone K E this (r, g) = UnRef this (Terminate E this (Ref r, g))"
    | (tail) "HandleWriteDone K E this (r, g) = UnRef this (HandleReadDone K E this (?r1, g))"
        "whole_blocks K (writes_of this g) (mOffset r + wr_numBytes r)"
        "(mOffset r + wr_numBytes r) mod ?c = 0" "mOffset r + wr_numBytes r < ?cs"
        "BytesConsumable_ptr (rd_dataBuf r) = rd_numBytes r" "0 < rd_numBytes r"
        "mOffset r + wr_numBytes r + rd_numBytes r = ?cs"
    | (reads) "HandleWriteDone K E this (r, g) = UnRef this (Read K E this (?r1, g))"
        "mOffset r + wr_numBytes r \<le> ?cs"
        "sum_list (map snd (writes_of this g)) = mOffset r + wr_numBytes r"
        "mOffset r + wr_numBytes r < ?cs \<longrightarrow>
           no_tail r \<and> whole_blocks K (writes_of this g) (mOffset r + wr_numBytes r) \<and>
           (mOffset r + wr_numBytes r) mod ?c = 0"
    using hc by blast
  then show ?thesis
  proof cases
    case ends
    let ?X = "Terminate E this (Ref r, g)"
    have "finished K this ?cs ?X"
      using wo nd by (intro finished_Terminate) (simp_all add: Ref_def)
    moreover have "recovery_kept (Ref r) (fst ?X)" by (rule recovery_kept_Terminate)
    ultimately have "recovery_inv K this ?X"
      using s gd(3) by (intro recovery_inv_kept[of "Ref r"]) (simp_all add: Ref_def)
    then show ?thesis unfolding ends by (rule recovery_inv_UnRef)
  next
    case tail
    let ?X = "HandleReadDone K E this (?r1, g)"
    have pre: "\<not> mDone ?r1" "mChunkSize ?r1 = ?cs" "mOffset ?r1 \<le> ?cs"
      "mOffset ?r1 mod ?c = 0" "whole_blocks K (writes_of this g) (mOffset ?r1)"
      "mOffset ?r1 = ?cs \<or> rd_status ?r1 < 0 \<or>
         (BytesConsumable_ptr (rd_dataBuf ?r1) \<le> rd_numBytes ?r1 \<and> 0 < rd_numBytes ?r1 \<and>
          rd_numBytes ?r1 \<le> ?cs - mOffset ?r1 \<and>
          (rd_numBytes ?r1 mod ?c = 0 \<or> mOffset ?r1 + rd_numBytes ?r1 = ?cs))"
      using nd tail(2-7) by (simp_all add: Ref_def)
    note h = phases_HandleReadDone[OF K(1) EI pre, of E]
    have end': "mOffset ?r1 + rd_numBytes ?r1 = ?cs" using tail(7) by (simp add: Ref_def)
    have k: "recovery_kept ?r1 (fst ?X)" by (rule recovery_kept_HandleReadDone)
    then have cx: "mChunkSize (fst ?X) = ?cs" by (simp add: recovery_kept_def Ref_def)
    have "finished K this ?cs ?X \<or> writing K this ?cs ?X \<and> last_write K (fst ?X)"
      using h(2)[OF end'] unfolding last_write_def cx by blast
    then have "recovery_inv K this ?X"
      using k s gd(3) by (intro recovery_inv_kept[of ?r1]) (auto simp: Ref_def)
    then show ?thesis unfolding tail(1) by (rule recovery_inv_UnRef)
  next
    case reads
    have al: "mChunkSize r mod ?c = 0" if "mOffset r + wr_numBytes r < ?cs"
    proof -
      have "no_tail r" using reads(4) that by simp
      then have "\<not> tail_kept K ?cs r"
        by (auto simp: no_tail_def tail_kept_def split: option.splits)
      then show ?thesis using lw that by (auto simp: last_write_def)
    qed
    have e: "Read K E this (?r1, g) = RSReplicatorImpl_Read K E this (?r1, g)"
      using s(1) by (simp add: Read_def Ref_def)
    have "recovery_inv K this (RSReplicatorImpl_Read K E this (?r1, g))"
    proof (rule recovery_inv_RSReplicatorImpl_Read[OF K EI])
      show "isRS ?r1" "0 < mReadSize ?r1" "BytesConsumable (mReadTail ?r1) < ?c"
        "\<not> mReadInFlightFlag ?r1" "\<not> mDone ?r1"
        using s gd(3) nd by (simp_all add: Ref_def)
      show "mOffset ?r1 \<le> mChunkSize ?r1" using reads(2) by (simp add: Ref_def)
      show "write_order K (mChunkSize ?r1) (writes_of this g)" using wo by (simp add: Ref_def)
      show "sum_list (map snd (writes_of this g)) = mOffset ?r1"
        using reads(3) by (simp add: Ref_def)
      show "mOffset ?r1 < mChunkSize ?r1 \<longrightarrow>
          whole_blocks K (writes_of this g) (mOffset ?r1) \<and>
          mOffset ?r1 mod ?c = 0 \<and> mChunkSize ?r1 mod ?c = 0"
        using reads(4) al by (simp add: Ref_def)
    qed
    then show ?thesis unfolding reads(1) e by (rule recovery_inv_UnRef)
  qed
qed

lemma recovery_inv_callback:
  assumes K: "0 < CHECKSUM_BLOCKSIZE K" "CHECKSUM_BLOCKSIZE K \<le> 2 ^ 30" and EI: "0 < EINVAL K"
    and inv: "recovery_inv K this rg" and ok: "reader_callback_ok (fst rg) (snd c)"
  shows "case recovery_callback K dec this rg c of
           Inl e \<Rightarrow> True
         | Inr X \<Rightarrow> recovery_inv K this X"
proof -
  obtain r g where rg: "rg = (r, g)" by (cases rg)
  obtain E cb where c: "c = (E, cb)" by (cases c)
  have rs: "isRS r" using inv by (simp add: rg recovery_inv_def)
  show ?thesis
  proof (cases cb)
    case (Rc_ReaderDone mine st off sz buf req)
    have "case Done K E dec this mine st off sz buf req (r, g) of
           Inl e \<Rightarrow> True | Inr X \<Rightarrow> recovery_inv K this X"
      using inv ok unfolding rg c Rc_ReaderDone by (intro recovery_inv_Done[OF K EI]) simp_all
    then show ?thesis using rs by (simp add: rg c Rc_ReaderDone recovery_callback_def)
  next
    case (Rc_WriteDone st n)
    let ?r = "r\<lparr>wr_status := st, wr_numBytesIO := n\<rparr>"
    show ?thesis
    proof (cases "mOwner r \<noteq> None \<and> handler r = H_HandleWriteDone \<and> \<not> mReadInFlightFlag r")
      case False
      then show ?thesis
        using inv by (auto simp: rg c Rc_WriteDone recovery_callback_def callback_def)
    next
      case True
      have e: "recovery_callback K dec this rg c = Inr (HandleWriteDone K E this (?r, g))"
        using True by (simp add: rg c Rc_WriteDone recovery_callback_def callback_def)
      have i: "recovery_inv K this (?r, g)"
        using inv recovery_inv_cong[of ?r r this g g K] by (simp add: rg)
      have o: "wr_status ?r < 0 \<or> wr_numBytesIO ?r = wr_numBytes ?r"
        using ok by (simp add: rg c Rc_WriteDone reader_callback_ok_def)
      have "recovery_inv K this (HandleWriteDone K E this (?r, g))"
        using True by (intro recovery_inv_HandleWriteDone[OF K EI i _ _ _ o]) simp_all
      then show ?thesis unfolding e by simp
    qed
  qed
qed

lemma recovery_inv_run_recovery:
  assumes K: "0 < CHECKSUM_BLOCKSIZE K" "CHECKSUM_BLOCKSIZE K \<le> 2 ^ 30" and EI: "0 < EINVAL K"
  shows "recovery_inv K this rg \<Longrightarrow> keeps_recovery_contract K dec this rg cbs \<Longrightarrow>
         run_recovery K dec this rg cbs = Inr X \<Longrightarrow> recovery_inv K this X"
proof (induction cbs arbitrary: rg)
  case Nil
  then show ?case by simp
next
  case (Cons c cbs)
  have ok: "reader_callback_ok (fst rg) (snd c)" using Cons.prems(2) by simp
  note s = recovery_inv_callback[OF K EI Cons.prems(1) ok, of dec]
  show ?case
  proof (cases "recovery_callback K dec this rg c")
    case (Inl e)
    then show ?thesis using Cons.prems(3) by simp
  next
    case (Inr rg')
    then have i: "recovery_inv K this rg'" using s by simp
    have k: "keeps_recovery_contract K dec this rg' cbs" using Cons.prems(2) Inr by simp
    have r: "run_recovery K dec this rg' cbs = Inr X" using Cons.prems(3) Inr by simp
    show ?thesis using i k r by (rule Cons.IH)
  qed
qed

lemma recovery_inv_Start:
  assumes K: "0 < CHECKSUM_BLOCKSIZE K" "CHECKSUM_BLOCKSIZE K \<le> 2 ^ 30" and EI: "0 < EINVAL K"
    and cs: "0 < CHUNKSIZE K" "CHUNKSIZE K mod CHECKSUM_BLOCKSIZE K = 0"
    and r: "isRS r" "mOwner r \<noteq> None" "\<not> mCancelFlag r" "mOffset r = 0" "\<not> mDone r"
      "mReadTail r = []" "0 < mReadSize r" "\<not> mReadInFlightFlag r"
    and w: "writes_of this g = []"
    and op: "0 \<le> env_Reader_Open E"
  shows "recovery_inv K this (RSReplicatorImpl_Start K E this (r, g))"
proof -
  obtain owner where own: "mOwner r = Some owner" using r(2) by auto
  let ?g1 = "emit (Instance this)
                    (Reader_Open (mFileId r) (fileSize owner) (striperType owner)
                       (stripeSize owner) (numStripes owner) (numRecoveryStripes owner)
                       (chunkOffset owner)) g"
  let ?r1 = "r\<lparr>md_chunkSize := CHUNKSIZE K, md_chunkVersion := chunkVersion owner,
               rd_status := 0, rd_numBytes := 0, md_status := env_Reader_Open E,
               mChunkSize := CHUNKSIZE K, mChunkVersion := chunkVersion owner,
               rd_chunkVersion := chunkVersion owner, wr_chunkVersion := 0\<rparr>"
  let ?g2 = "emit (Instance this) (AllocChunk (mFileId r) (mChunkId r) 0 True)
               (emit (Instance this) (StaleChunk (mChunkId r) True) ?g1)"
  have e: "RSReplicatorImpl_Start K E this (r, g) =
      (if env_AllocChunk E < 0 then Terminate E this (?r1, ?g2)
       else RSReplicatorImpl_Read K E this (?r1, ?g2))"
    using own r(1,3) op cs(1)
    by (simp add: RSReplicatorImpl_Start_def HandleStartDone_def Let_def Read_def)
  have w2: "writes_of this ?g2 = []" using w by (simp add: writes_of_emit)
  have wo: "write_order K (CHUNKSIZE K) []" using cs(1) by (simp add: write_order_def)
  show ?thesis
  proof (cases "env_AllocChunk E < 0")
    case True
    let ?X = "Terminate E this (?r1, ?g2)"
    have "finished K this (mChunkSize ?r1) ?X"
      using wo w2 r(5) by (intro finished_Terminate) simp_all
    moreover have "recovery_kept ?r1 (fst ?X)" by (rule recovery_kept_Terminate)
    ultimately have "recovery_inv K this ?X"
      using r K(1) by (intro recovery_inv_kept[of ?r1]) (simp_all add: BytesConsumable_def)
    then show ?thesis unfolding e using True by simp
  next
    case False
    have "recovery_inv K this (RSReplicatorImpl_Read K E this (?r1, ?g2))"
    proof (rule recovery_inv_RSReplicatorImpl_Read[OF K EI])
      show "isRS ?r1" "0 < mReadSize ?r1" "BytesConsumable (mReadTail ?r1) < CHECKSUM_BLOCKSIZE K"
        "\<not> mReadInFlightFlag ?r1" "\<not> mDone ?r1" "mOffset ?r1 \<le> mChunkSize ?r1"
        using r K(1) cs(1) by (simp_all add: BytesConsumable_def)
      show "write_order K (mChunkSize ?r1) (writes_of this ?g2)" using wo w2 by simp
      show "sum_list (map snd (writes_of this ?g2)) = mOffset ?r1" using w2 r(4) by simp
      show "mOffset ?r1 < mChunkSize ?r1 \<longrightarrow>
          whole_blocks K (writes_of this ?g2) (mOffset ?r1) \<and>
          mOffset ?r1 mod CHECKSUM_BLOCKSIZE K = 0 \<and>
          mChunkSize ?r1 mod CHECKSUM_BLOCKSIZE K = 0"
        using w2 r(4) cs(2) by (simp add: whole_blocks_Nil)
    qed
    then show ?thesis unfolding e using False by simp
  qed
qed

lemma recovery_inv_write_order:
  assumes "recovery_inv K this (r, g)"
  shows "write_order K (mChunkSize r) (writes_of this g)"
    and "mDone r \<longrightarrow> sum_list (map snd (writes_of this g)) = mChunkSize r"
proof -
  have "write_order K (mChunkSize r) (writes_of this g) \<and>
        (mDone r \<longrightarrow> sum_list (map snd (writes_of this g)) = mChunkSize r)"
  proof (cases "recovering K this (r, g)")
    case True
    then show ?thesis
      using write_order_whole_blocks(1)[of K "writes_of this g" "mOffset r" "mChunkSize r"]
      by (simp add: recovering_def)
  next
    case False
    then have "phases K this (mChunkSize r) (r, g)"
      using assms by (auto simp: recovery_inv_def phases_def)
    then show ?thesis using phases_write_order by blast
  qed
  then show "write_order K (mChunkSize r) (writes_of this g)"
    and "mDone r \<longrightarrow> sum_list (map snd (writes_of this g)) = mChunkSize r"
    by simp_all
qed

lemma deliver_recovery_callback:
  assumes "\<not> died s" "heap s this = Some r" "\<not> deleted r" "isRS r"
  shows "deliver K dec s (E, Ev_ReaderDone this mine st off sz buf req) =
           (case recovery_callback K dec this (r, glob s)
                   (E, Rc_ReaderDone mine st off sz buf req) of
              Inl e \<Rightarrow> s\<lparr>died := True\<rparr>
            | Inr rg \<Rightarrow> store this rg s)"
    and "deliver K dec s (E, Ev_WriteDone this st n) =
           (case recovery_callback K dec this (r, glob s) (E, Rc_WriteDone st n) of
              Inl e \<Rightarrow> s\<lparr>died := True\<rparr>
            | Inr rg \<Rightarrow> store this rg s)"
proof -
  show "deliver K dec s (E, Ev_ReaderDone this mine st off sz buf req) =
           (case recovery_callback K dec this (r, glob s)
                   (E, Rc_ReaderDone mine st off sz buf req) of
              Inl e \<Rightarrow> s\<lparr>died := True\<rparr>
            | Inr rg \<Rightarrow> store this rg s)"
    using assms by (simp add: deliver_def recovery_callback_def)
  show "deliver K dec s (E, Ev_WriteDone this st n) =
           (case recovery_callback K dec this (r, glob s) (E, Rc_WriteDone st n) of
              Inl e \<Rightarrow> s\<lparr>died := True\<rparr>
            | Inr rg \<Rightarrow> store this rg s)"
    using deliver_callback(2)[OF assms(1-3), of K dec E st n]
    by (simp add: recovery_callback_def)
qed

text \<open>
  C3 (as amended). Take any sequence of completions of the reads and writes of one
  replicator in which every read that succeeds brings no more bytes than were asked for
  and every write that succeeds reports all its bytes written: for a replication from a
  peer, from the metadata reply on, with the chunk size \<open>cs \<ge> 0\<close> of that reply; for a
  recovery, from \<open>Start\<close> on with the reader open, with \<open>cs\<close> the chunk size the
  recovery has arrived at (the whole chunk, or where the reader's data ended). Then, at
  every point of the sequence, the offsets of the writes submitted are non-decreasing;
  every write but the last has a byte count that is a multiple of the checksum block
  size; a write whose byte count is not such a multiple ends at \<open>cs\<close>; the byte counts
  sum to at most \<open>cs\<close>, and to exactly \<open>cs\<close> once the replicator has set \<open>done\<close>.
  Moreover \<open>HandleReadDone\<close> moves a remainder back into the read buffer only when the
  read is longer than a checksum block, is not a whole number of blocks and ends at the
  chunk size.
\<close>

theorem replication_writes:
  assumes K: "0 < CHECKSUM_BLOCKSIZE K" "CHECKSUM_BLOCKSIZE K \<le> 2 ^ 30" "0 < EINVAL K"
  shows
   "(\<not> isRS r0 \<and> mOffset r0 = 0 \<and> \<not> mDone r0 \<and> 0 \<le> md_chunkSize r0 \<and>
     writes_of this g0 = [] \<and>
     keeps_contract K this (HandleStartDone K E0 this (r0, g0)) cbs \<longrightarrow>
       (let rg = run_callbacks K this (HandleStartDone K E0 this (r0, g0)) cbs;
            W = writes_of this (snd rg);
            cs = md_chunkSize r0
        in sorted (map fst W) \<and>
           (\<forall>w \<in> set (butlast W). snd w mod CHECKSUM_BLOCKSIZE K = 0) \<and>
           (\<forall>w \<in> set W. snd w mod CHECKSUM_BLOCKSIZE K \<noteq> 0 \<longrightarrow> fst w + snd w = cs) \<and>
           sum_list (map snd W) \<le> cs \<and>
           (mDone (fst rg) \<longrightarrow> sum_list (map snd W) = cs))) \<and>
    (isRS r1 \<and> mOwner r1 \<noteq> None \<and> \<not> mCancelFlag r1 \<and> mOffset r1 = 0 \<and> \<not> mDone r1 \<and>
     mReadTail r1 = [] \<and> 0 < mReadSize r1 \<and> \<not> mReadInFlightFlag r1 \<and>
     writes_of this g1 = [] \<and> 0 \<le> env_Reader_Open E1 \<and>
     0 < CHUNKSIZE K \<and> CHUNKSIZE K mod CHECKSUM_BLOCKSIZE K = 0 \<and>
     keeps_recovery_contract K dec this (RSReplicatorImpl_Start K E1 this (r1, g1)) rcs \<and>
     run_recovery K dec this (RSReplicatorImpl_Start K E1 this (r1, g1)) rcs = Inr rg1 \<longrightarrow>
       (let W = writes_of this (snd rg1);
            cs = mChunkSize (fst rg1)
        in sorted (map fst W) \<and>
           (\<forall>w \<in> set (butlast W). snd w mod CHECKSUM_BLOCKSIZE K = 0) \<and>
           (\<forall>w \<in> set W. snd w mod CHECKSUM_BLOCKSIZE K \<noteq> 0 \<longrightarrow> fst w + snd w = cs) \<and>
           sum_list (map snd W) \<le> cs \<and>
           (mDone (fst rg1) \<longrightarrow> sum_list (map snd W) = cs))) \<and>
    (\<forall>r2. \<not> no_tail (HandleReadDone_swap K r2) \<longrightarrow>
       mOffset r2 + BytesConsumable_ptr (rd_dataBuf r2) = mChunkSize r2 \<and>
       BytesConsumable_ptr (rd_dataBuf r2) > CHECKSUM_BLOCKSIZE K \<and>
       BytesConsumable_ptr (rd_dataBuf r2) mod CHECKSUM_BLOCKSIZE K > 0)"
proof (intro conjI impI)
  assume h: "\<not> isRS r0 \<and> mOffset r0 = 0 \<and> \<not> mDone r0 \<and> 0 \<le> md_chunkSize r0 \<and>
     writes_of this g0 = [] \<and>
     keeps_contract K this (HandleStartDone K E0 this (r0, g0)) cbs"
  let ?rg = "run_callbacks K this (HandleStartDone K E0 this (r0, g0)) cbs"
  let ?W = "writes_of this (snd ?rg)"
  have "transfer_inv K this (md_chunkSize r0) (HandleStartDone K E0 this (r0, g0))"
    using K(1,2) h by (intro transfer_inv_HandleStartDone) simp_all
  then have "transfer_inv K this (md_chunkSize r0) ?rg"
    using h by (intro transfer_inv_run_callbacks[OF K]) simp_all
  then have i: "phases K this (md_chunkSize r0) (fst ?rg, snd ?rg)"
    by (simp add: transfer_inv_def)
  note w = phases_write_order[OF i]
  have a: "sorted (map fst ?W)"
    "\<forall>w \<in> set (butlast ?W). snd w mod CHECKSUM_BLOCKSIZE K = 0"
    "\<forall>w \<in> set ?W. snd w mod CHECKSUM_BLOCKSIZE K \<noteq> 0 \<longrightarrow> fst w + snd w = md_chunkSize r0"
    "sum_list (map snd ?W) \<le> md_chunkSize r0"
    using w(1) by (auto simp: write_order_def list_all_iff)
  show "let rg = ?rg; W = writes_of this (snd rg); cs = md_chunkSize r0
        in sorted (map fst W) \<and>
           (\<forall>w \<in> set (butlast W). snd w mod CHECKSUM_BLOCKSIZE K = 0) \<and>
           (\<forall>w \<in> set W. snd w mod CHECKSUM_BLOCKSIZE K \<noteq> 0 \<longrightarrow> fst w + snd w = cs) \<and>
           sum_list (map snd W) \<le> cs \<and>
           (mDone (fst rg) \<longrightarrow> sum_list (map snd W) = cs)"
    unfolding Let_def using a w(2) by blast
next
  assume h: "isRS r1 \<and> mOwner r1 \<noteq> None \<and> \<not> mCancelFlag r1 \<and> mOffset r1 = 0 \<and> \<not> mDone r1 \<and>
     mReadTail r1 = [] \<and> 0 < mReadSize r1 \<and> \<not> mReadInFlightFlag r1 \<and>
     writes_of this g1 = [] \<and> 0 \<le> env_Reader_Open E1 \<and>
     0 < CHUNKSIZE K \<and> CHUNKSIZE K mod CHECKSUM_BLOCKSIZE K = 0 \<and>
     keeps_recovery_contract K dec this (RSReplicatorImpl_Start K E1 this (r1, g1)) rcs \<and>
     run_recovery K dec this (RSReplicatorImpl_Start K E1 this (r1, g1)) rcs = Inr rg1"
  let ?W = "writes_of this (snd rg1)"
  have "recovery_inv K this (RSReplicatorImpl_Start K E1 this (r1, g1))"
    using h by (intro recovery_inv_Start[OF K(1,2,3)]) simp_all
  then have "recovery_inv K this rg1"
    using h recovery_inv_run_recovery[OF K] by blast
  then have i: "recovery_inv K this (fst rg1, snd rg1)" by simp
  note w = recovery_inv_write_order[OF i]
  have a: "sorted (map fst ?W)"
    "\<forall>w \<in> set (butlast ?W). snd w mod CHECKSUM_BLOCKSIZE K = 0"
    "\<forall>w \<in> set ?W. snd w mod CHECKSUM_BLOCKSIZE K \<noteq> 0 \<longrightarrow> fst w + snd w = mChunkSize (fst rg1)"
    "sum_list (map snd ?W) \<le> mChunkSize (fst rg1)"
    using w(1) by (auto simp: write_order_def list_all_iff)
  show "let W = writes_of this (snd rg1); cs = mChunkSize (fst rg1)
        in sorted (map fst W) \<and>
           (\<forall>w \<in> set (butlast W). snd w mod CHECKSUM_BLOCKSIZE K = 0) \<and>
           (\<forall>w \<in> set W. snd w mod CHECKSUM_BLOCKSIZE K \<noteq> 0 \<longrightarrow> fst w + snd w = cs) \<and>
           sum_list (map snd W) \<le> cs \<and>
           (mDone (fst rg1) \<longrightarrow> sum_list (map snd W) = cs)"
    unfolding Let_def using a w(2) by blast
next
  show "\<forall>r2. \<not> no_tail (HandleReadDone_swap K r2) \<longrightarrow>
       mOffset r2 + BytesConsumable_ptr (rd_dataBuf r2) = mChunkSize r2 \<and>
       BytesConsumable_ptr (rd_dataBuf r2) > CHECKSUM_BLOCKSIZE K \<and>
       BytesConsumable_ptr (rd_dataBuf r2) mod CHECKSUM_BLOCKSIZE K > 0"
    using HandleReadDone_swap_tail_only_at_end[OF K(1)] by blast
qed

theorem replication_writes_witness:
  "writes_of 1 (snd (run_callbacks (example_constants\<lparr>CHECKSUM_BLOCKSIZE := 4\<rparr>) 1
     (HandleStartDone (example_constants\<lparr>CHECKSUM_BLOCKSIZE := 4\<rparr>) example_environment 1
        ((Ref (ReplicatorImpl_new example_environment example_replication_op True))
           \<lparr>md_chunkSize := 10\<rparr>, initial_globals))
     [(example_environment, Cb_ReadDone 0 (Some [1, 2, 3, 4, 5, 6, 7, 8, 9, 10])),
      (example_environment, Cb_WriteDone 0 8),
      (example_environment, Cb_WriteDone 0 2)])) = [(0, 8), (8, 2)] \<and>
   sum_list (map snd (writes_of 1 (snd (run_callbacks
     (example_constants\<lparr>CHECKSUM_BLOCKSIZE := 4\<rparr>) 1
     (HandleStartDone (example_constants\<lparr>CHECKSUM_BLOCKSIZE := 4\<rparr>) example_environment 1
        ((Ref (ReplicatorImpl_new example_environment example_replication_op True))
           \<lparr>md_chunkSize := 10\<rparr>, initial_globals))
     [(example_environment, Cb_ReadDone 0 (Some [1, 2, 3, 4, 5, 6, 7, 8, 9, 10])),
      (example_environment, Cb_WriteDone 0 8),
      (example_environment, Cb_WriteDone 0 2)])))) = 10 \<and>
   map_sum id (\<lambda>rg. (writes_of 1 (snd rg), mChunkSize (fst rg), mDone (fst rg)))
     (run_recovery (example_constants\<lparr>CHECKSUM_BLOCKSIZE := 4, CHUNKSIZE := 16\<rparr>) le_sint 1
       (RSReplicatorImpl_Start (example_constants\<lparr>CHECKSUM_BLOCKSIZE := 4, CHUNKSIZE := 16\<rparr>)
          example_environment 1
          ((Ref (RSReplicatorImpl_new example_constants example_environment
                   example_recovery_op))\<lparr>mReadSize := 8\<rparr>, initial_globals))
       [(example_environment, Rc_ReaderDone True 0 0 8 (Some [1, 2, 3, 4, 5, 6, 7, 8]) True),
        (example_environment, Rc_WriteDone 0 8),
        (example_environment, Rc_ReaderDone True 0 8 6 (Some [9, 10, 11, 12, 13, 14]) True),
        (example_environment, Rc_WriteDone 0 4),
        (example_environment, Rc_WriteDone 0 2)]) =
     Inr ([(0, 8), (8, 4), (12, 2)], 14, True) \<and>
   sum_list (map snd [(0::int, 8::int), (8, 4), (12, 2)]) = 14"
proof -
  let ?K = "example_constants\<lparr>CHECKSUM_BLOCKSIZE := 4\<rparr>"
  let ?r0 = "(Ref (ReplicatorImpl_new example_environment example_replication_op True))
           \<lparr>md_chunkSize := 10\<rparr>"
  let ?cbs = "[(example_environment, Cb_ReadDone 0 (Some [1, 2, 3, 4, 5, 6, 7, 8, 9, 10])),
      (example_environment, Cb_WriteDone 0 8),
      (example_environment, Cb_WriteDone 0 2)]"
  let ?rg = "run_callbacks ?K 1 (HandleStartDone ?K example_environment 1 (?r0, initial_globals))
               ?cbs"
  let ?K2 = "example_constants\<lparr>CHECKSUM_BLOCKSIZE := 4, CHUNKSIZE := 16\<rparr>"
  let ?r1 = "(Ref (RSReplicatorImpl_new example_constants example_environment
                   example_recovery_op))\<lparr>mReadSize := 8\<rparr>"
  let ?rcs = "[(example_environment, Rc_ReaderDone True 0 0 8 (Some [1, 2, 3, 4, 5, 6, 7, 8]) True),
        (example_environment, Rc_WriteDone 0 8),
        (example_environment, Rc_ReaderDone True 0 8 6 (Some [9, 10, 11, 12, 13, 14]) True),
        (example_environment, Rc_WriteDone 0 4),
        (example_environment, Rc_WriteDone 0 2)]"
  let ?start = "RSReplicatorImpl_Start ?K2 example_environment 1 (?r1, initial_globals)"
  have K: "0 < CHECKSUM_BLOCKSIZE ?K" "CHECKSUM_BLOCKSIZE ?K \<le> 2 ^ 30" "0 < EINVAL ?K"
    by (simp_all add: example_constants_def)
  have h: "\<not> isRS ?r0 \<and> mOffset ?r0 = 0 \<and> \<not> mDone ?r0 \<and> 0 \<le> md_chunkSize ?r0 \<and>
     writes_of 1 initial_globals = [] \<and>
     keeps_contract ?K 1 (HandleStartDone ?K example_environment 1 (?r0, initial_globals)) ?cbs"
    by code_simp
  have d: "mDone (fst ?rg)" by code_simp
  have w: "writes_of 1 (snd ?rg) = [(0, 8), (8, 2)]" by code_simp
  have cs: "md_chunkSize ?r0 = 10" by simp
  from replication_writes[OF K, where this = 1 and ?r0.0 = ?r0 and ?g0.0 = initial_globals
      and ?E0.0 = example_environment and cbs = ?cbs, THEN conjunct1] h d
  have "sum_list (map snd (writes_of 1 (snd ?rg))) = md_chunkSize ?r0"
    unfolding Let_def by blast
  then have p1: "sum_list (map snd (writes_of 1 (snd ?rg))) = 10" using cs by simp
  have K2: "0 < CHECKSUM_BLOCKSIZE ?K2" "CHECKSUM_BLOCKSIZE ?K2 \<le> 2 ^ 30" "0 < EINVAL ?K2"
    by (simp_all add: example_constants_def)
  obtain rg1 where run: "run_recovery ?K2 le_sint 1 ?start ?rcs = Inr rg1"
    and o: "writes_of 1 (snd rg1) = [(0, 8), (8, 4), (12, 2)]" "mChunkSize (fst rg1) = 14"
      "mDone (fst rg1)"
  proof -
    have "map_sum id (\<lambda>rg. (writes_of 1 (snd rg), mChunkSize (fst rg), mDone (fst rg)))
        (run_recovery ?K2 le_sint 1 ?start ?rcs) = Inr ([(0, 8), (8, 4), (12, 2)], 14, True)"
      by code_simp
    then show ?thesis using that by (cases "run_recovery ?K2 le_sint 1 ?start ?rcs") auto
  qed
  have h2: "isRS ?r1 \<and> mOwner ?r1 \<noteq> None \<and> \<not> mCancelFlag ?r1 \<and> mOffset ?r1 = 0 \<and>
     \<not> mDone ?r1 \<and> mReadTail ?r1 = [] \<and> 0 < mReadSize ?r1 \<and> \<not> mReadInFlightFlag ?r1 \<and>
     writes_of 1 initial_globals = [] \<and> 0 \<le> env_Reader_Open example_environment \<and>
     0 < CHUNKSIZE ?K2 \<and> CHUNKSIZE ?K2 mod CHECKSUM_BLOCKSIZE ?K2 = 0 \<and>
     keeps_recovery_contract ?K2 le_sint 1 ?start ?rcs"
    by code_simp
  from replication_writes[OF K2, where this = 1 and ?r1.0 = ?r1 and ?g1.0 = initial_globals
      and ?E1.0 = example_environment and dec = le_sint and rcs = ?rcs and ?rg1.0 = rg1,
      THEN conjunct2, THEN conjunct1] h2 run o(3)
  have "sum_list (map snd (writes_of 1 (snd rg1))) = mChunkSize (fst rg1)"
    unfolding Let_def by blast
  then have p2: "sum_list (map snd [(0::int, 8::int), (8, 4), (12, 2)]) = 14"
    unfolding o(1,2) .
  have r: "map_sum id (\<lambda>rg. (writes_of 1 (snd rg), mChunkSize (fst rg), mDone (fst rg)))
        (run_recovery ?K2 le_sint 1 ?start ?rcs) = Inr ([(0, 8), (8, 4), (12, 2)], 14, True)"
    using run o by simp
  show ?thesis using w p1 r p2 by blast
qed

text \<open>
  C3 as stated, for every sequence of completions, fails. A peer that answers a read
  of the 100 bytes of a chunk with 200 bytes has all 200 written, and the replication
  then fails: more than the chunk size is written on failure. With a checksum block of
  4 bytes and a chunk of 8, a write of 8 bytes that completes without error but reports
  4 bytes written is followed by a read and a write of 4 bytes at offset 4, and the
  replication succeeds: 12 bytes are written for a chunk of 8.
\<close>

theorem writes_exceed_chunk_size:
  "writes_of 1 (snd (run_callbacks example_constants 1
     (HandleStartDone example_constants example_environment 1
        ((Ref (ReplicatorImpl_new example_environment example_replication_op True))
           \<lparr>md_chunkSize := 100\<rparr>, initial_globals))
     [(example_environment, Cb_ReadDone 0 (Some (replicate 200 0))),
      (example_environment, Cb_WriteDone 0 200)])) = [(0, 200)] \<and>
   \<not> mDone (fst (run_callbacks example_constants 1
     (HandleStartDone example_constants example_environment 1
        ((Ref (ReplicatorImpl_new example_environment example_replication_op True))
           \<lparr>md_chunkSize := 100\<rparr>, initial_globals))
     [(example_environment, Cb_ReadDone 0 (Some (replicate 200 0))),
      (example_environment, Cb_WriteDone 0 200)])) \<and>
   mChunkSize (fst (run_callbacks example_constants 1
     (HandleStartDone example_constants example_environment 1
        ((Ref (ReplicatorImpl_new example_environment example_replication_op True))
           \<lparr>md_chunkSize := 100\<rparr>, initial_globals))
     [(example_environment, Cb_ReadDone 0 (Some (replicate 200 0))),
      (example_environment, Cb_WriteDone 0 200)])) = 100 \<and>
   filter is_SubmitOpResponse (calls_of (Instance 1) (trace (snd (run_callbacks
     example_constants 1
     (HandleStartDone example_constants example_environment 1
        ((Ref (ReplicatorImpl_new example_environment example_replication_op True))
           \<lparr>md_chunkSize := 100\<rparr>, initial_globals))
     [(example_environment, Cb_ReadDone 0 (Some (replicate 200 0))),
      (example_environment, Cb_WriteDone 0 200)])))) =
     [SubmitOpResponse (example_replication_op\<lparr>chunkVersion := - 1, status := - 1\<rparr>)] \<and>
   writes_of 1 (snd (run_callbacks (example_constants\<lparr>CHECKSUM_BLOCKSIZE := 4\<rparr>) 1
     (HandleStartDone (example_constants\<lparr>CHECKSUM_BLOCKSIZE := 4\<rparr>) example_environment 1
        ((Ref (ReplicatorImpl_new example_environment example_replication_op True))
           \<lparr>md_chunkSize := 8\<rparr>, initial_globals))
     [(example_environment, Cb_ReadDone 0 (Some (replicate 8 0))),
      (example_environment, Cb_WriteDone 0 4),
      (example_environment, Cb_ReadDone 0 (Some (replicate 4 0))),
      (example_environment, Cb_WriteDone 0 4)])) = [(0, 8), (4, 4)] \<and>
   mDone (fst (run_callbacks (example_constants\<lparr>CHECKSUM_BLOCKSIZE := 4\<rparr>) 1
     (HandleStartDone (example_constants\<lparr>CHECKSUM_BLOCKSIZE := 4\<rparr>) example_environment 1
        ((Ref (ReplicatorImpl_new example_environment example_replication_op True))
           \<lparr>md_chunkSize := 8\<rparr>, initial_globals))
     [(example_environment, Cb_ReadDone 0 (Some (replicate 8 0))),
      (example_environment, Cb_WriteDone 0 4),
      (example_environment, Cb_ReadDone 0 (Some (replicate 4 0))),
      (example_environment, Cb_WriteDone 0 4)])) \<and>
   filter is_ChangeChunkVers (calls_of (Instance 1) (trace (snd (run_callbacks
     (example_constants\<lparr>CHECKSUM_BLOCKSIZE := 4\<rparr>) 1
     (HandleStartDone (example_constants\<lparr>CHECKSUM_BLOCKSIZE := 4\<rparr>) example_environment 1
        ((Ref (ReplicatorImpl_new example_environment example_replication_op True))
           \<lparr>md_chunkSize := 8\<rparr>, initial_globals))
     [(example_environment, Cb_ReadDone 0 (Some (replicate 8 0))),
      (example_environment, Cb_WriteDone 0 4),
      (example_environment, Cb_ReadDone 0 (Some (replicate 4 0))),
      (example_environment, Cb_WriteDone 0 4)])))) = [ChangeChunkVers 2 0 True]"
  by code_simp

section \<open>A replicator that waits for buffers\<close>

lemma calls_of_append [simp]: "calls_of c (a @ b) = calls_of c a @ calls_of c b"
  by (simp add: calls_of_def)

lemma io_of_emit [simp]:
  "io_of this (emit c e g) = io_of this g @ (if c = Instance this \<and> is_io e then [e] else [])"
  by (simp add: io_of_def calls_of_def)

lemma frame_io_of_other:
  assumes "frame a (r, g) rg'" "a \<noteq> this"
  shows "io_of this (snd rg') = io_of this g"
  using frame_calls_of_other[OF assms] by (simp add: io_of_def)

lemma io_of_since:
  assumes f: "frame a (r, g) rg'" and n: "filter is_io (calls_since g (snd rg')) = []"
  shows "io_of this (snd rg') = io_of this g"
proof -
  let ?new = "drop (length (trace g)) (trace (snd rg'))"
  have e: "trace (snd rg') = trace g @ ?new" using f by (rule frame_ext)
  have "\<forall>x \<in> set ?new. \<not> is_io (snd x)"
    using n by (auto simp: calls_since_def filter_empty_conv)
  then have "filter is_io (calls_of (Instance this) ?new) = []"
    by (auto simp: calls_of_def filter_empty_conv)
  then show ?thesis unfolding io_of_def by (subst e) simp
qed

lemma Cancel_queued:
  assumes q: "queued r"
  shows "deleted (fst (Cancel K E this (r, g)))"
    and "filter is_io (calls_since g (snd (Cancel K E this (r, g)))) = []"
proof -
  obtain owner where o: "mOwner r = Some owner" using q by (auto simp: queued_def)
  let ?r1 = "r\<lparr>mCancelFlag := True, waiting := False\<rparr>"
  have p: "ReplicatorImpl_Cancel E this (r', g') =
      HandleReplicationDone this (Some (- 1))
        (r'\<lparr>mCancelFlag := True, waiting := False\<rparr>, emit (Instance this) CancelRequest g')"
    if "waiting r'" for r' g'
    using that by (simp add: ReplicatorImpl_Cancel_def Let_def Terminate_failed)
  show "deleted (fst (Cancel K E this (r, g)))"
  proof (cases "isRS r")
    case False
    then show ?thesis
      using q o by (simp add: Cancel_def p queued_def HandleReplicationDone_fst)
  next
    case True
    let ?g1 = "emit (Instance this) Reader_Shutdown (emit (Instance this) Reader_Unregister g)"
    have w: "waiting (Ref r)" using q by (simp add: queued_def)
    obtain r2 g2 where c: "ReplicatorImpl_Cancel E this (Ref r, ?g1) = (r2, g2)"
      by (cases "ReplicatorImpl_Cancel E this (Ref r, ?g1)")
    have o1: "mOwner ((Ref r)\<lparr>mCancelFlag := True, waiting := False\<rparr>) = Some owner"
      using o by simp
    have "r2 = fst (ReplicatorImpl_Cancel E this (Ref r, ?g1))" using c by simp
    then have r2: "refCount r2 = 1" "\<not> mReadInFlightFlag r2"
      using q unfolding p[OF w]
      by (simp_all add: HandleReplicationDone_fst[OF o1] queued_def)
    show ?thesis
      using True q
      by (simp add: Cancel_def RSReplicatorImpl_Cancel_def Let_def c r2 queued_def UnRef_fst)
  qed
  show "filter is_io (calls_since g (snd (Cancel K E this (r, g)))) = []"
  proof (cases "isRS r")
    case False
    have t: "trace (emit (Instance this) CancelRequest g) = trace g @ [(Instance this, CancelRequest)]"
      by simp
    have "filter is_io (calls_since g (snd (HandleReplicationDone this (Some (- 1))
        (?r1, emit (Instance this) CancelRequest g)))) = []"
      unfolding calls_since_after[OF frame_HandleReplicationDone t]
      using o by (simp add: HandleReplicationDone_calls[where owner = owner])
    then show ?thesis
      using False q by (simp add: Cancel_def p queued_def)
  next
    case True
    let ?g1 = "emit (Instance this) Reader_Shutdown (emit (Instance this) Reader_Unregister g)"
    let ?g2 = "emit (Instance this) CancelRequest ?g1"
    let ?r1 = "(Ref r)\<lparr>mCancelFlag := True, waiting := False\<rparr>"
    have w: "waiting (Ref r)" using q by (simp add: queued_def)
    have o1: "mOwner ?r1 = Some owner" using o by simp
    obtain r2 g2 where c: "HandleReplicationDone this (Some (- 1)) (?r1, ?g2) = (r2, g2)"
      by (cases "HandleReplicationDone this (Some (- 1)) (?r1, ?g2)")
    have r2: "\<not> mReadInFlightFlag r2"
      using c q HandleReplicationDone_fst[OF o1, of this "Some (- 1)" ?g2]
      by (simp add: queued_def)
    have t: "trace ?g2 = trace g @ [(Instance this, Reader_Unregister),
        (Instance this, Reader_Shutdown), (Instance this, CancelRequest)]"
      by simp
    have g2: "g2 = snd (HandleReplicationDone this (Some (- 1)) (?r1, ?g2))" using c by simp
    have c2: "filter is_io (calls_since g g2) = []"
      unfolding g2 calls_since_after[OF frame_HandleReplicationDone t]
      by (simp add: HandleReplicationDone_calls[OF o1])
    have f: "frame this (r, g) (r2, g2)"
    proof -
      have a: "frame this (r, g) (?r1, ?g2)"
        by (intro frame_trans[OF frame_update frame_trans[OF frame_emit
                  frame_trans[OF frame_emit frame_emit]]]) (simp_all add: owned_def)
      show ?thesis
        using frame_then[OF a, of "HandleReplicationDone this (Some (- 1))",
            OF frame_HandleReplicationDone] c by simp
    qed
    have e: "Cancel K E this (r, g) = UnRef this (r2, g2)"
      using True r2 c by (simp add: Cancel_def RSReplicatorImpl_Cancel_def Let_def p[OF w])
    have t2: "trace (snd (UnRef this (r2, g2))) = trace g @
        drop (length (trace g)) (trace g2) @ UnRef_calls this r2"
      using frame_ext[OF f] by (simp add: UnRef_trace)
    show ?thesis
      unfolding e using c2 calls_since_append[OF t2] by (simp add: calls_since_def)
  qed
qed

lemma Done_queued:
  assumes q: "queued r" and d: "Done K E dec this mine st off sz buf req (r, g) = Inr X"
  shows "queued (fst X)" and "snd X = g"
proof -
  have u: "UnRef this (Ref r', g) = (r', g)" if "refCount r' = 1" "\<not> deleted r'" for r'
    using that by (simp add: UnRef_def Ref_def Let_def)
  have "queued (fst X) \<and> snd X = g"
  proof (cases "Done_invalid (Ref r) mine off sz buf req")
    case True
    then show ?thesis using d by (simp add: Done_def Done_body_def)
  next
    case False
    let ?r' = "if rd_status r \<ge> 0 \<and> st < 0 then r\<lparr>rd_status := st\<rparr> else r"
    have b: "Done_body K E dec this mine st off sz buf req (Ref r, g) = Inr (Ref ?r', g)"
      using False q by (simp add: Done_body_def queued_def Ref_def)
    have "X = UnRef this (Ref ?r', g)" using d b by (simp add: Done_def)
    then have "X = (?r', g)" using u[of ?r'] q by (simp add: queued_def)
    then show ?thesis using q by (simp add: queued_def)
  qed
  then show "queued (fst X)" and "snd X = g" by simp_all
qed

lemma dormant_simps [simp]:
  "dormant this (s\<lparr>glob := g\<rparr>) = dormant this s"
  "dormant this (s\<lparr>died := b\<rparr>) = dormant this s"
  "dormant this (s\<lparr>nextId := n\<rparr>) = dormant this s"
  by (simp_all add: dormant_def)

lemma io_of_simps [simp]:
  "io_of this (g\<lparr>sInFlightReplications := x\<rparr>) = io_of this g"
  "io_of this (g\<lparr>sReplicationCount := y\<rparr>) = io_of this g"
  "io_of this (g\<lparr>mReplicatorCount := y\<rparr>) = io_of this g"
  "io_of this (g\<lparr>mReplicationCount := y\<rparr>) = io_of this g"
  "io_of this (g\<lparr>mRecoveryCount := y\<rparr>) = io_of this g"
  "io_of this (g\<lparr>mReplicationErrorCount := y\<rparr>) = io_of this g"
  "io_of this (g\<lparr>mRecoveryErrorCount := y\<rparr>) = io_of this g"
  by (simp_all add: io_of_def)

lemma on_instance_other:
  assumes f: "\<And>r g. frame a (r, g) (f (r, g))" and ne: "a \<noteq> this"
  shows "dormant this (on_instance a guard f s) = dormant this s"
    and "io_of this (glob (on_instance a guard f s)) = io_of this (glob s)"
proof -
  show "dormant this (on_instance a guard f s) = dormant this s"
    using ne by (cases "heap s a") (simp_all add: on_instance_def split_def store_def dormant_def)
  show "io_of this (glob (on_instance a guard f s)) = io_of this (glob s)"
  proof (cases "heap s a")
    case None
    then show ?thesis by (simp add: on_instance_def)
  next
    case (Some r)
    show ?thesis
      using Some frame_io_of_other[OF f ne, of r "glob s"] by (simp add: on_instance_def)
  qed
qed

lemma on_instance_guard_dormant:
  assumes "dormant this s" "\<And>r. queued r \<Longrightarrow> \<not> guard r"
  shows "on_instance this guard f s = s"
  using assms by (cases "heap s this") (auto simp: on_instance_def dormant_def)

lemma on_instance_Cancel_dormant:
  assumes d: "dormant this s"
  shows "dormant this (on_instance a (\<lambda>r. True) (Cancel K E a) s) \<and>
         io_of this (glob (on_instance a (\<lambda>r. True) (Cancel K E a) s)) = io_of this (glob s)"
proof (cases "a = this")
  case False
  then show ?thesis using on_instance_other[OF frame_Cancel False] d by simp
next
  case True
  show ?thesis
  proof (cases "heap s this")
    case None
    then show ?thesis using True d by (simp add: on_instance_def)
  next
    case (Some r)
    then have q: "queued r" using d by (simp add: dormant_def)
    have "io_of this (snd (Cancel K E this (r, glob s))) = io_of this (glob s)"
      using frame_Cancel Cancel_queued(2)[OF q] by (rule io_of_since)
    then show ?thesis
      using True Some Cancel_queued(1)[OF q, of K E this "glob s"]
      by (simp add: on_instance_def dormant_def store_def split_def)
  qed
qed

lemma Run_cancel_other_dormant:
  assumes d: "dormant this s" and ne: "this' \<noteq> this"
  shows "dormant this (snd (Run_cancel_other K E this' me s)) \<and>
         io_of this (glob (snd (Run_cancel_other K E this' me s))) = io_of this (glob s)"
proof -
  let ?other = "the (registry_find (sInFlightReplications (glob s)) (mChunkId me))"
  show ?thesis
  proof (cases "?other = this'")
    case True
    then show ?thesis
      using d frame_io_of_other[OF frame_Cancel[of this' me "glob s" K E] ne]
      by (simp add: Run_cancel_other_def split_def Let_def)
  next
    case False
    show ?thesis
    proof (cases "heap s ?other")
      case None
      then show ?thesis using False d by (simp add: Run_cancel_other_def Let_def)
    next
      case (Some otherObj)
      have "Run_cancel_other K E this' me s =
          (me, on_instance ?other (\<lambda>r. True) (Cancel K E ?other) s)"
        using False Some by (simp add: Run_cancel_other_def Let_def on_instance_def)
      then show ?thesis using on_instance_Cancel_dormant[OF d] by simp
    qed
  qed
qed

lemma Run_register_dormant:
  assumes d: "dormant this s" and ne: "this' \<noteq> this"
  shows "dormant this (snd (fst (Run_register K E this' me s))) \<and>
         io_of this (glob (snd (fst (Run_register K E this' me s)))) = io_of this (glob s)"
proof (cases "registry_find (sInFlightReplications (glob s)) (mChunkId me)")
  case None
  show ?thesis unfolding Run_register_fresh[OF None] using d by simp
next
  case (Some other)
  obtain me1 s1 where c: "Run_cancel_other K E this' me s = (me1, s1)"
    by (cases "Run_cancel_other K E this' me s")
  have d1: "dormant this s1" and i1: "io_of this (glob s1) = io_of this (glob s)"
    using Run_cancel_other_dormant[OF d ne, of K E me] c by simp_all
  define g2 where "g2 = (glob s1)\<lparr>sInFlightReplications :=
       registry_reinsert (sInFlightReplications (glob s1)) (mChunkId me1) this'\<rparr>"
  have i2: "io_of this g2 = io_of this (glob s)" using i1 by (simp add: g2_def)
  have t: "io_of this (snd (Terminate E this' (me1\<lparr>mCancelFlag := False\<rparr>, g2))) = io_of this g2"
    using frame_Terminate ne by (rule frame_io_of_other)
  show ?thesis
    unfolding Run_register_collision[OF Some] c
    using d1 i2 t by (simp add: Let_def split_def g2_def)
qed

lemma Run_dormant:
  assumes d: "dormant this s" and ne: "this' \<noteq> this"
  shows "dormant this (Run K E this' s) \<and> io_of this (glob (Run K E this' s)) = io_of this (glob s)"
proof (cases "heap s this'")
  case None
  then show ?thesis using d by (simp add: Run_def)
next
  case (Some me)
  obtain me1 s1 ret where r: "Run_register K E this' me s = ((me1, s1), ret)"
    by (metis prod.collapse)
  have d1: "dormant this s1" and i1: "io_of this (glob s1) = io_of this (glob s)"
    using Run_register_dormant[OF d ne, of K E me] r by simp_all
  have b: "io_of this (snd (Run_buffers K E this' (me1, glob s1))) = io_of this (glob s1)"
    using frame_Run_buffers ne by (rule frame_io_of_other)
  have h: "dormant this (store this' X s1) = dormant this s1" for X
    using ne by (cases X) (simp add: dormant_def)
  show ?thesis
    using Some r d1 i1 b by (simp add: Run_def h)
qed

lemma Run_cancel_other_nextId [simp]:
  "nextId (snd (Run_cancel_other K E this me s)) = nextId s"
  by (simp add: Run_cancel_other_def Let_def split_def split: option.splits)

lemma Run_register_nextId [simp]:
  "nextId (snd (fst (Run_register K E this me s))) = nextId s"
proof -
  obtain me1 s1 where c: "Run_cancel_other K E this me s = (me1, s1)"
    by (cases "Run_cancel_other K E this me s")
  have "nextId s1 = nextId s" using Run_cancel_other_nextId[of K E this me s] c by simp
  then show ?thesis
    by (simp add: Run_register_def Let_def split_def c)
qed

lemma Run_nextId [simp]: "nextId (Run K E this s) = nextId s"
proof (cases "heap s this")
  case None
  then show ?thesis by (simp add: Run_def)
next
  case (Some me)
  obtain me1 s1 ret where r: "Run_register K E this me s = ((me1, s1), ret)"
    by (metis prod.collapse)
  have "nextId s1 = nextId s" using Run_register_nextId[of K E this me s] r by simp
  then show ?thesis using Some r by (simp add: Run_def)
qed

lemma Replicator_Run_nextId: "nextId s \<le> nextId (Replicator_Run K E op s)"
  by (simp add: Replicator_Run_def Let_def)

lemma Replicator_Run_dormant:
  assumes d: "dormant this s" and lt: "this < nextId s"
  shows "dormant this (Replicator_Run K E op s) \<and>
         io_of this (glob (Replicator_Run K E op s)) = io_of this (glob s)"
proof -
  have ne: "nextId s \<noteq> this" using lt by simp
  have r: "dormant this (Run K E (nextId s) s') \<and>
      io_of this (glob (Run K E (nextId s) s')) = io_of this (glob s)"
    if "heap s' this = heap s this" "io_of this (glob s') = io_of this (glob s)" for s'
  proof -
    have "dormant this s'" using that d by (simp add: dormant_def)
    then show ?thesis using Run_dormant[OF _ ne, of s' K E] that by simp
  qed
  show ?thesis
    unfolding Replicator_Run_def Let_def
    using d ne by (simp add: r)
qed

lemma CancelAll_loop_dormant:
  "dormant this s \<Longrightarrow>
     dormant this (CancelAll_loop K E es s) \<and>
     io_of this (glob (CancelAll_loop K E es s)) = io_of this (glob s)"
proof (induction es arbitrary: s)
  case Nil
  then show ?case by simp
next
  case (Cons x es)
  obtain k a where x: "x = (k, a)" by (cases x)
  note o = on_instance_Cancel_dormant[OF Cons.prems, of a K E]
  show ?case using Cons.IH[of "on_instance a (\<lambda>r. True) (Cancel K E a) s"] o
    by (simp add: x Let_def)
qed

lemma CancelAll_loop_nextId [simp]: "nextId (CancelAll_loop K E es s) = nextId s"
  by (induction es arbitrary: s) (auto simp: Let_def)

lemma CancelAll_dormant:
  assumes "dormant this s"
  shows "dormant this (CancelAll K E s) \<and> io_of this (glob (CancelAll K E s)) = io_of this (glob s)"
  using CancelAll_loop_dormant[OF assms, of K E "sInFlightReplications (glob s)"]
  by (simp add: CancelAll_def Let_def)

lemma deliver_dormant:
  assumes d: "dormant this s" and lt: "this < nextId s"
    and ng: "\<And>n. ev \<noteq> Ev_Granted this n"
  shows "dormant this (deliver K dec s (E, ev)) \<and>
         io_of this (glob (deliver K dec s (E, ev))) = io_of this (glob s) \<and>
         this < nextId (deliver K dec s (E, ev))"
proof (cases "died s")
  case True
  then show ?thesis using d lt by (simp add: deliver_def)
next
  case False
  show ?thesis
  proof (cases ev)
    case (Ev_Run op)
    then show ?thesis
      using False Replicator_Run_dormant[OF d lt, of K E op] lt
        Replicator_Run_nextId[of s K E op]
      by (simp add: deliver_def)
  next
    case (Ev_Granted a n)
    then have ne: "a \<noteq> this" using ng by auto
    show ?thesis
      using False Ev_Granted on_instance_other[OF frame_Granted ne] d lt
      by (simp add: deliver_def)
  next
    case (Ev_MetadataDone a st sz ver)
    have f: "frame a (r, g) ((\<lambda>(r, g). HandleStartDone K E a
                 (r\<lparr>md_status := st, md_chunkSize := sz, md_chunkVersion := ver\<rparr>, g)) (r, g))"
      for r g
      unfolding split_conv
      by (rule frame_then[OF frame_update frame_HandleStartDone]) (simp_all add: owned_def)
    show ?thesis
    proof (cases "a = this")
      case True
      have "on_instance this
          (\<lambda>r. \<not> isRS r \<and> mOwner r \<noteq> None \<and> handler r = H_HandleStartDone) f' s = s" for f'
        using d by (rule on_instance_guard_dormant) (simp add: queued_def)
      then show ?thesis using False Ev_MetadataDone True d lt by (simp add: deliver_def)
    next
      case ne: False
      show ?thesis
        using False Ev_MetadataDone on_instance_other[OF f ne] d lt
        by (simp add: deliver_def)
    qed
  next
    case (Ev_ReadDone a st dat)
    have f: "frame a (r, g) ((\<lambda>(r, g). HandleReadDone K E a
                 (r\<lparr>rd_status := st, rd_dataBuf := dat\<rparr>, g)) (r, g))" for r g
      unfolding split_conv
      by (rule frame_then[OF frame_update frame_HandleReadDone]) (simp_all add: owned_def)
    show ?thesis
    proof (cases "a = this")
      case True
      have "on_instance this
          (\<lambda>r. \<not> isRS r \<and> mOwner r \<noteq> None \<and> handler r = H_HandleReadDone) f' s = s" for f'
        using d by (rule on_instance_guard_dormant) (simp add: queued_def)
      then show ?thesis using False Ev_ReadDone True d lt by (simp add: deliver_def)
    next
      case ne: False
      show ?thesis
        using False Ev_ReadDone on_instance_other[OF f ne] d lt
        by (simp add: deliver_def)
    qed
  next
    case (Ev_WriteDone a st n)
    have f: "frame a (r, g) ((\<lambda>(r, g). HandleWriteDone K E a
                 (r\<lparr>wr_status := st, wr_numBytesIO := n\<rparr>, g)) (r, g))" for r g
      unfolding split_conv
      by (rule frame_then[OF frame_update frame_HandleWriteDone]) (simp_all add: owned_def)
    show ?thesis
    proof (cases "a = this")
      case True
      have "on_instance this
          (\<lambda>r. mOwner r \<noteq> None \<and> handler r = H_HandleWriteDone \<and> \<not> mReadInFlightFlag r) f' s = s"
        for f'
        using d by (rule on_instance_guard_dormant) (simp add: queued_def)
      then show ?thesis using False Ev_WriteDone True d lt by (simp add: deliver_def)
    next
      case ne: False
      show ?thesis
        using False Ev_WriteDone on_instance_other[OF f ne] d lt
        by (simp add: deliver_def)
    qed
  next
    case (Ev_ChangeChunkVersDone a dat)
    show ?thesis
    proof (cases "a = this")
      case True
      have "on_instance this
          (\<lambda>r. mOwner r \<noteq> None \<and> handler r = H_HandleReplicationDone) f' s = s" for f'
        using d by (rule on_instance_guard_dormant) (simp add: queued_def)
      then show ?thesis using False Ev_ChangeChunkVersDone True d lt by (simp add: deliver_def)
    next
      case ne: False
      show ?thesis
        using False Ev_ChangeChunkVersDone on_instance_other[OF frame_HandleReplicationDone ne]
          d lt
        by (simp add: deliver_def)
    qed
  next
    case (Ev_ReaderDone a mine st off sz buf req)
    show ?thesis
    proof (cases "heap s a")
      case None
      then show ?thesis using False Ev_ReaderDone d lt by (simp add: deliver_def)
    next
      case (Some r)
      show ?thesis
      proof (cases "Done K E dec a mine st off sz buf req (r, glob s)")
        case (Inl e)
        then show ?thesis using False Ev_ReaderDone Some d lt by (simp add: deliver_def)
      next
        case (Inr rg)
        show ?thesis
        proof (cases "a = this")
          case True
          have q: "queued r" using d Some True by (simp add: dormant_def)
          have "queued (fst rg)" "snd rg = glob s"
            using Done_queued[OF q] Inr True by simp_all
          then show ?thesis
            using False Ev_ReaderDone Some Inr True d lt
            by (cases rg) (auto simp: deliver_def dormant_def queued_def)
        next
          case ne: False
          have "io_of this (snd rg) = io_of this (glob s)"
            using frame_Done[OF Inr] ne by (rule frame_io_of_other)
          then show ?thesis
            using False Ev_ReaderDone Some Inr ne d lt
            by (cases rg) (auto simp: deliver_def dormant_def)
        qed
      qed
    qed
  next
    case Ev_CancelAll
    then show ?thesis
      using False CancelAll_dormant[OF d, of K E] lt by (simp add: deliver_def CancelAll_def Let_def)
  qed
qed

lemma run_events_dormant:
  assumes "dormant this s" "this < nextId s" "\<forall>x \<in> set evs. \<forall>n. snd x \<noteq> Ev_Granted this n"
  shows "dormant this (run_events K dec s evs) \<and>
         io_of this (glob (run_events K dec s evs)) = io_of this (glob s)"
  using assms unfolding run_events_def
proof (induction evs arbitrary: s)
  case Nil
  then show ?case by simp
next
  case (Cons x evs)
  obtain E ev where x: "x = (E, ev)" by (cases x)
  have ng: "\<And>n. ev \<noteq> Ev_Granted this n" using Cons.prems(3) x by auto
  note s = deliver_dormant[OF Cons.prems(1,2) ng, of K dec E]
  have "dormant this (foldl (deliver K dec) (deliver K dec s (E, ev)) evs) \<and>
      io_of this (glob (foldl (deliver K dec) (deliver K dec s (E, ev)) evs)) =
        io_of this (glob (deliver K dec s (E, ev)))"
    using Cons.IH[of "deliver K dec s (E, ev)"] s Cons.prems(3) by simp
  then show ?case using s x by simp
qed

lemma Start_peer:
  assumes "\<not> isRS r" "mPeer r"
  shows "Start K E this (r, g) =
     (r\<lparr>md_chunkId := mChunkId r, md_readVerifyFlag := False, handler := H_HandleStartDone\<rparr>,
      emit (Instance this) (Enqueue_GetChunkMetadata (mChunkId r) False) g)"
  using assms by (simp add: Start_def ReplicatorImpl_Start_def Let_def)

lemma Start_recovery:
  assumes "isRS r" "mOwner r = Some owner" "trace g = trace g0 @ new"
  shows "calls_since g0 (snd (Start K E this (r, g))) =
     map snd new @
     Reader_Open (mFileId r) (fileSize owner) (striperType owner) (stripeSize owner)
       (numStripes owner) (numRecoveryStripes owner) (chunkOffset owner) #
     calls_since
       (emit (Instance this)
          (Reader_Open (mFileId r) (fileSize owner) (striperType owner) (stripeSize owner)
             (numStripes owner) (numRecoveryStripes owner) (chunkOffset owner)) g)
       (snd (Start K E this (r, g)))"
proof -
  let ?open = "Reader_Open (mFileId r) (fileSize owner) (striperType owner) (stripeSize owner)
       (numStripes owner) (numRecoveryStripes owner) (chunkOffset owner)"
  let ?r1 = "r\<lparr>md_chunkSize := CHUNKSIZE K, md_chunkVersion := chunkVersion owner,
                     rd_status := 0, rd_numBytes := 0, md_status := env_Reader_Open E\<rparr>"
  have e: "Start K E this (r, g) = HandleStartDone K E this (?r1, emit (Instance this) ?open g)"
    using assms(1,2) by (simp add: Start_def RSReplicatorImpl_Start_def Let_def)
  have t: "trace (emit (Instance this) ?open g) = trace g0 @ (new @ [(Instance this, ?open)])"
    using assms(3) by simp
  show ?thesis
    unfolding e calls_since_after[OF frame_HandleStartDone t] by simp
qed

text \<open>
  C9. \<open>Run\<close> asks the buffer manager whether \<open>max(16 KiB, GetBufferBytesRequired())\<close>
  bytes are over quota. If they are, the replicator ends at once as a failure: it does
  not queue for buffers (no \<open>GetForDiskIo\<close>, not waiting) and makes no call to a peer,
  the reader or the chunk store; the request completes with status -1. If the buffers
  are granted at once the replicator starts at once: its next call is the metadata
  request to the peer, for a replication, or the opening of the striped reader, for a
  recovery. Otherwise it makes no further call and waits. While it waits, no event other
  than its own \<open>Granted\<close> makes it start: whatever is delivered to the chunk server,
  the replicator stays as it is or is canceled and gone, and it queues for no buffers
  and makes no call to a peer, the reader or the chunk store. When \<open>Granted\<close> is
  delivered to it, it starts, with the same first call. Every replicator the dispatcher
  constructs, in any state the chunk server reaches, gets to this request for buffers in
  the state of its construction, having made no call before, with a peer if it is a
  replication.
\<close>

theorem Run_buffer_admission:
  assumes own: "mOwner r = Some owner" and nd: "\<not> mDone r"
  shows
   "(env_IsOverQuota E \<longrightarrow>
       Run_buffers K E this (r, g) =
         Terminate E this
           (r, emit (Instance this) (IsOverQuota (max 16384 (GetBufferBytesRequired K r))) g) \<and>
       take 1 (calls_since g (snd (Run_buffers K E this (r, g)))) =
         [IsOverQuota (max 16384 (GetBufferBytesRequired K r))] \<and>
       filter is_io (calls_since g (snd (Run_buffers K E this (r, g)))) = [] \<and>
       filter is_SubmitOpResponse (calls_since g (snd (Run_buffers K E this (r, g)))) =
         [SubmitOpResponse (owner\<lparr>status := - 1, chunkVersion := - 1\<rparr>)] \<and>
       waiting (fst (Run_buffers K E this (r, g))) = waiting r \<and>
       mOwner (fst (Run_buffers K E this (r, g))) = None) \<and>
    (\<not> env_IsOverQuota E \<and> env_GetForDiskIo E \<longrightarrow>
       (\<not> isRS r \<and> mPeer r \<longrightarrow>
          calls_since g (snd (Run_buffers K E this (r, g))) =
            [IsOverQuota (max 16384 (GetBufferBytesRequired K r)),
             GetForDiskIo (max 16384 (GetBufferBytesRequired K r)),
             Enqueue_GetChunkMetadata (mChunkId r) False] \<and>
          handler (fst (Run_buffers K E this (r, g))) = H_HandleStartDone \<and>
          waiting (fst (Run_buffers K E this (r, g))) = waiting r) \<and>
       (isRS r \<longrightarrow>
          take 3 (calls_since g (snd (Run_buffers K E this (r, g)))) =
            [IsOverQuota (max 16384 (GetBufferBytesRequired K r)),
             GetForDiskIo (max 16384 (GetBufferBytesRequired K r)),
             Reader_Open (mFileId r) (fileSize owner) (striperType owner) (stripeSize owner)
               (numStripes owner) (numRecoveryStripes owner) (chunkOffset owner)])) \<and>
    (\<not> env_IsOverQuota E \<and> \<not> env_GetForDiskIo E \<longrightarrow>
       Run_buffers K E this (r, g) =
         (r\<lparr>waiting := True\<rparr>,
          emit (Instance this) (GetForDiskIo (max 16384 (GetBufferBytesRequired K r)))
            (emit (Instance this) (IsOverQuota (max 16384 (GetBufferBytesRequired K r))) g)) \<and>
       calls_since g (snd (Run_buffers K E this (r, g))) =
         [IsOverQuota (max 16384 (GetBufferBytesRequired K r)),
          GetForDiskIo (max 16384 (GetBufferBytesRequired K r))]) \<and>
    (dormant this s \<and> this < nextId s \<and>
     (\<forall>x \<in> set evs. \<forall>n. snd x \<noteq> Ev_Granted this n) \<longrightarrow>
       dormant this (run_events K dec s evs) \<and>
       io_of this (glob (run_events K dec s evs)) = io_of this (glob s)) \<and>
    (\<not> died s \<and> heap s this = Some q \<and> queued q \<and> mOwner q = Some qo \<longrightarrow>
       (\<not> isRS q \<and> mPeer q \<longrightarrow>
          calls_since (glob s) (glob (deliver K dec s (E, Ev_Granted this byteCount))) =
            [Enqueue_GetChunkMetadata (mChunkId q) False] \<and>
          heap (deliver K dec s (E, Ev_Granted this byteCount)) this =
            Some (q\<lparr>waiting := False, md_chunkId := mChunkId q, md_readVerifyFlag := False,
                     handler := H_HandleStartDone\<rparr>)) \<and>
       (isRS q \<longrightarrow>
          take 1 (calls_since (glob s) (glob (deliver K dec s (E, Ev_Granted this byteCount)))) =
            [Reader_Open (mFileId q) (fileSize qo) (striperType qo) (stripeSize qo)
               (numStripes qo) (numRecoveryStripes qo) (chunkOffset qo)])) \<and>
    (t = run_events K dec initial_system evs0 \<and>
     (if location_IsValid op then env_peer E else \<not> Run_invalid_request K op) \<longrightarrow>
       (let this' = nextId t;
            impl = (if location_IsValid op then Ref (ReplicatorImpl_new E op True)
                    else Ref (RSReplicatorImpl_new K E op));
            s0 = t\<lparr>heap := (heap t)(this' := Some impl),
                   glob := (if location_IsValid op
                            then (glob t)\<lparr>mReplicationCount := mReplicationCount (glob t) + 1,
                                          mReplicatorCount := mReplicatorCount (glob t) + 1\<rparr>
                            else (glob t)\<lparr>mRecoveryCount := mRecoveryCount (glob t) + 1,
                                          mReplicatorCount := mReplicatorCount (glob t) + 1\<rparr>),
                   nextId := Suc this'\<rparr>;
            s1 = snd (fst (Run_register K E this' impl s0))
        in Replicator_Run K E op t =
             store this' (Run_buffers K E this' (impl, glob s1)) s1 \<and>
           calls_of (Instance this') (trace (glob s1)) =
             calls_of (Instance this') (trace (glob t)) \<and>
           mOwner impl = Some op \<and> \<not> mDone impl \<and>
           queued (impl\<lparr>waiting := True\<rparr>) \<and>
           isRS impl = (\<not> location_IsValid op) \<and> mPeer impl = location_IsValid op \<and>
           this' < nextId (Replicator_Run K E op t)))"
proof (intro conjI impI)
  let ?n = "max 16384 (GetBufferBytesRequired K r)"
  let ?g1 = "emit (Instance this) (IsOverQuota ?n) g"
  assume q: "env_IsOverQuota E"
  show e: "Run_buffers K E this (r, g) = Terminate E this (r, ?g1)"
    using q by (simp add: Run_buffers_def Let_def)
  have d0: "\<not> (mDone r \<and> \<not> mCancelFlag r)" using nd by simp
  have t: "trace ?g1 = trace g @ [(Instance this, IsOverQuota ?n)]" by simp
  note c = calls_since_after[OF frame_Terminate[of this r ?g1 E] t]
  show "take 1 (calls_since g (snd (Run_buffers K E this (r, g)))) = [IsOverQuota ?n]"
    unfolding e c by simp
  show "filter is_io (calls_since g (snd (Run_buffers K E this (r, g)))) = []"
    unfolding e c using failed_calls(1)[OF own d0, of ?g1 E this] by simp
  show "filter is_SubmitOpResponse (calls_since g (snd (Run_buffers K E this (r, g)))) =
         [SubmitOpResponse (owner\<lparr>status := - 1, chunkVersion := - 1\<rparr>)]"
    unfolding e c using failed_calls(3)[OF own d0, of ?g1 E this] by simp
  show "waiting (fst (Run_buffers K E this (r, g))) = waiting r"
    unfolding e using own d0 by (simp add: Terminate_failed HandleReplicationDone_fst)
  show "mOwner (fst (Run_buffers K E this (r, g))) = None"
    unfolding e using failed_calls(4)[OF own d0, of E this ?g1] by simp
next
  let ?n = "max 16384 (GetBufferBytesRequired K r)"
  let ?g2 = "emit (Instance this) (GetForDiskIo ?n) (emit (Instance this) (IsOverQuota ?n) g)"
  assume a: "\<not> env_IsOverQuota E \<and> env_GetForDiskIo E"
  have e: "Run_buffers K E this (r, g) = Start K E this (r, ?g2)"
    using a by (simp add: Run_buffers_def Let_def)
  {
    assume p: "\<not> isRS r \<and> mPeer r"
    note s = Start_peer[of r K E this ?g2]
    show "calls_since g (snd (Run_buffers K E this (r, g))) =
            [IsOverQuota ?n, GetForDiskIo ?n, Enqueue_GetChunkMetadata (mChunkId r) False]"
      unfolding e using p s by (simp add: calls_since_def)
    show "handler (fst (Run_buffers K E this (r, g))) = H_HandleStartDone"
      unfolding e using p s by simp
    show "waiting (fst (Run_buffers K E this (r, g))) = waiting r"
      unfolding e using p s by simp
  }
  {
    assume p: "isRS r"
    have t: "trace ?g2 = trace g @ [(Instance this, IsOverQuota ?n), (Instance this, GetForDiskIo ?n)]"
      by simp
    show "take 3 (calls_since g (snd (Run_buffers K E this (r, g)))) =
            [IsOverQuota ?n, GetForDiskIo ?n,
             Reader_Open (mFileId r) (fileSize owner) (striperType owner) (stripeSize owner)
               (numStripes owner) (numRecoveryStripes owner) (chunkOffset owner)]"
      unfolding e Start_recovery[OF p own t] by simp
  }
next
  assume w: "\<not> env_IsOverQuota E \<and> \<not> env_GetForDiskIo E"
  then show e: "Run_buffers K E this (r, g) =
         (r\<lparr>waiting := True\<rparr>,
          emit (Instance this) (GetForDiskIo (max 16384 (GetBufferBytesRequired K r)))
            (emit (Instance this) (IsOverQuota (max 16384 (GetBufferBytesRequired K r))) g))"
    by (simp add: Run_buffers_def Let_def)
  show "calls_since g (snd (Run_buffers K E this (r, g))) =
         [IsOverQuota (max 16384 (GetBufferBytesRequired K r)),
          GetForDiskIo (max 16384 (GetBufferBytesRequired K r))]"
    unfolding e by (simp add: calls_since_def)
next
  assume h: "dormant this s \<and> this < nextId s \<and>
     (\<forall>x \<in> set evs. \<forall>n. snd x \<noteq> Ev_Granted this n)"
  then have "dormant this (run_events K dec s evs) \<and>
       io_of this (glob (run_events K dec s evs)) = io_of this (glob s)"
    by (intro run_events_dormant) simp_all
  then show "dormant this (run_events K dec s evs)"
    and "io_of this (glob (run_events K dec s evs)) = io_of this (glob s)"
    by simp_all
next
  assume h: "\<not> died s \<and> heap s this = Some q \<and> queued q \<and> mOwner q = Some qo"
  have d: "deliver K dec s (E, Ev_Granted this byteCount) =
      store this (Start K E this (q\<lparr>waiting := False\<rparr>, glob s)) s"
    using h by (simp add: deliver_def on_instance_def queued_def Granted_def)
  {
    assume p: "\<not> isRS q \<and> mPeer q"
    show "calls_since (glob s) (glob (deliver K dec s (E, Ev_Granted this byteCount))) =
            [Enqueue_GetChunkMetadata (mChunkId q) False]"
      unfolding d using p Start_peer[of "q\<lparr>waiting := False\<rparr>" K E this "glob s"]
      by (simp add: calls_since_def)
    show "heap (deliver K dec s (E, Ev_Granted this byteCount)) this =
            Some (q\<lparr>waiting := False, md_chunkId := mChunkId q, md_readVerifyFlag := False,
                     handler := H_HandleStartDone\<rparr>)"
      unfolding d using p h Start_peer[of "q\<lparr>waiting := False\<rparr>" K E this "glob s"]
      by (simp add: queued_def)
  }
  {
    assume p: "isRS q"
    have o: "mOwner (q\<lparr>waiting := False\<rparr>) = Some qo" using h by simp
    have i: "isRS (q\<lparr>waiting := False\<rparr>)" using p by simp
    have t: "trace (glob s) = trace (glob s) @ []" by simp
    show "take 1 (calls_since (glob s) (glob (deliver K dec s (E, Ev_Granted this byteCount)))) =
            [Reader_Open (mFileId q) (fileSize qo) (striperType qo) (stripeSize qo)
               (numStripes qo) (numRecoveryStripes qo) (chunkOffset qo)]"
      unfolding d using Start_recovery[OF i o t, of K E this] by simp
  }
next
  assume h: "t = run_events K dec initial_system evs0 \<and>
     (if location_IsValid op then env_peer E else \<not> Run_invalid_request K op)"
  define this' where "this' = nextId t"
  define impl where "impl = (if location_IsValid op then Ref (ReplicatorImpl_new E op True)
                    else Ref (RSReplicatorImpl_new K E op))"
  define s0 where "s0 = t\<lparr>heap := (heap t)(this' := Some impl),
                   glob := (if location_IsValid op
                            then (glob t)\<lparr>mReplicationCount := mReplicationCount (glob t) + 1,
                                          mReplicatorCount := mReplicatorCount (glob t) + 1\<rparr>
                            else (glob t)\<lparr>mRecoveryCount := mRecoveryCount (glob t) + 1,
                                          mReplicatorCount := mReplicatorCount (glob t) + 1\<rparr>),
                   nextId := Suc this'\<rparr>"
  define s1 where "s1 = snd (fst (Run_register K E this' impl s0))"
  have "registry_fresh initial_system"
    by (simp add: registry_fresh_def initial_system_def initial_globals_def)
  then have fr: "registry_fresh t" using h run_events_fresh by simp
  have i: "mOwner impl = Some op" "\<not> mDone impl" "\<not> mCancelFlag impl" "mChunkId impl = chunkId op"
    by (simp_all add: impl_def ReplicatorImpl_new_def RSReplicatorImpl_new_def)
  have j: "queued (impl\<lparr>waiting := True\<rparr>)" "isRS impl = (\<not> location_IsValid op)"
    "mPeer impl = location_IsValid op"
    by (simp_all add: impl_def ReplicatorImpl_new_def RSReplicatorImpl_new_def queued_def Ref_def)
  have reg0: "sInFlightReplications (glob s0) = sInFlightReplications (glob t)"
    by (simp add: s0_def)
  have tr0: "trace (glob s0) = trace (glob t)" by (simp add: s0_def)
  have ns: "registry_find (sInFlightReplications (glob s0)) (mChunkId impl) \<noteq> Some this'"
  proof
    assume "registry_find (sInFlightReplications (glob s0)) (mChunkId impl) = Some this'"
    then have "(mChunkId impl, this') \<in> set (sInFlightReplications (glob t))"
      unfolding reg0 registry_find_def by (rule map_of_SomeD)
    then have "this' < nextId t" using fr by (auto simp: registry_fresh_def)
    then show False by (simp add: this'_def)
  qed
  have hp: "heap s0 this' = Some impl" by (simp add: s0_def)
  have e: "Replicator_Run K E op t = Run K E this' s0"
    using h by (auto simp: Replicator_Run_def Let_def s0_def this'_def impl_def)
  have r: "Run K E this' s0 = store this' (Run_buffers K E this' (impl, glob s1)) s1"
    unfolding s1_def using hp ns i(3) by (rule Run_not_self)
  have c: "calls_of (Instance this') (trace (glob s1)) = calls_of (Instance this') (trace (glob t))"
    unfolding s1_def using Run_register_not_self(2)[OF ns i(3), of K E] tr0 by simp
  have n: "this' < nextId (Replicator_Run K E op t)"
    unfolding e by (simp add: s0_def)
  have "Replicator_Run K E op t = store this' (Run_buffers K E this' (impl, glob s1)) s1 \<and>
           calls_of (Instance this') (trace (glob s1)) =
             calls_of (Instance this') (trace (glob t)) \<and>
           mOwner impl = Some op \<and> \<not> mDone impl \<and>
           queued (impl\<lparr>waiting := True\<rparr>) \<and>
           isRS impl = (\<not> location_IsValid op) \<and> mPeer impl = location_IsValid op \<and>
           this' < nextId (Replicator_Run K E op t)"
    using e r c i j n by simp
  then show "let this' = nextId t;
            impl = (if location_IsValid op then Ref (ReplicatorImpl_new E op True)
                    else Ref (RSReplicatorImpl_new K E op));
            s0 = t\<lparr>heap := (heap t)(this' := Some impl),
                   glob := (if location_IsValid op
                            then (glob t)\<lparr>mReplicationCount := mReplicationCount (glob t) + 1,
                                          mReplicatorCount := mReplicatorCount (glob t) + 1\<rparr>
                            else (glob t)\<lparr>mRecoveryCount := mRecoveryCount (glob t) + 1,
                                          mReplicatorCount := mReplicatorCount (glob t) + 1\<rparr>),
                   nextId := Suc this'\<rparr>;
            s1 = snd (fst (Run_register K E this' impl s0))
        in Replicator_Run K E op t =
             store this' (Run_buffers K E this' (impl, glob s1)) s1 \<and>
           calls_of (Instance this') (trace (glob s1)) =
             calls_of (Instance this') (trace (glob t)) \<and>
           mOwner impl = Some op \<and> \<not> mDone impl \<and>
           queued (impl\<lparr>waiting := True\<rparr>) \<and>
           isRS impl = (\<not> location_IsValid op) \<and> mPeer impl = location_IsValid op \<and>
           this' < nextId (Replicator_Run K E op t)"
    unfolding Let_def this'_def[symmetric] impl_def[symmetric] s0_def[symmetric]
      s1_def[symmetric] .
qed

theorem Run_buffer_admission_witness:
  "take 1 (calls_since initial_globals (snd (Run_buffers example_constants
      (example_environment\<lparr>env_IsOverQuota := True\<rparr>) 1
      (Ref (ReplicatorImpl_new example_environment example_replication_op True),
       initial_globals)))) = [IsOverQuota 1048576] \<and>
   filter is_io (calls_since initial_globals (snd (Run_buffers example_constants
      (example_environment\<lparr>env_IsOverQuota := True\<rparr>) 1
      (Ref (ReplicatorImpl_new example_environment example_replication_op True),
       initial_globals)))) = [] \<and>
   filter is_SubmitOpResponse (calls_since initial_globals (snd (Run_buffers example_constants
      (example_environment\<lparr>env_IsOverQuota := True\<rparr>) 1
      (Ref (ReplicatorImpl_new example_environment example_replication_op True),
       initial_globals)))) =
     [SubmitOpResponse (example_replication_op\<lparr>status := - 1, chunkVersion := - 1\<rparr>)] \<and>
   calls_since initial_globals (snd (Run_buffers example_constants example_environment 1
      (Ref (ReplicatorImpl_new example_environment example_replication_op True),
       initial_globals))) =
     [IsOverQuota 1048576, GetForDiskIo 1048576, Enqueue_GetChunkMetadata 2 False] \<and>
   io_of 1 (glob (run_events example_constants le_sint
      (deliver example_constants le_sint initial_system
         (example_environment\<lparr>env_GetForDiskIo := False\<rparr>, Ev_Run example_replication_op))
      [(example_environment, Ev_WriteDone 1 0 0),
       (example_environment, Ev_Run (example_replication_op\<lparr>chunkId := 5\<rparr>)),
       (example_environment, Ev_MetadataDone 1 0 10 7),
       (example_environment, Ev_Granted 2 1048576)])) = [GetForDiskIo 1048576] \<and>
   calls_since
     (glob (run_events example_constants le_sint
        (deliver example_constants le_sint initial_system
           (example_environment\<lparr>env_GetForDiskIo := False\<rparr>, Ev_Run example_replication_op))
        [(example_environment, Ev_WriteDone 1 0 0),
         (example_environment, Ev_Run (example_replication_op\<lparr>chunkId := 5\<rparr>)),
         (example_environment, Ev_MetadataDone 1 0 10 7),
         (example_environment, Ev_Granted 2 1048576)]))
     (glob (deliver example_constants le_sint
        (run_events example_constants le_sint
           (deliver example_constants le_sint initial_system
              (example_environment\<lparr>env_GetForDiskIo := False\<rparr>, Ev_Run example_replication_op))
           [(example_environment, Ev_WriteDone 1 0 0),
            (example_environment, Ev_Run (example_replication_op\<lparr>chunkId := 5\<rparr>)),
            (example_environment, Ev_MetadataDone 1 0 10 7),
            (example_environment, Ev_Granted 2 1048576)])
        (example_environment, Ev_Granted 1 1048576))) =
     [Enqueue_GetChunkMetadata 2 False]"
proof -
  let ?K = example_constants
  let ?r = "Ref (ReplicatorImpl_new example_environment example_replication_op True)"
  let ?s1 = "deliver ?K le_sint initial_system
         (example_environment\<lparr>env_GetForDiskIo := False\<rparr>, Ev_Run example_replication_op)"
  let ?evs = "[(example_environment, Ev_WriteDone 1 0 0),
       (example_environment, Ev_Run (example_replication_op\<lparr>chunkId := 5\<rparr>)),
       (example_environment, Ev_MetadataDone 1 0 10 7),
       (example_environment, Ev_Granted 2 1048576)]"
  let ?s2 = "run_events ?K le_sint ?s1 ?evs"
  let ?q = "(Ref (ReplicatorImpl_new (example_environment\<lparr>env_GetForDiskIo := False\<rparr>)
                example_replication_op True))\<lparr>waiting := True\<rparr>"
  have o: "mOwner ?r = Some example_replication_op" by (simp add: ReplicatorImpl_new_def)
  have d: "\<not> mDone ?r" by (simp add: ReplicatorImpl_new_def)
  have n: "max 16384 (GetBufferBytesRequired ?K ?r) = 1048576"
    by (simp add: GetBufferBytesRequired_def ReplicatorImpl_new_def Ref_def
        kDefaultReplicationReadSize_def example_constants_def c_div_def wrap32_def)
  have c: "mChunkId ?r = 2" "\<not> isRS ?r \<and> mPeer ?r"
    by (simp_all add: ReplicatorImpl_new_def example_replication_op_def Ref_def)
  have q: "env_IsOverQuota (example_environment\<lparr>env_IsOverQuota := True\<rparr>)" by simp
  have a: "\<not> env_IsOverQuota example_environment \<and> env_GetForDiskIo example_environment"
    by (simp add: example_environment_def)
  note over = Run_buffer_admission[OF o d, where K = ?K and this = 1 and g = initial_globals
      and E = "example_environment\<lparr>env_IsOverQuota := True\<rparr>", THEN conjunct1, rule_format, OF q]
  note grant = Run_buffer_admission[OF o d, where K = ?K and this = 1 and g = initial_globals
      and E = example_environment, THEN conjunct2, THEN conjunct1, rule_format,
      OF a, THEN conjunct1, rule_format, OF c(2)]
  have h0: "dormant 1 ?s1 \<and> 1 < nextId ?s1" by code_simp
  have "\<forall>x \<in> set ?evs. \<forall>n. snd x \<noteq> Ev_Granted 1 n" by simp
  with h0 have h1: "dormant 1 ?s1 \<and> 1 < nextId ?s1 \<and>
      (\<forall>x \<in> set ?evs. \<forall>n. snd x \<noteq> Ev_Granted 1 n)"
    by blast
  have i1: "io_of 1 (glob ?s1) = [GetForDiskIo 1048576]" by code_simp
  note wait = Run_buffer_admission[OF o d, where K = ?K and dec = le_sint and this = 1
      and s = ?s1 and evs = ?evs, THEN conjunct2, THEN conjunct2, THEN conjunct2,
      THEN conjunct1, rule_format, OF h1]
  have h2: "\<not> died ?s2 \<and> heap ?s2 1 = Some ?q \<and> queued ?q \<and>
      mOwner ?q = Some example_replication_op"
    by code_simp
  have c2: "\<not> isRS ?q \<and> mPeer ?q" "mChunkId ?q = 2"
    by (simp_all add: ReplicatorImpl_new_def example_replication_op_def Ref_def)
  note granted = Run_buffer_admission[OF o d, where K = ?K and dec = le_sint and this = 1
      and s = ?s2 and q = ?q and qo = example_replication_op and E = example_environment
      and byteCount = 1048576,
      THEN conjunct2, THEN conjunct2, THEN conjunct2, THEN conjunct2, THEN conjunct1,
      rule_format, OF h2, THEN conjunct1, rule_format, OF c2(1)]
  have w1: "take 1 (calls_since initial_globals (snd (Run_buffers ?K
      (example_environment\<lparr>env_IsOverQuota := True\<rparr>) 1 (?r, initial_globals)))) =
      [IsOverQuota 1048576]"
    using over unfolding n by blast
  have w2: "filter is_io (calls_since initial_globals (snd (Run_buffers ?K
      (example_environment\<lparr>env_IsOverQuota := True\<rparr>) 1 (?r, initial_globals)))) = []"
    using over by blast
  have w3: "filter is_SubmitOpResponse (calls_since initial_globals (snd (Run_buffers ?K
      (example_environment\<lparr>env_IsOverQuota := True\<rparr>) 1 (?r, initial_globals)))) =
      [SubmitOpResponse (example_replication_op\<lparr>status := - 1, chunkVersion := - 1\<rparr>)]"
    using over by blast
  have w4: "calls_since initial_globals (snd (Run_buffers ?K example_environment 1
      (?r, initial_globals))) =
      [IsOverQuota 1048576, GetForDiskIo 1048576, Enqueue_GetChunkMetadata 2 False]"
    using grant unfolding n c(1) by blast
  have w5: "io_of 1 (glob ?s2) = [GetForDiskIo 1048576]"
    using wait unfolding i1 by blast
  have w6: "calls_since (glob ?s2)
      (glob (deliver ?K le_sint ?s2 (example_environment, Ev_Granted 1 1048576))) =
      [Enqueue_GetChunkMetadata 2 False]"
    using granted unfolding c2(2) by blast
  show ?thesis
    using w1 w2 w3 w4 w5 w6 by blast
qed

section \<open>The registry after \<open>Run\<close>\<close>

lemma registry_find_erase [simp]: "registry_find (registry_erase reg k) k = None"
  by (simp add: registry_find_def map_of_registry_erase)

lemma entry_kept_same:
  assumes "mChunkId r' = mChunkId r" "deleted r' = deleted r"
    "sInFlightReplications g' = sInFlightReplications g"
  shows "entry_kept this (r, g) (r', g')"
  using assms by (simp add: entry_kept_def)

lemma entry_kept_trans:
  assumes a: "entry_kept this (r, g) (r1, g1)" and b: "entry_kept this (r1, g1) (r2, g2)"
  shows "entry_kept this (r, g) (r2, g2)"
  using a b unfolding entry_kept_def split_conv
  by (cases "deleted r1") auto

lemma entry_kept_then:
  assumes "entry_kept this (r, g) rg1" and "\<And>r1 g1. entry_kept this (r1, g1) (f (r1, g1))"
  shows "entry_kept this (r, g) (f rg1)"
  using assms by (metis entry_kept_trans prod.collapse)

lemma entry_kept_UnRef: "entry_kept this (r, g) (UnRef this (r, g))"
  by (simp add: UnRef_def destroy_def Let_def entry_kept_def)

lemma entry_kept_HandleReplicationDone:
  "entry_kept this (r, g) (HandleReplicationDone this dat (r, g))"
proof (cases "mOwner r")
  case None
  then show ?thesis by (simp add: HandleReplicationDone_no_owner entry_kept_same)
next
  case (Some owner)
  have u: "entry_kept this (r, g) (UnRef this (r\<lparr>mOwner := None\<rparr>, g'))"
    if "sInFlightReplications g' = sInFlightReplications g" for g'
    by (rule entry_kept_then[OF entry_kept_same entry_kept_UnRef]) (simp_all add: that)
  have e: "entry_kept this (r, g) (fst X, emit c x (snd X))" if "entry_kept this (r, g) X"
    for X c x
    using that by (cases X) (simp add: entry_kept_def)
  show ?thesis
    using Some by (simp add: HandleReplicationDone_def Let_def split_def e u)
qed

lemma entry_kept_Terminate: "entry_kept this (r, g) (Terminate E this (r, g))"
proof -
  have a: "entry_kept this (r, g)
      (r\<lparr>handler := H_HandleReplicationDone\<rparr>,
       emit (Instance this) (ChangeChunkVers (mChunkId r) (mChunkVersion r) True) g)"
    by (rule entry_kept_same) simp_all
  show ?thesis
    unfolding Terminate_def Let_def
    using a entry_kept_then[OF a, of "HandleReplicationDone this (Some (env_ChangeChunkVers E))",
        OF entry_kept_HandleReplicationDone] entry_kept_HandleReplicationDone
    by simp
qed

lemma entry_kept_HandleReadDone: "entry_kept this (r, g) (HandleReadDone K E this (r, g))"
proof -
  let ?r1 = "HandleReadDone_status K r"
  let ?r1' = "?r1\<lparr>mDone := (mOffset ?r1 = mChunkSize ?r1 \<and> rd_status ?r1 \<ge> 0 \<and> \<not> mCancelFlag ?r1)\<rparr>"
  let ?r4 = "HandleReadDone_swap K ?r1"
  let ?g1 = "emit (Instance this)
                      (WriteChunk (wr_offset ?r4) (wr_numBytes ?r4)
                         (case wr_dataBuf ?r4 of Some b \<Rightarrow> b | None \<Rightarrow> [])) g"
  have s: "mChunkId ?r1 = mChunkId r" "deleted ?r1 = deleted r"
    by (simp_all add: HandleReadDone_status_def Let_def)
  have s4: "mChunkId ?r4 = mChunkId r" "deleted ?r4 = deleted r"
    using s by (simp_all add: HandleReadDone_swap_def Let_def split_def)
  have a: "entry_kept this (r, g) (?r1', g)"
    by (rule entry_kept_same) (simp_all add: s)
  have b: "entry_kept this (r, g) (?r4, ?g1)"
    by (rule entry_kept_same) (simp_all add: s4)
  show ?thesis
    unfolding HandleReadDone_def Let_def split_def
    using entry_kept_then[OF a, of "Terminate E this", OF entry_kept_Terminate]
      entry_kept_then[OF b, of "Terminate E this", OF entry_kept_Terminate] b
    by simp
qed

lemma entry_kept_ReplicatorImpl_Read:
  "entry_kept this (r, g) (ReplicatorImpl_Read K E this (r, g))"
proof -
  let ?r = "Ref r"
  let ?r1 = "?r\<lparr>handler := H_HandleReadDone, rd_status := 0, rd_offset := mOffset ?r,
          rd_numBytesIO := 0,
          rd_numBytes := wrap32 (min (mChunkSize ?r - mOffset ?r) (kDefaultReplicationReadSize K))\<rparr>"
  let ?body = "if mOffset ?r \<ge> mChunkSize ?r then
             Terminate E this (?r\<lparr>mDone := (mOffset ?r = mChunkSize ?r)\<rparr>, g)
           else (?r1, emit (Instance this)
                        (if mPeer ?r1
                         then Enqueue_Read (mChunkId ?r1) (rd_chunkVersion ?r1) (rd_offset ?r1)
                                (rd_numBytes ?r1)
                         else NullPeer) g)"
  have a: "entry_kept this (r, g) (?r\<lparr>mDone := (mOffset ?r = mChunkSize ?r)\<rparr>, g)"
    by (rule entry_kept_same) (simp_all add: Ref_def)
  note t = entry_kept_then[OF a, of "Terminate E this", OF entry_kept_Terminate]
  have b: "entry_kept this (r, g) (?r1, emit (Instance this)
                        (if mPeer ?r1
                         then Enqueue_Read (mChunkId ?r1) (rd_chunkVersion ?r1) (rd_offset ?r1)
                                (rd_numBytes ?r1)
                         else NullPeer) g)"
    by (rule entry_kept_same) (simp_all add: Ref_def)
  have body: "entry_kept this (r, g) ?body" using t b by simp
  have e: "ReplicatorImpl_Read K E this (r, g) = UnRef this ?body"
    by (simp add: ReplicatorImpl_Read_def Let_def)
  show ?thesis
    unfolding e by (rule entry_kept_then[OF body entry_kept_UnRef])
qed

lemma entry_kept_RSReplicatorImpl_Read:
  "entry_kept this (r, g) (RSReplicatorImpl_Read K E this (r, g))"
proof (cases "mOffset r \<ge> mChunkSize r \<or> rd_status r < 0")
  case True
  then show ?thesis
    using entry_kept_ReplicatorImpl_Read[of this r g K E]
    by (simp add: RSReplicatorImpl_Read_def)
next
  case False
  let ?r = "Ref r"
  let ?r1 = "?r\<lparr>rd_dataBuf := Some [], rd_status := 0, rd_numBytes := mReadSize ?r,
                    rd_numBytesIO := 0, rd_offset := mOffset ?r, mReadInFlightFlag := True\<rparr>"
  let ?g1 = "emit (Instance this)
                   (Reader_Read (mReadSize ?r1) (mOffset ?r1 + BytesConsumable (mReadTail ?r1))) g"
  let ?body = "if env_Reader_Read E \<noteq> 0 \<and> mReadInFlightFlag ?r1
              then HandleReadDone K E this
                     (?r1\<lparr>mReadInFlightFlag := False, rd_status := env_Reader_Read E\<rparr>, ?g1)
              else (?r1, ?g1)"
  have b: "entry_kept this (r, g) (?r1, ?g1)"
    by (rule entry_kept_same) (simp_all add: Ref_def)
  have c: "entry_kept this (r, g) (?r1\<lparr>mReadInFlightFlag := False, rd_status := st\<rparr>, ?g1)" for st
    by (rule entry_kept_same) (simp_all add: Ref_def)
  note h = entry_kept_then[OF c, of "HandleReadDone K E this", OF entry_kept_HandleReadDone]
  have body: "entry_kept this (r, g) ?body" using h b by simp
  have e: "RSReplicatorImpl_Read K E this (r, g) = UnRef this ?body"
    using False by (simp add: RSReplicatorImpl_Read_def Let_def)
  show ?thesis
    unfolding e by (rule entry_kept_then[OF body entry_kept_UnRef])
qed

lemma entry_kept_Read: "entry_kept this (r, g) (Read K E this (r, g))"
  by (simp add: Read_def entry_kept_ReplicatorImpl_Read entry_kept_RSReplicatorImpl_Read)

lemma entry_kept_HandleStartDone: "entry_kept this (r, g) (HandleStartDone K E this (r, g))"
proof -
  let ?r1 = "r\<lparr>mChunkSize := md_chunkSize r, mChunkVersion := md_chunkVersion r\<rparr>"
  let ?r2 = "?r1\<lparr>rd_chunkVersion := mChunkVersion ?r1, wr_chunkVersion := 0\<rparr>"
  let ?g2 = "emit (Instance this) (AllocChunk (mFileId ?r2) (mChunkId ?r2) 0 True)
               (emit (Instance this) (StaleChunk (mChunkId ?r2) True) g)"
  have a: "entry_kept this (r, g) (?r1, g)" by (rule entry_kept_same) simp_all
  have b: "entry_kept this (r, g) (?r2, ?g2)" by (rule entry_kept_same) simp_all
  show ?thesis
    unfolding HandleStartDone_def Let_def
    using entry_kept_Terminate[of this r g E]
      entry_kept_then[OF a, of "Terminate E this", OF entry_kept_Terminate]
      entry_kept_then[OF b, of "Terminate E this", OF entry_kept_Terminate]
      entry_kept_then[OF b, of "Read K E this", OF entry_kept_Read]
    by simp
qed

lemma entry_kept_Start: "entry_kept this (r, g) (Start K E this (r, g))"
proof (cases "isRS r")
  case False
  then show ?thesis
    by (simp add: Start_def ReplicatorImpl_Start_def Let_def entry_kept_same)
next
  case True
  show ?thesis
  proof (cases "mOwner r")
    case None
    then show ?thesis using True by (simp add: Start_def RSReplicatorImpl_Start_def entry_kept_same)
  next
    case (Some owner)
    let ?r1 = "r\<lparr>md_chunkSize := CHUNKSIZE K, md_chunkVersion := chunkVersion owner,
                     rd_status := 0, rd_numBytes := 0, md_status := env_Reader_Open E\<rparr>"
    let ?g1 = "emit (Instance this)
                    (Reader_Open (mFileId r) (fileSize owner) (striperType owner)
                       (stripeSize owner) (numStripes owner) (numRecoveryStripes owner)
                       (chunkOffset owner)) g"
    have a: "entry_kept this (r, g) (?r1, ?g1)" by (rule entry_kept_same) simp_all
    show ?thesis
      using True Some entry_kept_then[OF a, of "HandleStartDone K E this",
          OF entry_kept_HandleStartDone]
      by (simp add: Start_def RSReplicatorImpl_Start_def Let_def)
  qed
qed

lemma entry_kept_Run_buffers: "entry_kept this (r, g) (Run_buffers K E this (r, g))"
proof -
  let ?n = "max (16 * 1024) (GetBufferBytesRequired K r)"
  let ?g1 = "emit (Instance this) (IsOverQuota ?n) g"
  let ?g2 = "emit (Instance this) (GetForDiskIo ?n) ?g1"
  have a: "entry_kept this (r, g) (r, ?g1)" by (rule entry_kept_same) simp_all
  have b: "entry_kept this (r, g) (r, ?g2)" by (rule entry_kept_same) simp_all
  have c: "entry_kept this (r, g) (r\<lparr>waiting := True\<rparr>, ?g2)" by (rule entry_kept_same) simp_all
  show ?thesis
    unfolding Run_buffers_def Let_def
    using c entry_kept_then[OF a, of "Terminate E this", OF entry_kept_Terminate]
      entry_kept_then[OF b, of "Start K E this", OF entry_kept_Start]
    by simp
qed

lemma Cancel_idle:
  assumes "\<not> waiting me" "\<not> mReadInFlightFlag me" "refCount me = 1"
  shows "fst (Cancel K E this (me, g)) = me\<lparr>mCancelFlag := True\<rparr>"
    and "snd (Cancel K E this (me, g)) =
           (if isRS me
            then emit (Instance this) Reader_Shutdown (emit (Instance this) Reader_Unregister g)
            else g)"
proof -
  have p: "ReplicatorImpl_Cancel E this (r, g') = (r\<lparr>mCancelFlag := True\<rparr>, g')"
    if "\<not> waiting r" for r g'
    using that by (simp add: ReplicatorImpl_Cancel_def Let_def)
  have w: "\<not> waiting (Ref me)" using assms by simp
  have e: "(Ref me)\<lparr>mCancelFlag := True, refCount := 1\<rparr> = me\<lparr>mCancelFlag := True\<rparr>"
    using assms(3) by (intro ReplicatorImpl.equality) (simp_all add: Ref_def)
  show "fst (Cancel K E this (me, g)) = me\<lparr>mCancelFlag := True\<rparr>"
    using assms
    by (auto simp: Cancel_def RSReplicatorImpl_Cancel_def Let_def p[OF w] p[OF assms(1)]
        UnRef_def e)
  show "snd (Cancel K E this (me, g)) =
           (if isRS me
            then emit (Instance this) Reader_Shutdown (emit (Instance this) Reader_Unregister g)
            else g)"
    using assms
    by (auto simp: Cancel_def RSReplicatorImpl_Cancel_def Let_def p[OF w] p[OF assms(1)]
        UnRef_def)
qed

lemma Run_self:
  assumes reg: "registry_find (sInFlightReplications (glob s)) (mChunkId me) = Some this"
    and hp: "heap s this = Some me" and own: "mOwner me = Some owner" and nd: "\<not> mDone me"
    and idle: "\<not> waiting me" "\<not> mReadInFlightFlag me" "refCount me = 1" and nx: "\<not> deleted me"
  shows "calls_since (glob s) (glob (Run K E this s)) =
           (if isRS me then [Reader_Unregister, Reader_Shutdown] else []) @
           [ReplicationDone (mChunkId me) (- 1)] @
           (if isRS me then [Reader_Register0, Reader_Shutdown] else []) @
           [SubmitOpResponse (owner\<lparr>status := - 1, chunkVersion := - 1\<rparr>)]"
    and "heap (Run K E this s) this = None"
    and "registry_find (sInFlightReplications (glob (Run K E this s))) (mChunkId me) = None"
proof -
  let ?g1 = "if isRS me
            then emit (Instance this) Reader_Shutdown (emit (Instance this) Reader_Unregister (glob s))
            else glob s"
  let ?g2 = "?g1\<lparr>sInFlightReplications :=
                    registry_reinsert (sInFlightReplications ?g1) (mChunkId me) this\<rparr>"
  let ?r = "me\<lparr>mCancelFlag := True, mCancelFlag := False\<rparr>"
  let ?res = "HandleReplicationDone this (Some (- 1)) (?r, ?g2)"
  have o: "mOwner ?r = Some owner" using own by simp
  have e: "Run_register K E this me s = ((fst ?res, s\<lparr>glob := snd ?res\<rparr>), True)"
    unfolding Run_register_self[OF reg] Cancel_idle[OF idle] Let_def
    using nd by (simp add: Terminate_failed)
  have r: "Run K E this s = store this ?res (s\<lparr>glob := snd ?res\<rparr>)"
    using hp e by (simp add: Run_def)
  have n: "notified this ?r ?g2" by (simp add: notified_def)
  have t: "trace (snd ?res) = trace (glob s) @
      (if isRS me then [(Instance this, Reader_Unregister), (Instance this, Reader_Shutdown)]
       else []) @
      [(Instance this, ReplicationDone (mChunkId me) (- 1))] @
      (if isRS me then [(Instance this, Reader_Register0), (Instance this, Reader_Shutdown)]
       else []) @
      [(Instance this, SubmitOpResponse (owner\<lparr>status := - 1, chunkVersion := - 1\<rparr>))]"
    unfolding HandleReplicationDone_trace[OF o]
    using n idle(3) by (simp add: UnRef_calls_def reply_def)
  show "calls_since (glob s) (glob (Run K E this s)) =
           (if isRS me then [Reader_Unregister, Reader_Shutdown] else []) @
           [ReplicationDone (mChunkId me) (- 1)] @
           (if isRS me then [Reader_Register0, Reader_Shutdown] else []) @
           [SubmitOpResponse (owner\<lparr>status := - 1, chunkVersion := - 1\<rparr>)]"
    unfolding r using calls_since_append[OF t] by simp
  have d: "deleted (fst ?res)"
    unfolding HandleReplicationDone_fst[OF o] using idle(3) by simp
  then show "heap (Run K E this s) this = None"
    unfolding r by (simp add: store_def split_def)
  have k: "entry_kept this (?r, ?g2) (fst ?res, snd ?res)"
    using entry_kept_HandleReplicationDone[of this ?r ?g2 "Some (- 1)"] by simp
  have f: "registry_find (sInFlightReplications ?g2) (mChunkId ?r) = Some this"
    by (simp add: registry_reinsert_find)
  have "registry_find (sInFlightReplications (snd ?res)) (mChunkId ?r) = None"
    using k d nx f unfolding entry_kept_def split_conv by simp
  then show "registry_find (sInFlightReplications (glob (Run K E this s))) (mChunkId me) = None"
    unfolding r by simp
qed

lemma Run_other:
  assumes reg: "registry_find (sInFlightReplications (glob s)) (mChunkId me) = Some other"
    and ne: "other \<noteq> this" and hp: "heap s this = Some me" and live: "heap s other = Some otherObj"
    and nc: "\<not> mCancelFlag me" and nx: "\<not> deleted me"
  shows "heap (Run K E this s) other =
           (if deleted (fst (Cancel K E other (otherObj, glob s))) then None
            else Some (fst (Cancel K E other (otherObj, glob s))))"
    and "registry_find (sInFlightReplications (glob (Run K E this s))) (mChunkId me) =
           (if heap (Run K E this s) this = None then None else Some this)"
proof -
  define s1 where "s1 = (store other (Cancel K E other (otherObj, glob s)) s)
             \<lparr>glob := (snd (Cancel K E other (otherObj, glob s)))
                \<lparr>sInFlightReplications :=
                   registry_reinsert
                     (sInFlightReplications (snd (Cancel K E other (otherObj, glob s))))
                     (mChunkId me) this\<rparr>\<rparr>"
  define X where "X = Run_buffers K E this (me, glob s1)"
  have e: "Run_register K E this me s = ((me, s1), False)"
    unfolding s1_def by (rule Run_register_other[OF reg ne live nc])
  have r: "Run K E this s = store this X s1"
    using hp e by (simp add: Run_def X_def)
  show "heap (Run K E this s) other =
           (if deleted (fst (Cancel K E other (otherObj, glob s))) then None
            else Some (fst (Cancel K E other (otherObj, glob s))))"
    unfolding r using ne by (simp add: store_def split_def s1_def)
  have f: "registry_find (sInFlightReplications (glob s1)) (mChunkId me) = Some this"
    by (simp add: s1_def registry_reinsert_find)
  have k: "entry_kept this (me, glob s1) (fst X, snd X)"
    unfolding X_def using entry_kept_Run_buffers[of this me "glob s1" K E] by simp
  have h: "heap (Run K E this s) this = (if deleted (fst X) then None else Some (fst X))"
    unfolding r by (simp add: store_def split_def)
  have g: "glob (Run K E this s) = snd X" unfolding r by simp
  show "registry_find (sInFlightReplications (glob (Run K E this s))) (mChunkId me) =
           (if heap (Run K E this s) this = None then None else Some this)"
    unfolding h g using k f nx unfolding entry_kept_def split_conv by auto
qed

text \<open>
  C2 (as amended). After every sequence of events the registry holds at most one entry
  for a chunk. When \<open>Run\<close> finds another replicator registered for its chunk, it cancels
  that replicator (which then is canceled, or has ended and is gone) and inserts again,
  so that the incoming replicator is the entry for the chunk when the registration is
  over; when \<open>Run\<close> returns, the entry for the chunk is the incoming replicator, the only
  one for the chunk, unless that replicator has ended and been destroyed within \<open>Run\<close>
  (no buffers within the quota, or a start that fails at once): then the chunk has no
  entry. When the replicator finds itself registered, \<open>Run\<close> ends it at once: it asks
  for no buffers and makes no call to a peer, the reader or the chunk store, the chunk
  manager is told the failure, the request is answered with status -1 and chunk version
  -1, and the replicator is destroyed and its entry erased. The dispatcher calls \<open>Run\<close>
  on a replicator it has just made, which is not canceled and is not the one the
  registry holds.
\<close>

theorem registry_supersession:
  "registry_distinct (run_events K dec initial_system evs) \<and>
   (registry_find (sInFlightReplications (glob s)) (mChunkId me) = Some other \<and>
    other \<noteq> this \<and> heap s this = Some me \<and> heap s other = Some otherObj \<and>
    \<not> mCancelFlag me \<and> \<not> deleted me \<longrightarrow>
      mCancelFlag (fst (Cancel K E other (otherObj, glob s))) \<and>
      heap (Run K E this s) other =
        (if deleted (fst (Cancel K E other (otherObj, glob s))) then None
         else Some (fst (Cancel K E other (otherObj, glob s)))) \<and>
      registry_find
        (sInFlightReplications (glob (snd (fst (Run_register K E this me s)))))
        (mChunkId me) = Some this \<and>
      registry_find (sInFlightReplications (glob (Run K E this s))) (mChunkId me) =
        (if heap (Run K E this s) this = None then None else Some this) \<and>
      (registry_distinct s \<longrightarrow> registry_distinct (Run K E this s))) \<and>
   (registry_find (sInFlightReplications (glob s)) (mChunkId me) = Some this \<and>
    heap s this = Some me \<and> mOwner me = Some owner \<and> \<not> mDone me \<and> \<not> waiting me \<and>
    \<not> mReadInFlightFlag me \<and> refCount me = 1 \<and> \<not> deleted me \<longrightarrow>
      calls_since (glob s) (glob (Run K E this s)) =
        (if isRS me then [Reader_Unregister, Reader_Shutdown] else []) @
        [ReplicationDone (mChunkId me) (- 1)] @
        (if isRS me then [Reader_Register0, Reader_Shutdown] else []) @
        [SubmitOpResponse (owner\<lparr>status := - 1, chunkVersion := - 1\<rparr>)] \<and>
      heap (Run K E this s) this = None \<and>
      registry_find (sInFlightReplications (glob (Run K E this s))) (mChunkId me) = None) \<and>
   (t = run_events K dec initial_system evs0 \<and>
    (if location_IsValid op then env_peer E else \<not> Run_invalid_request K op) \<longrightarrow>
      (let this' = nextId t;
           impl = (if location_IsValid op then Ref (ReplicatorImpl_new E op True)
                   else Ref (RSReplicatorImpl_new K E op));
           s0 = t\<lparr>heap := (heap t)(this' := Some impl),
                  glob := (if location_IsValid op
                           then (glob t)\<lparr>mReplicationCount := mReplicationCount (glob t) + 1,
                                         mReplicatorCount := mReplicatorCount (glob t) + 1\<rparr>
                           else (glob t)\<lparr>mRecoveryCount := mRecoveryCount (glob t) + 1,
                                         mReplicatorCount := mReplicatorCount (glob t) + 1\<rparr>),
                  nextId := Suc this'\<rparr>
       in Replicator_Run K E op t = Run K E this' s0 \<and>
          heap s0 this' = Some impl \<and> mChunkId impl = chunkId op \<and>
          \<not> mCancelFlag impl \<and> \<not> deleted impl \<and>
          sInFlightReplications (glob s0) = sInFlightReplications (glob t) \<and>
          registry_find (sInFlightReplications (glob t)) (chunkId op) \<noteq> Some this'))"
proof (intro conjI impI)
  have "registry_distinct initial_system"
    by (simp add: registry_distinct_def initial_system_def initial_globals_def)
  then show "registry_distinct (run_events K dec initial_system evs)"
    by (rule run_events_distinct)
next
  assume h: "registry_find (sInFlightReplications (glob s)) (mChunkId me) = Some other \<and>
    other \<noteq> this \<and> heap s this = Some me \<and> heap s other = Some otherObj \<and>
    \<not> mCancelFlag me \<and> \<not> deleted me"
  then have reg: "registry_find (sInFlightReplications (glob s)) (mChunkId me) = Some other"
    and ne: "other \<noteq> this" and hp: "heap s this = Some me"
    and live: "heap s other = Some otherObj" and nc: "\<not> mCancelFlag me"
    and nx: "\<not> deleted me"
    by simp_all
  note e = Run_register_other[OF reg ne live nc, of K E]
  show "mCancelFlag (fst (Cancel K E other (otherObj, glob s)))" by (rule Cancel_sets_flag)
  show "heap (Run K E this s) other =
        (if deleted (fst (Cancel K E other (otherObj, glob s))) then None
         else Some (fst (Cancel K E other (otherObj, glob s))))"
    by (rule Run_other(1)[OF reg ne hp live nc nx])
  show "registry_find
        (sInFlightReplications (glob (snd (fst (Run_register K E this me s)))))
        (mChunkId me) = Some this"
    unfolding e by (simp add: registry_reinsert_find)
  show "registry_find (sInFlightReplications (glob (Run K E this s))) (mChunkId me) =
        (if heap (Run K E this s) this = None then None else Some this)"
    by (rule Run_other(2)[OF reg ne hp live nc nx])
  assume "registry_distinct s"
  then show "registry_distinct (Run K E this s)" by (rule Run_distinct)
next
  assume h: "registry_find (sInFlightReplications (glob s)) (mChunkId me) = Some this \<and>
    heap s this = Some me \<and> mOwner me = Some owner \<and> \<not> mDone me \<and> \<not> waiting me \<and>
    \<not> mReadInFlightFlag me \<and> refCount me = 1 \<and> \<not> deleted me"
  then have reg: "registry_find (sInFlightReplications (glob s)) (mChunkId me) = Some this"
    and hp: "heap s this = Some me" and own: "mOwner me = Some owner" and nd: "\<not> mDone me"
    and idle: "\<not> waiting me" "\<not> mReadInFlightFlag me" "refCount me = 1"
    and nx: "\<not> deleted me"
    by simp_all
  note r = Run_self[OF reg hp own nd idle nx, of K E]
  show "calls_since (glob s) (glob (Run K E this s)) =
        (if isRS me then [Reader_Unregister, Reader_Shutdown] else []) @
        [ReplicationDone (mChunkId me) (- 1)] @
        (if isRS me then [Reader_Register0, Reader_Shutdown] else []) @
        [SubmitOpResponse (owner\<lparr>status := - 1, chunkVersion := - 1\<rparr>)]"
    by (rule r(1))
  show "heap (Run K E this s) this = None" by (rule r(2))
  show "registry_find (sInFlightReplications (glob (Run K E this s))) (mChunkId me) = None"
    by (rule r(3))
next
  assume h: "t = run_events K dec initial_system evs0 \<and>
    (if location_IsValid op then env_peer E else \<not> Run_invalid_request K op)"
  define this' where "this' = nextId t"
  define impl where "impl = (if location_IsValid op then Ref (ReplicatorImpl_new E op True)
                   else Ref (RSReplicatorImpl_new K E op))"
  define s0 where "s0 = t\<lparr>heap := (heap t)(this' := Some impl),
                  glob := (if location_IsValid op
                           then (glob t)\<lparr>mReplicationCount := mReplicationCount (glob t) + 1,
                                         mReplicatorCount := mReplicatorCount (glob t) + 1\<rparr>
                           else (glob t)\<lparr>mRecoveryCount := mRecoveryCount (glob t) + 1,
                                         mReplicatorCount := mReplicatorCount (glob t) + 1\<rparr>),
                  nextId := Suc this'\<rparr>"
  have "registry_fresh initial_system"
    by (simp add: registry_fresh_def initial_system_def initial_globals_def)
  then have fr: "registry_fresh t" using h run_events_fresh by simp
  have i: "mChunkId impl = chunkId op" "\<not> mCancelFlag impl" "\<not> deleted impl"
    by (simp_all add: impl_def ReplicatorImpl_new_def RSReplicatorImpl_new_def Ref_def)
  have ns: "registry_find (sInFlightReplications (glob t)) (chunkId op) \<noteq> Some this'"
  proof
    assume "registry_find (sInFlightReplications (glob t)) (chunkId op) = Some this'"
    then have "(chunkId op, this') \<in> set (sInFlightReplications (glob t))"
      unfolding registry_find_def by (rule map_of_SomeD)
    then have "this' < nextId t" using fr by (auto simp: registry_fresh_def)
    then show False by (simp add: this'_def)
  qed
  have e: "Replicator_Run K E op t = Run K E this' s0"
    using h by (auto simp: Replicator_Run_def Let_def s0_def this'_def impl_def)
  have "Replicator_Run K E op t = Run K E this' s0 \<and>
          heap s0 this' = Some impl \<and> mChunkId impl = chunkId op \<and>
          \<not> mCancelFlag impl \<and> \<not> deleted impl \<and>
          sInFlightReplications (glob s0) = sInFlightReplications (glob t) \<and>
          registry_find (sInFlightReplications (glob t)) (chunkId op) \<noteq> Some this'"
    using e i ns by (simp add: s0_def)
  then show "let this' = nextId t;
           impl = (if location_IsValid op then Ref (ReplicatorImpl_new E op True)
                   else Ref (RSReplicatorImpl_new K E op));
           s0 = t\<lparr>heap := (heap t)(this' := Some impl),
                  glob := (if location_IsValid op
                           then (glob t)\<lparr>mReplicationCount := mReplicationCount (glob t) + 1,
                                         mReplicatorCount := mReplicatorCount (glob t) + 1\<rparr>
                           else (glob t)\<lparr>mRecoveryCount := mRecoveryCount (glob t) + 1,
                                         mReplicatorCount := mReplicatorCount (glob t) + 1\<rparr>),
                  nextId := Suc this'\<rparr>
       in Replicator_Run K E op t = Run K E this' s0 \<and>
          heap s0 this' = Some impl \<and> mChunkId impl = chunkId op \<and>
          \<not> mCancelFlag impl \<and> \<not> deleted impl \<and>
          sInFlightReplications (glob s0) = sInFlightReplications (glob t) \<and>
          registry_find (sInFlightReplications (glob t)) (chunkId op) \<noteq> Some this'"
    unfolding Let_def this'_def[symmetric] impl_def[symmetric] s0_def[symmetric] .
qed

theorem registry_supersession_witness:
  "registry_find (sInFlightReplications (glob
      (run_events example_constants le_sint initial_system
         [(example_environment, Ev_Run example_replication_op)]))) 2 = Some 1 \<and>
   registry_find (sInFlightReplications (glob
      (Run example_constants example_environment 2
         ((run_events example_constants le_sint initial_system
             [(example_environment, Ev_Run example_replication_op)])
            \<lparr>heap := (heap (run_events example_constants le_sint initial_system
                               [(example_environment, Ev_Run example_replication_op)]))
                 (2 := Some (Ref (ReplicatorImpl_new example_environment
                                    example_replication_op True))),
             nextId := 3\<rparr>)))) 2 = Some 2 \<and>
   registry_distinct (run_events example_constants le_sint initial_system
      [(example_environment, Ev_Run example_replication_op),
       (example_environment, Ev_Run example_replication_op)]) \<and>
   calls_since initial_globals (glob (Run example_constants example_environment 1
      (initial_system
         \<lparr>heap := (heap initial_system)
              (1 := Some (Ref (ReplicatorImpl_new example_environment
                                 example_replication_op True))),
          glob := initial_globals\<lparr>sInFlightReplications := [(2, 1)]\<rparr>, nextId := 2\<rparr>))) =
     [ReplicationDone 2 (- 1),
      SubmitOpResponse (example_replication_op\<lparr>status := - 1, chunkVersion := - 1\<rparr>)]"
proof -
  let ?K = example_constants
  let ?E = example_environment
  let ?t = "run_events ?K le_sint initial_system [(?E, Ev_Run example_replication_op)]"
  let ?me = "Ref (ReplicatorImpl_new ?E example_replication_op True)"
  let ?s = "?t\<lparr>heap := (heap ?t)(2 := Some ?me), nextId := 3\<rparr>"
  let ?u = "initial_system\<lparr>heap := (heap initial_system)(1 := Some ?me),
          glob := initial_globals\<lparr>sInFlightReplications := [(2, 1)]\<rparr>, nextId := 2\<rparr>"
  have k: "mChunkId ?me = 2" by (simp add: ReplicatorImpl_new_def example_replication_op_def)
  have r: "isRS ?me = False" by (simp add: ReplicatorImpl_new_def)
  have w1: "registry_find (sInFlightReplications (glob ?t)) 2 = Some 1" by code_simp
  have h: "registry_find (sInFlightReplications (glob ?s)) (mChunkId ?me) = Some 1 \<and>
    (1::nat) \<noteq> 2 \<and> heap ?s 2 = Some ?me \<and> heap ?s 1 = Some (the (heap ?s 1)) \<and>
    \<not> mCancelFlag ?me \<and> \<not> deleted ?me"
    by code_simp
  have a: "heap (Run ?K ?E 2 ?s) 2 \<noteq> None" by code_simp
  note c = registry_supersession[where K = ?K and dec = le_sint and s = ?s and me = ?me
      and other = 1 and this = 2 and otherObj = "the (heap ?s 1)" and E = ?E,
      THEN conjunct2, THEN conjunct1, rule_format, OF h]
  have w2: "registry_find (sInFlightReplications (glob (Run ?K ?E 2 ?s))) 2 = Some 2"
    using c a unfolding k by simp
  have w3: "registry_distinct (run_events ?K le_sint initial_system
      [(?E, Ev_Run example_replication_op), (?E, Ev_Run example_replication_op)])"
    using registry_supersession[where K = ?K and dec = le_sint and evs =
        "[(?E, Ev_Run example_replication_op), (?E, Ev_Run example_replication_op)]"]
    by blast
  have h4: "registry_find (sInFlightReplications (glob ?u)) (mChunkId ?me) = Some 1 \<and>
    heap ?u 1 = Some ?me \<and> mOwner ?me = Some example_replication_op \<and> \<not> mDone ?me \<and>
    \<not> waiting ?me \<and> \<not> mReadInFlightFlag ?me \<and> refCount ?me = 1 \<and> \<not> deleted ?me"
    by code_simp
  have g: "glob ?u = initial_globals\<lparr>sInFlightReplications := [(2, 1)]\<rparr>" by simp
  have cs: "calls_since (glob ?u) X = calls_since initial_globals X" for X
    by (simp add: calls_since_def)
  note d = registry_supersession[where K = ?K and s = ?u and me = ?me and this = 1
      and owner = example_replication_op and E = ?E,
      THEN conjunct2, THEN conjunct2, THEN conjunct1, rule_format, OF h4, THEN conjunct1]
  have w4: "calls_since initial_globals (glob (Run ?K ?E 1 ?u)) =
     [ReplicationDone 2 (- 1),
      SubmitOpResponse (example_replication_op\<lparr>status := - 1, chunkVersion := - 1\<rparr>)]"
    using d unfolding cs k r by simp
  show ?thesis using w1 w2 w3 w4 by blast
qed

text \<open>
  C2 as stated fails: a replicator that supersedes another and gets no buffers within the
  quota ends within \<open>Run\<close>, and its destructor erases the entry it has just taken. The
  replicator it has canceled is still there, waiting for the metadata, and the chunk has
  no entry in the registry.
\<close>

theorem superseding_replicator_leaves_no_entry:
  "registry_find (sInFlightReplications (glob
      (run_events example_constants le_sint initial_system
         [(example_environment, Ev_Run example_replication_op)]))) 2 = Some 1 \<and>
   sInFlightReplications (glob
      (run_events example_constants le_sint initial_system
         [(example_environment, Ev_Run example_replication_op),
          (example_environment\<lparr>env_IsOverQuota := True\<rparr>, Ev_Run example_replication_op)])) = [] \<and>
   heap (run_events example_constants le_sint initial_system
         [(example_environment, Ev_Run example_replication_op),
          (example_environment\<lparr>env_IsOverQuota := True\<rparr>, Ev_Run example_replication_op)]) 2 =
     None \<and>
   map_option (\<lambda>r. (mCancelFlag r, handler r, mOwner r \<noteq> None))
     (heap (run_events example_constants le_sint initial_system
         [(example_environment, Ev_Run example_replication_op),
          (example_environment\<lparr>env_IsOverQuota := True\<rparr>, Ev_Run example_replication_op)]) 1) =
     Some (True, H_HandleStartDone, True)"
  by code_simp

section \<open>The outcome of a replicator\<close>

lemma commits_of_emit [simp]:
  "commits_of this (emit c e g) =
     commits_of this g @ (if c = Instance this \<and> is_ChangeChunkVers e then [e] else [])"
  by (simp add: commits_of_def calls_of_def)

lemma responses_of_emit [simp]:
  "responses_of this (emit c e g) =
     responses_of this g @ (if c = Instance this \<and> is_SubmitOpResponse e then [e] else [])"
  by (simp add: responses_of_def calls_of_def)

lemma calls_of_simps [simp]:
  "calls_of c [] = []"
  "calls_of c ((c', e) # xs) = (if c' = c then [e] else []) @ calls_of c xs"
  by (simp_all add: calls_of_def)


lemma calls_of_UnRef_calls [simp]:
  "filter is_ChangeChunkVers (calls_of c (UnRef_calls this r)) = []"
  "filter is_SubmitOpResponse (calls_of c (UnRef_calls this r)) = []"
  by (simp_all add: UnRef_calls_def calls_of_def)


lemma reported_failure_simps [simp]:
  "responses_of this g = [] \<Longrightarrow> reported_failure this g"
  by (simp add: reported_failure_def)






lemma HandleReadDone_status_fields' [simp]:
  "waiting (HandleReadDone_status K r) = waiting r"
  "mReadInFlightFlag (HandleReadDone_status K r) = mReadInFlightFlag r"
  "mDone (HandleReadDone_status K r) = mDone r"
  "handler (HandleReadDone_status K r) = handler r"
  by (simp_all add: HandleReadDone_status_def Let_def)

lemma HandleReadDone_swap_fields' [simp]:
  "waiting (HandleReadDone_swap K r) = waiting r"
  "mReadInFlightFlag (HandleReadDone_swap K r) = mReadInFlightFlag r"
  by (simp_all add: HandleReadDone_swap_def Let_def split_def)

lemma Done_parts_fields' [simp]:
  "waiting (Done_end_of_chunk r b) = waiting r"
  "mReadInFlightFlag (Done_end_of_chunk r b) = mReadInFlightFlag r"
  "mChunkVersion (Done_end_of_chunk r b) = mChunkVersion r"
  "mDone (Done_end_of_chunk r b) = mDone r"
  "handler (Done_end_of_chunk r b) = handler r"
  "waiting (Done_move_blocks r b n) = waiting r"
  "mReadInFlightFlag (Done_move_blocks r b n) = mReadInFlightFlag r"
  "mChunkVersion (Done_move_blocks r b n) = mChunkVersion r"
  "mDone (Done_move_blocks r b n) = mDone r"
  "handler (Done_move_blocks r b n) = handler r"
  by (simp_all add: Done_end_of_chunk_def Done_move_blocks_def Let_def split_def)












section \<open>The outcome of a recovery\<close>









lemma doomedI:
  assumes "reported_failure this g" "mCancelFlag r \<or> mOwner r = None"
  shows "doomed this (r, g)"
  using assms by (simp add: doomed_def)





lemma deliver_react:
  assumes "\<not> died s" "heap s this = Some r" "\<not> deleted r"
  shows "deliver K dec s (E, Ev_ReadDone this st dat) =
           (case react K dec this (r, glob s) (E, St_ReadDone st dat) of
              Inl e \<Rightarrow> s\<lparr>died := True\<rparr> | Inr rg \<Rightarrow> store this rg s)"
    and "deliver K dec s (E, Ev_WriteDone this st n) =
           (case react K dec this (r, glob s) (E, St_WriteDone st n) of
              Inl e \<Rightarrow> s\<lparr>died := True\<rparr> | Inr rg \<Rightarrow> store this rg s)"
    and "deliver K dec s (E, Ev_ReaderDone this mine st off sz buf req) =
           (case react K dec this (r, glob s) (E, St_ReaderDone mine st off sz buf req) of
              Inl e \<Rightarrow> s\<lparr>died := True\<rparr> | Inr rg \<Rightarrow> store this rg s)"
    and "deliver K dec s (E, Ev_ChangeChunkVersDone this cd) =
           (case react K dec this (r, glob s) (E, St_CommitDone cd) of
              Inl e \<Rightarrow> s\<lparr>died := True\<rparr> | Inr rg \<Rightarrow> store this rg s)"
    and "on_instance this (\<lambda>r. True) (Cancel K E this) s =
           (case react K dec this (r, glob s) (E, St_Cancel) of
              Inl e \<Rightarrow> s\<lparr>died := True\<rparr> | Inr rg \<Rightarrow> store this rg s)"
proof -
  have i: "store this (r, glob s) s = s"
    using assms(2,3) by (simp add: store_def fun_upd_idem)
  show "deliver K dec s (E, Ev_ReadDone this st dat) =
           (case react K dec this (r, glob s) (E, St_ReadDone st dat) of
              Inl e \<Rightarrow> s\<lparr>died := True\<rparr> | Inr rg \<Rightarrow> store this rg s)"
    using assms deliver_callback(1)[OF assms, of K dec E st dat] by (simp add: react_def)
  show "deliver K dec s (E, Ev_WriteDone this st n) =
           (case react K dec this (r, glob s) (E, St_WriteDone st n) of
              Inl e \<Rightarrow> s\<lparr>died := True\<rparr> | Inr rg \<Rightarrow> store this rg s)"
    using assms deliver_callback(2)[OF assms, of K dec E st n] by (simp add: react_def)
  show "deliver K dec s (E, Ev_ReaderDone this mine st off sz buf req) =
           (case react K dec this (r, glob s) (E, St_ReaderDone mine st off sz buf req) of
              Inl e \<Rightarrow> s\<lparr>died := True\<rparr> | Inr rg \<Rightarrow> store this rg s)"
    using assms i by (simp add: deliver_def react_def)
  show "deliver K dec s (E, Ev_ChangeChunkVersDone this cd) =
           (case react K dec this (r, glob s) (E, St_CommitDone cd) of
              Inl e \<Rightarrow> s\<lparr>died := True\<rparr> | Inr rg \<Rightarrow> store this rg s)"
    using assms i by (auto simp: deliver_def react_def on_instance_def)
  show "on_instance this (\<lambda>r. True) (Cancel K E this) s =
           (case react K dec this (r, glob s) (E, St_Cancel) of
              Inl e \<Rightarrow> s\<lparr>died := True\<rparr> | Inr rg \<Rightarrow> store this rg s)"
    using assms by (simp add: react_def on_instance_def)
qed








end
